(* ===== verification/Prelude.thy ===== *)
theory Prelude
  imports Main "HOL-Library.AList"
begin

text \<open>
  Shared vocabulary of the arc-eager development (src/arc_eager.py): the Python
  exceptions the module can raise, the two result shapes of its functions (a pure
  function that raises, and a method that mutates its argument in place and may raise
  after a partial update), the sentinel \<open>ROOT\<close>, and the list and association-list
  lemmas that the component theories share.
\<close>

section \<open>Python exceptions and results\<close>

text \<open>
  The exceptions the module raises: \<open>IndexError\<close> (\<open>list.pop()\<close> on an empty list,
  \<open>xs[0]\<close> on an empty list), \<open>KeyError k\<close> (a missing key of a plain \<open>dict\<close>),
  \<open>AssertionError\<close> (a failing \<open>assert\<close>), \<open>TypeError\<close> (a list indexed by a value
  that is not an integer).
\<close>

datatype error = IndexError | KeyError int | AssertionError | TypeError

text \<open>
  A function that only reads returns \<open>error + 'a\<close>; \<open>ebind\<close> propagates the first
  exception, as Python does.
\<close>

fun ebind :: "error + 'a \<Rightarrow> ('a \<Rightarrow> error + 'b) \<Rightarrow> error + 'b" where
  "ebind (Inl e) f = Inl e"
| "ebind (Inr x) f = f x"

text \<open>
  A method that mutates its argument in place returns an \<open>outcome\<close>: \<open>Ok s\<close> when it
  returns, \<open>Raise e s\<close> when it raises \<open>e\<close>, with \<open>s\<close> the state the object was left
  in (mutations made before the exception are not undone).
\<close>

datatype 'a outcome = Ok 'a | Raise error 'a

fun outcome_state :: "'a outcome \<Rightarrow> 'a" where
  "outcome_state (Ok s) = s"
| "outcome_state (Raise e s) = s"

text \<open>Token indices are Python ints; the virtual root is the sentinel \<open>-1\<close>.\<close>

type_synonym idx = int
type_synonym arc = "idx \<times> idx"

abbreviation ROOT :: idx where
  "ROOT \<equiv> -1"

named_theorems model_simps "unfolding rules of the model's operations"

section \<open>Shared lemmas\<close>

lemma ebind_eq_Inr [simp]:
  "ebind m f = Inr y \<longleftrightarrow> (\<exists>x. m = Inr x \<and> f x = Inr y)"
  by (cases m) auto

lemma ebind_eq_Inl [simp]:
  "ebind m f = Inl e \<longleftrightarrow> m = Inl e \<or> (\<exists>x. m = Inr x \<and> f x = Inl e)"
  by (cases m) auto

lemma last_in_set_tl:
  "length xs > 1 \<Longrightarrow> last xs \<in> set (tl xs)"
  by (cases xs) auto

lemma map_of_update_iff:
  "map_of (AList.update k v al) k' = (if k' = k then Some v else map_of al k')"
  by (simp add: update_conv')

lemma upt_int_Cons:
  "i < n \<Longrightarrow> map int [i..<n] = int i # map int [Suc i..<n]"
  by (simp add: upt_conv_Cons)

lemma length_filter_pos_iff: "0 < length (filter P xs) \<longleftrightarrow> (\<exists>x \<in> set xs. P x)"
  by (induction xs) auto

lemma card_set_inter_filter:
  "card (set xs \<inter> set ys) = length (remdups (filter (\<lambda>x. x \<in> set ys) xs))"
proof -
  have "set xs \<inter> set ys = set (remdups (filter (\<lambda>x. x \<in> set ys) xs))"
    by auto
  then show ?thesis
    by (metis distinct_card distinct_remdups)
qed

end
