(* ===== verification/Gold.thy ===== *)
theory Gold
  imports Prelude
begin

text \<open>
  The input of a parse and the gold reference built from it
  (src/arc_eager.py: the tuple layout \<open>WORD, POS, HEAD, LABEL\<close>, class
  \<open>GoldConfiguration\<close> and \<open>ArcEager.get_gold_config\<close>). A sentence is a list of
  tokens; the token at position \<open>i\<close> has index \<open>i\<close>. \<open>head_of\<close> is a plain dict
  (a missing key raises \<open>KeyError\<close>), modelled as an association list; \<open>deps_of\<close>
  is a \<open>defaultdict(list)\<close>, modelled as an association list read through
  \<open>deps_get\<close>, which yields \<open>[]\<close> for a missing key; \<open>arcs\<close> is a set of pairs.
\<close>

section \<open>Tokens and the gold configuration\<close>

text \<open>A token is the tuple \<open>(word, pos, head, label)\<close> indexed by \<open>WORD\<close> .. \<open>LABEL\<close>.\<close>

record token =
  word :: string
  pos :: string
  head :: idx
  label :: string

record gold_config =
  head_of :: "(idx \<times> idx) list"
  deps_of :: "(idx \<times> idx list) list"
  gold_arcs :: "arc set"

text \<open>\<open>GoldConfiguration.__init__\<close>: all three containers empty.\<close>

definition GoldConfiguration :: gold_config where
  "GoldConfiguration = \<lparr>head_of = [], deps_of = [], gold_arcs = {}\<rparr>"

text \<open>Reading \<open>deps_of[k]\<close> of the \<open>defaultdict\<close>: the stored list, or \<open>[]\<close>.\<close>

definition deps_get :: "gold_config \<Rightarrow> idx \<Rightarrow> idx list" where
  "deps_get g k = (case map_of (deps_of g) k of None \<Rightarrow> [] | Some ds \<Rightarrow> ds)"

text \<open>Reading \<open>head_of[k]\<close> of the plain dict: \<open>KeyError\<close> when \<open>k\<close> is no key.\<close>

definition lookup_head :: "gold_config \<Rightarrow> idx \<Rightarrow> error + idx" where
  "lookup_head g k = (case map_of (head_of g) k of None \<Rightarrow> Inl (KeyError k) | Some h \<Rightarrow> Inr h)"

text \<open>One iteration of the loop of \<open>get_gold_config\<close> (lines 62--65).\<close>

definition gold_add :: "gold_config \<Rightarrow> idx \<Rightarrow> idx \<Rightarrow> gold_config" where
  "gold_add g i hd_i =
     g\<lparr>head_of := AList.update i hd_i (head_of g),
       deps_of := AList.update hd_i (deps_get g hd_i @ [i]) (deps_of g),
       gold_arcs := insert (hd_i, i) (gold_arcs g)\<rparr>"

text \<open>The loop \<open>for i in xrange(len(sentence))\<close>, over the remaining tokens.\<close>

fun gold_loop :: "gold_config \<Rightarrow> token list \<Rightarrow> nat \<Rightarrow> gold_config" where
  "gold_loop g [] i = g"
| "gold_loop g (t # ts) i = gold_loop (gold_add g (int i) (head t)) ts (Suc i)"

definition get_gold_config :: "token list \<Rightarrow> gold_config" where
  "get_gold_config sentence = gold_loop GoldConfiguration sentence 0"

text \<open>The gold head function of a sentence, as a total function on indices.\<close>

definition gold_head :: "token list \<Rightarrow> idx \<Rightarrow> idx" where
  "gold_head s i = head (s ! nat i)"

section \<open>What the loop builds\<close>

lemma gold_loop_head_of:
  "map_of (head_of (gold_loop g ts i)) k =
     (if int i \<le> k \<and> k < int (i + length ts) then Some (head (ts ! nat (k - int i)))
      else map_of (head_of g) k)"
proof (induction ts arbitrary: g i)
  case Nil
  then show ?case by auto
next
  case (Cons t ts)
  show ?case
  proof (cases "k = int i")
    case True
    then show ?thesis
      using Cons.IH by (simp add: gold_add_def map_of_update_iff)
  next
    case False
    then have "nat (k - int i) = Suc (nat (k - int (Suc i)))" if "int i \<le> k"
      using that by simp
    with False show ?thesis
      using Cons.IH by (auto simp: gold_add_def map_of_update_iff)
  qed
qed

lemma gold_loop_deps:
  "deps_get (gold_loop g ts i) h =
     deps_get g h @ [int j. (j, t) \<leftarrow> zip [i..<i + length ts] ts, head t = h]"
proof (induction ts arbitrary: g i)
  case Nil
  then show ?case by simp
next
  case (Cons t ts)
  have "[i..<i + length (t # ts)] = i # [Suc i..<Suc i + length ts]"
    by (simp add: upt_conv_Cons del: upt_Suc)
  then show ?case
    using Cons.IH by (simp add: gold_add_def deps_get_def map_of_update_iff del: upt_Suc)
qed

lemma gold_loop_arcs:
  "gold_arcs (gold_loop g ts i) =
     gold_arcs g \<union> {(head (ts ! j), int (i + j)) | j. j < length ts}"
proof (induction ts arbitrary: g i)
  case Nil
  then show ?case by simp
next
  case (Cons t ts)
  have "{(head ((t # ts) ! j), int (i + j)) | j. j < length (t # ts)} =
      insert (head t, int i) {(head (ts ! j), int (Suc i + j)) | j. j < length ts}"
    by (auto simp: less_Suc_eq_0_disj nth_Cons')
  then show ?case
    using Cons.IH by (auto simp: gold_add_def)
qed

lemma gold_loop_distinct:
  "distinct (map fst (head_of g)) \<Longrightarrow> distinct (map fst (head_of (gold_loop g ts i)))"
  by (induction ts arbitrary: g i) (simp_all add: gold_add_def distinct_update)

section \<open>The gold configuration of a sentence\<close>

lemma head_of_gold_map:
  "map_of (head_of (get_gold_config s)) k =
     (if 0 \<le> k \<and> k < int (length s) then Some (gold_head s k) else None)"
  by (simp add: get_gold_config_def gold_loop_head_of GoldConfiguration_def gold_head_def)

lemma lookup_head_gold:
  "lookup_head (get_gold_config s) k =
     (if 0 \<le> k \<and> k < int (length s) then Inr (gold_head s k) else Inl (KeyError k))"
  by (simp add: lookup_head_def head_of_gold_map)

lemma head_of_gold_set:
  "set (head_of (get_gold_config s)) = {(x, gold_head s x) | x. 0 \<le> x \<and> x < int (length s)}"
proof -
  have d: "distinct (map fst (head_of (get_gold_config s)))"
    by (simp add: get_gold_config_def gold_loop_distinct GoldConfiguration_def)
  show ?thesis
  proof (intro set_eqI iffI)
    fix p assume p: "p \<in> set (head_of (get_gold_config s))"
    obtain k v where kv: "p = (k, v)" by (cases p)
    with p have "map_of (head_of (get_gold_config s)) k = Some v"
      using map_of_is_SomeI[OF d] by blast
    then show "p \<in> {(x, gold_head s x) | x. 0 \<le> x \<and> x < int (length s)}"
      using kv head_of_gold_map[of s k] by (auto split: if_splits)
  next
    fix p assume "p \<in> {(x, gold_head s x) | x. 0 \<le> x \<and> x < int (length s)}"
    then obtain x where "p = (x, gold_head s x)" "0 \<le> x" "x < int (length s)"
      by blast
    then show "p \<in> set (head_of (get_gold_config s))"
      using head_of_gold_map[of s x] by (auto dest: map_of_SomeD)
  qed
qed

lemma deps_get_gold_set:
  "set (deps_get (get_gold_config s) h) = {x. 0 \<le> x \<and> x < int (length s) \<and> gold_head s x = h}"
proof -
  have "set [int j. (j, t) \<leftarrow> zip [0..<length s] s, head t = h] =
      {x. 0 \<le> x \<and> x < int (length s) \<and> gold_head s x = h}"
  proof (intro set_eqI iffI)
    fix x assume "x \<in> set [int j. (j, t) \<leftarrow> zip [0..<length s] s, head t = h]"
    then show "x \<in> {x. 0 \<le> x \<and> x < int (length s) \<and> gold_head s x = h}"
      by (auto simp: gold_head_def set_zip)
  next
    fix x assume x: "x \<in> {x. 0 \<le> x \<and> x < int (length s) \<and> gold_head s x = h}"
    then have "(nat x, s ! nat x) \<in> set (zip [0..<length s] s)"
      by (auto simp: set_zip intro: exI[of _ "nat x"])
    with x show "x \<in> set [int j. (j, t) \<leftarrow> zip [0..<length s] s, head t = h]"
      by (force simp: gold_head_def)
  qed
  moreover have "deps_get GoldConfiguration h = []"
    by (simp add: GoldConfiguration_def deps_get_def)
  ultimately show ?thesis
    by (simp add: get_gold_config_def gold_loop_deps)
qed

lemma deps_get_key: "deps_get g h \<noteq> [] \<Longrightarrow> h \<in> fst ` set (deps_of g)"
  by (auto simp: deps_get_def split: option.splits) (metis fst_conv image_eqI map_of_SomeD)

lemma gold_arcs_gold:
  "gold_arcs (get_gold_config s) = {(gold_head s x, x) | x. 0 \<le> x \<and> x < int (length s)}"
proof -
  have "{(head (s ! j), int (0 + j)) | j. j < length s} =
      {(gold_head s x, x) | x. 0 \<le> x \<and> x < int (length s)}"
    by (auto simp: gold_head_def)
  then show ?thesis
    by (simp add: get_gold_config_def gold_loop_arcs GoldConfiguration_def)
qed

section \<open>Properties of the gold configuration\<close>

text \<open>
  C33: what \<open>get_gold_config\<close> builds. \<open>head_of[k]\<close> is the gold head of token \<open>k\<close>
  for every index of the sentence and raises \<open>KeyError\<close> otherwise; \<open>deps_of[h]\<close>
  lists exactly the tokens whose head is \<open>h\<close> (empty for any other \<open>h\<close>, ROOT included
  when no token hangs from it); \<open>arcs\<close> is the set of pairs \<open>(head_of[d], d)\<close>.
\<close>

theorem get_gold_config_spec:
  "lookup_head (get_gold_config s) k =
     (if 0 \<le> k \<and> k < int (length s) then Inr (gold_head s k) else Inl (KeyError k)) \<and>
   set (deps_get (get_gold_config s) h) = {x. 0 \<le> x \<and> x < int (length s) \<and> gold_head s x = h} \<and>
   gold_arcs (get_gold_config s) = {(gold_head s x, x) | x. 0 \<le> x \<and> x < int (length s)}"
  using lookup_head_gold deps_get_gold_set gold_arcs_gold by blast

end
