(* ===== verification/Transitions.thy ===== *)
theory Transitions
  imports Gold
begin

text \<open>
  The transition engine of src/arc_eager.py: class \<open>Configuration\<close> (a record with
  the stack top at the end of the list, as in the Python \<open>list\<close>), the transition
  codes \<open>LEFT, RIGHT, SHIFT, REDUCE\<close>, \<open>get_initial_config\<close>, \<open>is_finished\<close>,
  \<open>get_legal_transitions\<close>, the four mutating transitions \<open>left_arc\<close>,
  \<open>right_arc\<close>, \<open>shift\<close>, \<open>reduce\<close> (each an \<open>outcome\<close>: \<open>pop()\<close> or
  \<open>[0]\<close> on an empty list raises \<open>IndexError\<close> after the updates already made),
  the class-level registry \<open>transition_funcs\<close> filled by \<open>ArcEager.__init__\<close>, and
  \<open>take_transition\<close>.
\<close>

section \<open>Configurations and transitions\<close>

record config =
  arcs :: "arc list"
  stack :: "idx list"
  buffer :: "idx list"
  sentence :: "token list"

text \<open>\<open>Configuration.__init__(root, buffer, sentence)\<close>.\<close>

definition Configuration :: "idx \<Rightarrow> idx list \<Rightarrow> token list \<Rightarrow> config" where
  "Configuration root buf s = \<lparr>arcs = [], stack = [root], buffer = buf, sentence = s\<rparr>"

text \<open>The class constants \<open>LEFT = 0, RIGHT = 1, SHIFT = 2, REDUCE = 3\<close>.\<close>

datatype transition = LEFT | RIGHT | SHIFT | REDUCE

fun trans_code :: "transition \<Rightarrow> int" where
  "trans_code LEFT = 0"
| "trans_code RIGHT = 1"
| "trans_code SHIFT = 2"
| "trans_code REDUCE = 3"

definition TRANSITIONS :: "transition list" where
  "TRANSITIONS = [LEFT, RIGHT, SHIFT, REDUCE]"

text \<open>
  \<open>get_initial_config\<close> as the code builds it: the buffer is \<open>range(len(sentence))\<close>,
  without the "extra root" its docstring mentions; \<open>ROOT\<close> is only on the stack.
\<close>

definition get_initial_config :: "token list \<Rightarrow> config" where
  "get_initial_config s = Configuration ROOT (map int [0..<length s]) s"

definition is_finished :: "config \<Rightarrow> bool" where
  "is_finished c \<longleftrightarrow> length (buffer c) = 0 \<and> length (stack c) = 1"

text \<open>\<open>len([h for h, t in config.arcs if t == x]) > 0\<close>: \<open>x\<close> already has a head.\<close>

definition has_head :: "arc list \<Rightarrow> idx \<Rightarrow> bool" where
  "has_head as x \<longleftrightarrow> 0 < length [h. (h, t) \<leftarrow> as, t = x]"

text \<open>
  \<open>get_legal_transitions\<close>: the flag list \<open>is_legal\<close>, indexed by the transition
  codes, switched off by the two blocks of the source in their order, then the codes
  whose flag is still set.
\<close>

definition get_legal_transitions :: "config \<Rightarrow> transition list" where
  "get_legal_transitions c =
     (let is_legal0 = [True, True, True, True];
          is_legal1 =
            (if length (buffer c) = 0 then is_legal0[0 := False, 1 := False, 2 := False]
             else
               (let buffer_first = hd (buffer c);
                    l = (if buffer_first = ROOT then is_legal0[1 := False] else is_legal0)
                in if has_head (arcs c) buffer_first then l[1 := False] else l));
          is_legal2 =
            (if length (stack c) = 0 then is_legal1[0 := False, 1 := False, 3 := False]
             else
               (let stack_top = last (stack c);
                    l = (if stack_top = ROOT then is_legal1[0 := False] else is_legal1)
                in if has_head (arcs c) stack_top then l[0 := False] else l[3 := False]))
      in [t. (t, legal) \<leftarrow> zip TRANSITIONS is_legal2, legal])"

text \<open>\<open>left_arc\<close>: \<open>s = stack.pop()\<close>, then \<open>b = buffer[0]\<close>, then the arc.\<close>

definition left_arc :: "config \<Rightarrow> config outcome" where
  "left_arc c =
     (if stack c = [] then Raise IndexError c
      else
        (let s = last (stack c);
             c1 = c\<lparr>stack := butlast (stack c)\<rparr>
         in if buffer c1 = [] then Raise IndexError c1
            else (let b = hd (buffer c1) in Ok (c1\<lparr>arcs := arcs c1 @ [(b, s)]\<rparr>))))"

definition right_arc :: "config \<Rightarrow> config outcome" where
  "right_arc c =
     (if stack c = [] then Raise IndexError c
      else
        (let s = last (stack c)
         in if buffer c = [] then Raise IndexError c
            else
              (let b = hd (buffer c)
               in Ok (c\<lparr>buffer := tl (buffer c), stack := stack c @ [b],
                        arcs := arcs c @ [(s, b)]\<rparr>))))"

definition shift :: "config \<Rightarrow> config outcome" where
  "shift c =
     (if buffer c = [] then Raise IndexError c
      else (let b = hd (buffer c) in Ok (c\<lparr>buffer := tl (buffer c), stack := stack c @ [b]\<rparr>)))"

definition reduce :: "config \<Rightarrow> config outcome" where
  "reduce c = (if stack c = [] then Raise IndexError c else Ok (c\<lparr>stack := butlast (stack c)\<rparr>))"

text \<open>
  The handler a registry entry refers to: the dict values of \<open>transition_funcs\<close> are
  the four static methods, named here by the transition they implement.
\<close>

fun apply_transition :: "config \<Rightarrow> transition \<Rightarrow> config outcome" where
  "apply_transition c LEFT = left_arc c"
| "apply_transition c RIGHT = right_arc c"
| "apply_transition c SHIFT = shift c"
| "apply_transition c REDUCE = reduce c"

text \<open>The class attribute \<open>transition_funcs\<close>, a dict from codes to handlers.\<close>

record arc_eager =
  transition_funcs :: "(int \<times> transition) list"

definition ArcEager_class :: arc_eager where
  "ArcEager_class = \<lparr>transition_funcs = []\<rparr>"

text \<open>\<open>ArcEager.__init__\<close>: registers the four handlers in the class dict.\<close>

definition ArcEager_init :: "arc_eager \<Rightarrow> arc_eager" where
  "ArcEager_init cls =
     cls\<lparr>transition_funcs :=
       AList.update (trans_code REDUCE) REDUCE
        (AList.update (trans_code SHIFT) SHIFT
          (AList.update (trans_code RIGHT) RIGHT
            (AList.update (trans_code LEFT) LEFT (transition_funcs cls))))\<rparr>"

text \<open>
  \<open>take_transition(config, transition)\<close>: \<open>assert transition in TRANSITIONS\<close>, then
  the dict lookup (\<open>KeyError\<close> before any \<open>ArcEager()\<close> was built), then the call.
\<close>

definition take_transition :: "arc_eager \<Rightarrow> config \<Rightarrow> int \<Rightarrow> config outcome" where
  "take_transition cls c t =
     (if t \<notin> set (map trans_code TRANSITIONS) then Raise AssertionError c
      else (case map_of (transition_funcs cls) t of
              None \<Rightarrow> Raise (KeyError t) c
            | Some handler \<Rightarrow> apply_transition c handler))"

text \<open>
  The legality table of the specification (spec section 4.1): the precondition of each
  transition stated on its own, against which \<open>get_legal_transitions\<close> is checked.
\<close>

fun legal_spec :: "config \<Rightarrow> transition \<Rightarrow> bool" where
  "legal_spec c LEFT \<longleftrightarrow> stack c \<noteq> [] \<and> buffer c \<noteq> [] \<and> last (stack c) \<noteq> ROOT \<and>
     \<not> has_head (arcs c) (last (stack c))"
| "legal_spec c RIGHT \<longleftrightarrow> stack c \<noteq> [] \<and> buffer c \<noteq> [] \<and> hd (buffer c) \<noteq> ROOT \<and>
     \<not> has_head (arcs c) (hd (buffer c))"
| "legal_spec c SHIFT \<longleftrightarrow> buffer c \<noteq> []"
| "legal_spec c REDUCE \<longleftrightarrow> stack c \<noteq> [] \<and> has_head (arcs c) (last (stack c))"

section \<open>Runs of the engine\<close>

text \<open>
  The driver of spec section 2: from a configuration, ask for the legal transitions and
  apply one of them. \<open>reachable s\<close> holds of every configuration such a driver can
  reach from \<open>get_initial_config s\<close>, whatever transitions it chooses.
\<close>

inductive reachable :: "token list \<Rightarrow> config \<Rightarrow> bool" for s where
  init: "reachable s (get_initial_config s)"
| step: "reachable s c \<Longrightarrow> t \<in> set (get_legal_transitions c) \<Longrightarrow>
         apply_transition c t = Ok c' \<Longrightarrow> reachable s c'"

text \<open>A run of the driver on a chosen transition list; \<open>None\<close> at an illegal choice.\<close>

fun run :: "config \<Rightarrow> transition list \<Rightarrow> config option" where
  "run c [] = Some c"
| "run c (t # ts) =
     (if t \<in> set (get_legal_transitions c)
      then (case apply_transition c t of Ok c' \<Rightarrow> run c' ts | Raise e c' \<Rightarrow> None)
      else None)"

definition is_push :: "transition \<Rightarrow> bool" where
  "is_push t \<longleftrightarrow> t = SHIFT \<or> t = RIGHT"

text \<open>
  The invariant of reachable configurations. With \<open>n\<close> tokens and \<open>j\<close> of them consumed
  from the buffer: the buffer is \<open>[j..<n]\<close>; the stack is \<open>ROOT\<close> followed by
  strictly increasing indices below \<open>j\<close>; no two arcs share a dependent, every
  dependent is below \<open>j\<close>; every consumed token is on the stack or has a head.
\<close>

definition consumed :: "config \<Rightarrow> nat" where
  "consumed c = length (sentence c) - length (buffer c)"

definition wf_config :: "config \<Rightarrow> bool" where
  "wf_config c \<longleftrightarrow>
     buffer c = map int [consumed c..<length (sentence c)] \<and>
     stack c \<noteq> [] \<and> hd (stack c) = ROOT \<and>
     sorted_wrt (<) (tl (stack c)) \<and>
     (\<forall>x \<in> set (tl (stack c)). 0 \<le> x \<and> x < int (consumed c)) \<and>
     distinct (map snd (arcs c)) \<and>
     (\<forall>a \<in> set (arcs c). 0 \<le> snd a \<and> snd a < int (consumed c)) \<and>
     (\<forall>k \<in> {0..<consumed c}. int k \<in> set (tl (stack c)) \<or> has_head (arcs c) (int k))"

text \<open>
  Small inputs used by the witnesses: a token with only its gold head set, a one-token
  sentence, and the three-token sentence of the specification's end-to-end scenario
  (\<open>head_of = {0: 1, 1: ROOT, 2: 1}\<close>).
\<close>

definition tok :: "idx \<Rightarrow> token" where
  "tok h = \<lparr>word = [], pos = [], head = h, label = []\<rparr>"

definition one_token :: "token list" where
  "one_token = [tok ROOT]"

definition spec_sentence :: "token list" where
  "spec_sentence = [tok 1, tok ROOT, tok 1]"

section \<open>Legality and the effect of each transition\<close>

lemma has_head_iff: "has_head as x \<longleftrightarrow> x \<in> snd ` set as"
  by (induction as) (auto simp: has_head_def)

lemma legal_iff: "t \<in> set (get_legal_transitions c) \<longleftrightarrow> legal_spec c t"
proof -
  have "get_legal_transitions c = filter (legal_spec c) TRANSITIONS"
    by (simp add: get_legal_transitions_def TRANSITIONS_def Let_def)
  then show ?thesis
    by (cases t) (simp_all add: TRANSITIONS_def)
qed

lemma apply_transition_Ok_iff:
  "apply_transition c t = Ok c' \<longleftrightarrow>
   (case t of
      LEFT \<Rightarrow> stack c \<noteq> [] \<and> buffer c \<noteq> [] \<and>
              c' = c\<lparr>stack := butlast (stack c), arcs := arcs c @ [(hd (buffer c), last (stack c))]\<rparr>
    | RIGHT \<Rightarrow> stack c \<noteq> [] \<and> buffer c \<noteq> [] \<and>
              c' = c\<lparr>buffer := tl (buffer c), stack := stack c @ [hd (buffer c)],
                      arcs := arcs c @ [(last (stack c), hd (buffer c))]\<rparr>
    | SHIFT \<Rightarrow> buffer c \<noteq> [] \<and> c' = c\<lparr>buffer := tl (buffer c), stack := stack c @ [hd (buffer c)]\<rparr>
    | REDUCE \<Rightarrow> stack c \<noteq> [] \<and> c' = c\<lparr>stack := butlast (stack c)\<rparr>)"
  by (cases t) (auto simp: left_arc_def right_arc_def shift_def reduce_def Let_def)

lemma take_transition_Ok:
  "take_transition cls c t = Ok c' \<Longrightarrow> \<exists>h. apply_transition c h = Ok c'"
  by (auto simp: take_transition_def split: if_splits option.splits)

lemma legal_Ok:
  "t \<in> set (get_legal_transitions c) \<Longrightarrow> \<exists>c'. apply_transition c t = Ok c'"
  by (cases t) (auto simp: legal_iff apply_transition_Ok_iff simp del: apply_transition.simps)

lemma apply_transition_sizes:
  assumes "apply_transition c t = Ok c'"
  shows "length (buffer c) = length (buffer c') + of_bool (is_push t)"
    and "length (stack c) + of_bool (is_push t) = length (stack c') + of_bool (\<not> is_push t)"
    and "sentence c' = sentence c"
  using assms by (cases t; auto simp: apply_transition_Ok_iff is_push_def
      simp del: apply_transition.simps)+

lemma apply_transition_measure:
  "apply_transition c t = Ok c' \<Longrightarrow>
   2 * length (buffer c') + length (stack c') < 2 * length (buffer c) + length (stack c)"
  using apply_transition_sizes(1,2)[of c t c'] by (cases "is_push t") auto

section \<open>The invariant\<close>

lemma sorted_wrt_butlast: "sorted_wrt r xs \<Longrightarrow> sorted_wrt r (butlast xs)"
  by (induction xs) (auto dest: in_set_butlastD)

lemma set_butlast_last: "xs \<noteq> [] \<Longrightarrow> set xs = insert (last xs) (set (butlast xs))"
  by (induction xs) auto

lemma wf_init: "wf_config (get_initial_config s)"
  by (simp add: wf_config_def get_initial_config_def Configuration_def consumed_def)

lemma wf_stack_shape:
  assumes "wf_config c"
  obtains \<sigma> where "stack c = ROOT # \<sigma>" "sorted_wrt (<) \<sigma>"
    "\<forall>x \<in> set \<sigma>. 0 \<le> x \<and> x < int (consumed c)"
  using assms by (cases "stack c") (auto simp: wf_config_def)

lemma wf_buffer_hd:
  "wf_config c \<Longrightarrow> buffer c \<noteq> [] \<Longrightarrow>
     hd (buffer c) = int (consumed c) \<and>
     tl (buffer c) = map int [Suc (consumed c)..<length (sentence c)] \<and>
     consumed c < length (sentence c)"
  by (cases "consumed c < length (sentence c)") (auto simp: wf_config_def upt_conv_Cons)

lemma wf_consumed_Suc:
  "wf_config c \<Longrightarrow> buffer c \<noteq> [] \<Longrightarrow>
   consumed (c\<lparr>buffer := tl (buffer c), stack := st, arcs := as\<rparr>) = Suc (consumed c)"
  using wf_buffer_hd[of c] by (auto simp: consumed_def wf_config_def)

lemma wf_no_head_root: "wf_config c \<Longrightarrow> \<not> has_head (arcs c) ROOT"
  by (auto simp: wf_config_def has_head_iff)

text \<open>SHIFT and RIGHT move the buffer front onto the stack.\<close>

lemma wf_push_step:
  assumes wf: "wf_config c" and b: "buffer c \<noteq> []"
    and c': "c' = c\<lparr>buffer := tl (buffer c), stack := stack c @ [hd (buffer c)], arcs := as\<rparr>"
    and as: "distinct (map snd as)" "\<forall>a \<in> set as. 0 \<le> snd a \<and> snd a \<le> int (consumed c)"
    and cov: "\<forall>k \<in> {0..<consumed c}. has_head (arcs c) (int k) \<longrightarrow> has_head as (int k)"
  shows "wf_config c'"
proof -
  obtain \<sigma> where st: "stack c = ROOT # \<sigma>" "sorted_wrt (<) \<sigma>"
      "\<forall>x \<in> set \<sigma>. 0 \<le> x \<and> x < int (consumed c)"
    using wf by (rule wf_stack_shape)
  have hb: "hd (buffer c) = int (consumed c)"
      "tl (buffer c) = map int [Suc (consumed c)..<length (sentence c)]"
    using wf_buffer_hd[OF wf b] by auto
  have cs: "consumed c' = Suc (consumed c)"
    using wf_consumed_Suc[OF wf b] c' by simp
  show ?thesis
    using wf st hb cs as cov c'
    by (auto simp: wf_config_def sorted_wrt_append less_Suc_eq)
qed

text \<open>LEFT and REDUCE pop a stack top that has, or receives, a head.\<close>

lemma wf_pop_step:
  assumes wf: "wf_config c" and nr: "last (stack c) \<noteq> ROOT"
    and c': "c' = c\<lparr>stack := butlast (stack c), arcs := as\<rparr>"
    and as: "distinct (map snd as)" "\<forall>a \<in> set as. 0 \<le> snd a \<and> snd a < int (consumed c)"
    and cov: "\<forall>k \<in> {0..<consumed c}. has_head (arcs c) (int k) \<longrightarrow> has_head as (int k)"
    and top: "has_head as (last (stack c))"
  shows "wf_config c'"
proof -
  obtain \<sigma> where st: "stack c = ROOT # \<sigma>" "sorted_wrt (<) \<sigma>"
      "\<forall>x \<in> set \<sigma>. 0 \<le> x \<and> x < int (consumed c)"
    using wf by (rule wf_stack_shape)
  with nr have ne: "\<sigma> \<noteq> []" by auto
  then have bl: "butlast (stack c) = ROOT # butlast \<sigma>" "last (stack c) = last \<sigma>"
    using st by auto
  have cs: "consumed c' = consumed c"
    using c' by (simp add: consumed_def)
  have "int k \<in> set (butlast \<sigma>) \<or> has_head as (int k)" if "k < consumed c" for k
  proof -
    from wf that st have "int k \<in> set \<sigma> \<or> has_head (arcs c) (int k)"
      by (auto simp: wf_config_def)
    then show ?thesis
      using set_butlast_last[OF ne] cov that top bl by auto
  qed
  then show ?thesis
    using wf st bl cs as c'
    by (auto simp: wf_config_def sorted_wrt_butlast dest: in_set_butlastD)
qed

lemma wf_step:
  assumes wf: "wf_config c" and legal: "t \<in> set (get_legal_transitions c)"
    and ok: "apply_transition c t = Ok c'"
  shows "wf_config c'"
proof (cases t)
  case LEFT
  with legal ok have l: "stack c \<noteq> []" "buffer c \<noteq> []" "last (stack c) \<noteq> ROOT"
      "\<not> has_head (arcs c) (last (stack c))"
    and c': "c' = c\<lparr>stack := butlast (stack c),
                arcs := arcs c @ [(hd (buffer c), last (stack c))]\<rparr>"
    by (auto simp: legal_iff left_arc_def Let_def)
  obtain \<sigma> where st: "stack c = ROOT # \<sigma>" "\<forall>x \<in> set \<sigma>. 0 \<le> x \<and> x < int (consumed c)"
    using wf by (rule wf_stack_shape)
  then have "0 \<le> last (stack c) \<and> last (stack c) < int (consumed c)"
    using l(3) by (cases \<sigma> rule: rev_cases) auto
  then show ?thesis
    using wf l c' by (intro wf_pop_step[OF wf l(3) c'])
      (auto simp: wf_config_def has_head_iff)
next
  case RIGHT
  with legal ok have l: "stack c \<noteq> []" "buffer c \<noteq> []"
    and c': "c' = c\<lparr>buffer := tl (buffer c), stack := stack c @ [hd (buffer c)],
                arcs := arcs c @ [(last (stack c), hd (buffer c))]\<rparr>"
    by (auto simp: legal_iff right_arc_def Let_def)
  have hb: "hd (buffer c) = int (consumed c)"
    using wf_buffer_hd[OF wf l(2)] by simp
  have "\<forall>a \<in> set (arcs c). 0 \<le> snd a \<and> snd a < int (consumed c)" "distinct (map snd (arcs c))"
    using wf by (auto simp: wf_config_def)
  then show ?thesis
    by (intro wf_push_step[OF wf l(2) c']) (auto simp: hb has_head_iff)
next
  case SHIFT
  with legal ok have l: "buffer c \<noteq> []"
    and c': "c' = c\<lparr>buffer := tl (buffer c), stack := stack c @ [hd (buffer c)], arcs := arcs c\<rparr>"
    by (auto simp: legal_iff shift_def Let_def)
  show ?thesis
    using wf by (intro wf_push_step[OF wf l c']) (auto simp: wf_config_def)
next
  case REDUCE
  with legal ok have l: "stack c \<noteq> []" "has_head (arcs c) (last (stack c))"
    and c': "c' = c\<lparr>stack := butlast (stack c), arcs := arcs c\<rparr>"
    by (auto simp: legal_iff reduce_def)
  have "last (stack c) \<noteq> ROOT"
    using l(2) wf_no_head_root[OF wf] by auto
  then show ?thesis
    using wf l by (intro wf_pop_step[OF wf _ c']) (auto simp: wf_config_def)
qed

lemma reachable_wf: "reachable s c \<Longrightarrow> wf_config c"
  by (induction rule: reachable.induct) (auto intro: wf_init wf_step)

lemma reachable_sentence: "reachable s c \<Longrightarrow> sentence c = s"
proof (induction rule: reachable.induct)
  case init
  then show ?case by (simp add: get_initial_config_def Configuration_def)
next
  case (step c t c')
  then show ?case using apply_transition_sizes(3) by metis
qed

lemma run_reachable: "reachable s c \<Longrightarrow> run c ts = Some c' \<Longrightarrow> reachable s c'"
proof (induction ts arbitrary: c)
  case Nil
  then show ?case by simp
next
  case (Cons t ts)
  then show ?case
    by (auto split: if_splits outcome.splits intro: reachable.step)
qed

lemma run_sizes:
  "run c ts = Some c' \<Longrightarrow>
     length (buffer c) = length (buffer c') + length (filter is_push ts) \<and>
     length (stack c) + length (filter is_push ts) =
       length (stack c') + length (filter (Not \<circ> is_push) ts)"
proof (induction ts arbitrary: c)
  case Nil
  then show ?case by simp
next
  case (Cons t ts)
  then obtain c1 where c1: "apply_transition c t = Ok c1" "run c1 ts = Some c'"
    by (auto split: if_splits outcome.splits)
  from Cons.IH[OF c1(2)] show ?case
    using apply_transition_sizes(1,2)[OF c1(1)] by (cases "is_push t") auto
qed

lemmas engine_eval = get_legal_transitions_def TRANSITIONS_def has_head_def Let_def
  get_initial_config_def Configuration_def left_arc_def right_arc_def shift_def reduce_def
  is_finished_def one_token_def spec_sentence_def tok_def

lemma reachable_one_token_RIGHT:
  "reachable one_token \<lparr>arcs = [(ROOT, 0)], stack = [ROOT, 0], buffer = [], sentence = one_token\<rparr>"
  by (rule reachable.step[OF reachable.init, of RIGHT]) (simp_all add: engine_eval)

lemma reachable_one_token_SHIFT:
  "reachable one_token \<lparr>arcs = [], stack = [ROOT, 0], buffer = [], sentence = one_token\<rparr>"
  by (rule reachable.step[OF reachable.init, of SHIFT]) (simp_all add: engine_eval)

lemma reachable_one_token_final:
  "reachable one_token \<lparr>arcs = [(ROOT, 0)], stack = [ROOT], buffer = [], sentence = one_token\<rparr>"
  by (rule reachable.step[OF reachable_one_token_RIGHT, of REDUCE]) (simp_all add: engine_eval)

lemma finished_wf:
  assumes "wf_config c" "is_finished c"
  shows "stack c = [ROOT] \<and> buffer c = [] \<and> consumed c = length (sentence c) \<and>
    (\<forall>k < length (sentence c). has_head (arcs c) (int k))"
proof -
  obtain \<sigma> where st: "stack c = ROOT # \<sigma>"
    using assms(1) by (rule wf_stack_shape)
  with assms have "\<sigma> = []" "buffer c = []"
    by (auto simp: is_finished_def)
  then show ?thesis
    using assms(1) st by (auto simp: wf_config_def consumed_def)
qed

section \<open>Properties of the transition engine\<close>

text \<open>
  C10: single-head invariant. In every configuration a driver reaches by legal
  transitions, no two arcs share a dependent.
\<close>

theorem reachable_single_head:
  "reachable s c \<Longrightarrow> distinct (map snd (arcs c))"
  using reachable_wf by (auto simp: wf_config_def)

theorem reachable_single_head_witness:
  "reachable one_token \<lparr>arcs = [(ROOT, 0)], stack = [ROOT], buffer = [], sentence = one_token\<rparr> \<and>
   distinct (map snd [(ROOT, 0::int)])"
  using reachable_single_head[OF reachable_one_token_final] reachable_one_token_final by simp

text \<open>
  C11: \<open>get_legal_transitions\<close> returns exactly the transitions whose precondition in the
  legality table of the specification holds, in the order of their codes.
\<close>

theorem get_legal_transitions_table:
  "get_legal_transitions c = filter (legal_spec c) TRANSITIONS"
  by (simp add: get_legal_transitions_def TRANSITIONS_def Let_def)

text \<open>
  C14: a finished reachable configuration holds \<open>ROOT\<close> alone on the stack, an empty
  buffer, and a complete head assignment: every token \<open>0..n-1\<close> is the dependent of
  exactly one arc, and nothing else is.
\<close>

theorem finished_complete:
  assumes "reachable s c" and "is_finished c"
  shows "stack c = [ROOT] \<and> buffer c = [] \<and> distinct (map snd (arcs c)) \<and>
         snd ` set (arcs c) = int ` {0..<length s}"
proof -
  have wf: "wf_config c" and sc: "sentence c = s"
    using assms(1) by (rule reachable_wf, rule reachable_sentence)
  have fin: "stack c = [ROOT] \<and> buffer c = [] \<and> consumed c = length s \<and>
      (\<forall>k < length s. has_head (arcs c) (int k))"
    using finished_wf[OF wf assms(2)] sc by simp
  have "snd ` set (arcs c) \<subseteq> int ` {0..<length s}"
  proof
    fix x assume "x \<in> snd ` set (arcs c)"
    with wf fin have "0 \<le> x" "x < int (length s)"
      by (auto simp: wf_config_def)
    then show "x \<in> int ` {0..<length s}"
      by (auto intro: image_eqI[of x int "nat x"])
  qed
  moreover have "int ` {0..<length s} \<subseteq> snd ` set (arcs c)"
    using fin by (auto simp: has_head_iff)
  ultimately show ?thesis
    using wf fin by (auto simp: wf_config_def)
qed

theorem finished_complete_witness:
  "reachable one_token \<lparr>arcs = [(ROOT, 0)], stack = [ROOT], buffer = [], sentence = one_token\<rparr> \<and>
   is_finished \<lparr>arcs = [(ROOT, 0)], stack = [ROOT], buffer = [], sentence = one_token\<rparr> \<and>
   snd ` set [(ROOT, 0::int)] = int ` {0..<length one_token}"
  using finished_complete[OF reachable_one_token_final] reachable_one_token_final
  by (simp add: is_finished_def one_token_def)

text \<open>
  C15: a run of legal transitions from the initial configuration that ends finished
  consumes every token by exactly one SHIFT or RIGHT, and has exactly \<open>2 n\<close>
  transitions for a sentence of \<open>n\<close> tokens.
\<close>

theorem finished_run_counts:
  assumes "run (get_initial_config s) ts = Some c" and "is_finished c"
  shows "length (filter is_push ts) = length s \<and> length ts = 2 * length s"
proof -
  have "length (buffer (get_initial_config s)) = length (buffer c) + length (filter is_push ts)"
    and st: "length (stack (get_initial_config s)) + length (filter is_push ts) =
       length (stack c) + length (filter (Not \<circ> is_push) ts)"
    using run_sizes[OF assms(1)] by auto
  moreover have "length ts = length (filter is_push ts) + length (filter (Not \<circ> is_push) ts)"
    using sum_length_filter_compl[of is_push ts] by (simp add: comp_def)
  ultimately show ?thesis
    using assms(2) by (simp add: get_initial_config_def Configuration_def is_finished_def)
qed

theorem finished_run_counts_witness:
  "run (get_initial_config one_token) [RIGHT, REDUCE] =
     Some \<lparr>arcs = [(ROOT, 0)], stack = [ROOT], buffer = [], sentence = one_token\<rparr> \<and>
   is_finished \<lparr>arcs = [(ROOT, 0)], stack = [ROOT], buffer = [], sentence = one_token\<rparr> \<and>
   length (filter is_push [RIGHT, REDUCE]) = length one_token \<and>
   length [RIGHT, REDUCE] = 2 * length one_token"
proof -
  have r: "run (get_initial_config one_token) [RIGHT, REDUCE] =
     Some \<lparr>arcs = [(ROOT, 0)], stack = [ROOT], buffer = [], sentence = one_token\<rparr>"
    by (simp add: engine_eval)
  have f: "is_finished \<lparr>arcs = [(ROOT, 0::int)], stack = [ROOT], buffer = [], sentence = one_token\<rparr>"
    by (simp add: is_finished_def)
  show ?thesis
    using finished_run_counts[OF r f] r f by simp
qed

text \<open>
  C17: termination of the driver. However the transitions are chosen, a run of legal
  transitions from a configuration has at most \<open>2 |buffer| + |stack|\<close> steps.
\<close>

theorem run_length_bound:
  "run c ts = Some c' \<Longrightarrow> length ts \<le> 2 * length (buffer c) + length (stack c)"
proof -
  assume "run c ts = Some c'"
  from run_sizes[OF this] have
    "length (buffer c) = length (buffer c') + length (filter is_push ts)"
    "length (stack c) + length (filter is_push ts) =
       length (stack c') + length (filter (Not \<circ> is_push) ts)"
    by auto
  moreover have "length ts = length (filter is_push ts) + length (filter (Not \<circ> is_push) ts)"
    using sum_length_filter_compl[of is_push ts] by (simp add: comp_def)
  ultimately show ?thesis by linarith
qed

theorem run_length_bound_witness:
  "run (get_initial_config spec_sentence) [SHIFT, LEFT, RIGHT, RIGHT, REDUCE, REDUCE] \<noteq> None \<and>
   length [SHIFT, LEFT, RIGHT, RIGHT, REDUCE, REDUCE] \<le>
     2 * length (buffer (get_initial_config spec_sentence)) + length (stack (get_initial_config spec_sentence))"
proof -
  obtain c' where r: "run (get_initial_config spec_sentence) [SHIFT, LEFT, RIGHT, RIGHT, REDUCE, REDUCE] = Some c'"
    by (simp add: engine_eval)
  show ?thesis
    using run_length_bound[OF r] r by simp
qed

text \<open>
  C24: once \<open>ArcEager()\<close> has registered its handlers, \<open>take_transition\<close> applied to
  the code of a legal transition returns normally (no \<open>IndexError\<close>, no
  \<open>AssertionError\<close>, no \<open>KeyError\<close>) with the effect of that transition.
\<close>

theorem legal_take_transition_Ok:
  assumes "t \<in> set (get_legal_transitions c)"
  shows "\<exists>c'. take_transition (ArcEager_init cls) c (trans_code t) = Ok c' \<and> apply_transition c t = Ok c'"
proof -
  obtain c' where "apply_transition c t = Ok c'"
    using legal_Ok[OF assms] by blast
  moreover have "take_transition (ArcEager_init cls) c (trans_code t) = apply_transition c t"
    by (cases t) (simp_all add: take_transition_def ArcEager_init_def TRANSITIONS_def map_of_update_iff)
  ultimately show ?thesis by simp
qed

theorem legal_take_transition_Ok_witness:
  "RIGHT \<in> set (get_legal_transitions (get_initial_config one_token)) \<and>
   take_transition (ArcEager_init ArcEager_class) (get_initial_config one_token) (trans_code RIGHT) =
     Ok \<lparr>arcs = [(ROOT, 0)], stack = [ROOT, 0], buffer = [], sentence = one_token\<rparr>"
proof -
  have l: "RIGHT \<in> set (get_legal_transitions (get_initial_config one_token))"
    by (simp add: engine_eval)
  show ?thesis
    using legal_take_transition_Ok[OF l, of ArcEager_class] l by (auto simp: engine_eval)
qed

text \<open>
  C25: \<open>take_transition\<close> does not check legality: REDUCE pops the stack top whether or
  not it has a head, where the specification requires an \<open>InvalidTransitionError\<close> for
  a transition outside the legal set.
\<close>

theorem take_transition_no_legality_check:
  assumes "stack c \<noteq> []"
  shows "take_transition (ArcEager_init cls) c (trans_code REDUCE) = Ok (c\<lparr>stack := butlast (stack c)\<rparr>)"
  using assms
  by (simp add: take_transition_def ArcEager_init_def TRANSITIONS_def map_of_update_iff reduce_def)

theorem take_transition_no_legality_check_witness:
  "REDUCE \<notin> set (get_legal_transitions \<lparr>arcs = [], stack = [ROOT, 0], buffer = [], sentence = one_token\<rparr>) \<and>
   take_transition (ArcEager_init ArcEager_class)
     \<lparr>arcs = [], stack = [ROOT, 0], buffer = [], sentence = one_token\<rparr> (trans_code REDUCE) =
     Ok \<lparr>arcs = [], stack = [ROOT], buffer = [], sentence = one_token\<rparr>"
  using take_transition_no_legality_check[of "\<lparr>arcs = [], stack = [ROOT, 0], buffer = [], sentence = one_token\<rparr>" ArcEager_class]
  by (simp add: engine_eval)

text \<open>
  C26: LEFT on an empty buffer raises \<open>IndexError\<close> after it has popped the stack: the
  configuration is left partly updated, where the specification says the engine does
  not attempt partial application.
\<close>

theorem left_arc_partial_update:
  assumes "stack c \<noteq> []" and "buffer c = []"
  shows "take_transition (ArcEager_init cls) c (trans_code LEFT) = Raise IndexError (c\<lparr>stack := butlast (stack c)\<rparr>)"
  using assms
  by (simp add: take_transition_def ArcEager_init_def TRANSITIONS_def map_of_update_iff left_arc_def)

theorem left_arc_partial_update_witness:
  "take_transition (ArcEager_init ArcEager_class)
     \<lparr>arcs = [], stack = [ROOT, 0], buffer = [], sentence = one_token\<rparr> (trans_code LEFT) =
     Raise IndexError \<lparr>arcs = [], stack = [ROOT], buffer = [], sentence = one_token\<rparr>"
  using left_arc_partial_update[of "\<lparr>arcs = [], stack = [ROOT, 0], buffer = [], sentence = one_token\<rparr>" ArcEager_class]
  by simp

text \<open>
  C27: the handler registry is a class attribute filled by the constructor: before any
  \<open>ArcEager()\<close> is built, \<open>take_transition\<close> raises \<open>KeyError\<close> for every
  transition code.
\<close>

theorem take_transition_unregistered:
  "take_transition ArcEager_class c (trans_code t) = Raise (KeyError (trans_code t)) c"
  by (cases t) (simp_all add: take_transition_def ArcEager_class_def TRANSITIONS_def)

text \<open>
  C30: a reachable configuration has no legal transition exactly when its buffer is
  empty and its stack top has no head. Such a configuration need not be finished: a
  driver that follows the legal transitions can be stuck before the parse completes.
\<close>

theorem reachable_stuck_iff:
  assumes "reachable s c"
  shows "get_legal_transitions c = [] \<longleftrightarrow> buffer c = [] \<and> \<not> has_head (arcs c) (last (stack c))"
proof -
  obtain \<sigma> where "stack c = ROOT # \<sigma>"
    using reachable_wf[OF assms] by (rule wf_stack_shape)
  then have "stack c \<noteq> []" by simp
  then show ?thesis
    by (simp add: get_legal_transitions_def TRANSITIONS_def Let_def)
qed

theorem reachable_stuck_iff_witness:
  "reachable one_token \<lparr>arcs = [], stack = [ROOT, 0], buffer = [], sentence = one_token\<rparr> \<and>
   \<not> is_finished \<lparr>arcs = [], stack = [ROOT, 0], buffer = [], sentence = one_token\<rparr> \<and>
   get_legal_transitions \<lparr>arcs = [], stack = [ROOT, 0], buffer = [], sentence = one_token\<rparr> = []"
  using reachable_stuck_iff[OF reachable_one_token_SHIFT] reachable_one_token_SHIFT
  by (simp add: engine_eval)

end
