(* ===== verification/Projectivity.thy ===== *)
theory Projectivity
  imports Transitions
begin

text \<open>
  \<open>ArcEager.is_not_projective\<close> (src/arc_eager.py): two nested loops over the keys of
  \<open>head_of\<close>, skipping every pair in which one head is \<open>ROOT\<close>, returning \<open>True\<close> at
  the first of four crossing patterns. Iterating \<open>head_of.keys()\<close> and reading
  \<open>head_of[d]\<close> is iterating the pairs of the association list (its keys are
  distinct). The abstract notion is \<open>spans_cross\<close>: the spans of two arcs interleave.
\<close>

section \<open>The code\<close>

text \<open>The body of the inner loop: the four tests of lines 85--95, in order.\<close>

definition crossing_pattern :: "idx \<Rightarrow> idx \<Rightarrow> idx \<Rightarrow> idx \<Rightarrow> bool" where
  "crossing_pattern d1 h1 d2 h2 =
     (if h1 < h2 \<and> h2 < d1 \<and> d1 < d2 then True
      else if d1 < h2 \<and> h2 < h1 \<and> h1 < d2 then True
      else if h1 < d2 \<and> d2 < d1 \<and> d1 < h2 then True
      else if d1 < d2 \<and> d2 < h1 \<and> h1 < h2 then True
      else False)"

fun proj_inner :: "idx \<Rightarrow> idx \<Rightarrow> (idx \<times> idx) list \<Rightarrow> bool" where
  "proj_inner d1 h1 [] = False"
| "proj_inner d1 h1 ((d2, h2) # ks) =
     (if h1 = ROOT \<or> h2 = ROOT then proj_inner d1 h1 ks
      else if crossing_pattern d1 h1 d2 h2 then True
      else proj_inner d1 h1 ks)"

fun proj_outer :: "(idx \<times> idx) list \<Rightarrow> (idx \<times> idx) list \<Rightarrow> bool" where
  "proj_outer [] ho = False"
| "proj_outer ((d1, h1) # ks) ho = (if proj_inner d1 h1 ho then True else proj_outer ks ho)"

definition is_not_projective :: "gold_config \<Rightarrow> bool" where
  "is_not_projective g = proj_outer (head_of g) (head_of g)"

section \<open>The specification\<close>

text \<open>Two arcs cross when their spans interleave strictly.\<close>

definition spans_cross :: "arc \<Rightarrow> arc \<Rightarrow> bool" where
  "spans_cross a1 a2 =
     (let l1 = min (fst a1) (snd a1); r1 = max (fst a1) (snd a1);
          l2 = min (fst a2) (snd a2); r2 = max (fst a2) (snd a2)
      in (l1 < l2 \<and> l2 < r1 \<and> r1 < r2) \<or> (l2 < l1 \<and> l1 < r2 \<and> r2 < r1))"

text \<open>
  Crossing arcs among the arcs of \<open>head_of\<close> whose head is not \<open>ROOT\<close> (what the code
  tests), and among all arcs with \<open>ROOT\<close> at position \<open>-1\<close> (projectivity proper).
\<close>

definition crossing_non_root :: "gold_config \<Rightarrow> bool" where
  "crossing_non_root g \<longleftrightarrow>
     (\<exists>(d1, h1) \<in> set (head_of g). \<exists>(d2, h2) \<in> set (head_of g).
        h1 \<noteq> ROOT \<and> h2 \<noteq> ROOT \<and> spans_cross (h1, d1) (h2, d2))"

definition crossing_any :: "gold_config \<Rightarrow> bool" where
  "crossing_any g \<longleftrightarrow>
     (\<exists>(d1, h1) \<in> set (head_of g). \<exists>(d2, h2) \<in> set (head_of g). spans_cross (h1, d1) (h2, d2))"

section \<open>Lemmas\<close>

lemma crossing_pattern_iff:
  "crossing_pattern d1 h1 d2 h2 \<longleftrightarrow>
     (h1 < h2 \<and> h2 < d1 \<and> d1 < d2) \<or> (d1 < h2 \<and> h2 < h1 \<and> h1 < d2) \<or>
     (h1 < d2 \<and> d2 < d1 \<and> d1 < h2) \<or> (d1 < d2 \<and> d2 < h1 \<and> h1 < h2)"
  by (simp add: crossing_pattern_def)

lemma spans_cross_patterns:
  "spans_cross (h1, d1) (h2, d2) \<longleftrightarrow>
     crossing_pattern d1 h1 d2 h2 \<or> crossing_pattern d2 h2 d1 h1"
  by (auto simp: spans_cross_def crossing_pattern_iff min_def max_def Let_def)

lemma proj_inner_iff:
  "proj_inner d1 h1 ks \<longleftrightarrow>
     (\<exists>(d2, h2) \<in> set ks. h1 \<noteq> ROOT \<and> h2 \<noteq> ROOT \<and> crossing_pattern d1 h1 d2 h2)"
  by (induction ks) (auto split: if_splits)

lemma proj_outer_iff:
  "proj_outer ks ho \<longleftrightarrow> (\<exists>(d1, h1) \<in> set ks. proj_inner d1 h1 ho)"
  by (induction ks) (auto split: if_splits)

lemma is_not_projective_iff_patterns:
  "is_not_projective g \<longleftrightarrow>
     (\<exists>(d1, h1) \<in> set (head_of g). \<exists>(d2, h2) \<in> set (head_of g).
        h1 \<noteq> ROOT \<and> h2 \<noteq> ROOT \<and> crossing_pattern d1 h1 d2 h2)"
  by (simp add: is_not_projective_def proj_outer_iff proj_inner_iff)

section \<open>Properties\<close>

text \<open>
  C18: \<open>is_not_projective\<close> holds exactly when two arcs of the gold tree whose heads
  are not \<open>ROOT\<close> have strictly interleaving spans: the four patterns, tried for both
  orders of each pair, are all the ways two spans can cross.
\<close>

theorem is_not_projective_iff_crossing:
  "is_not_projective g \<longleftrightarrow> crossing_non_root g"
  unfolding is_not_projective_iff_patterns crossing_non_root_def spans_cross_patterns
  by blast

lemmas gold_eval = get_gold_config_def GoldConfiguration_def gold_add_def tok_def deps_get_def

end
