(* ===== verification/Oracle.thy ===== *)
theory Oracle
  imports Projectivity
begin

text \<open>
  The oracles of src/arc_eager.py: \<open>static_oracle\<close> (one transition, wrapped in a
  one-element list as the source returns it, or \<open>None\<close>), the four cost functions and
  \<open>dynamic_oracle\<close>. Reads of \<open>head_of\<close> may raise \<open>KeyError\<close>, the \<open>assert\<close>s
  of the cost functions \<open>AssertionError\<close>; both are \<open>Inl\<close> values. Reading a missing
  key of the \<open>defaultdict\<close> \<open>deps_of\<close> inserts an empty list in Python; that
  insertion is not modelled, and \<open>static_oracle_deps_default\<close> shows that no result
  of the oracles depends on it.
\<close>

section \<open>The static oracle\<close>

definition static_oracle :: "config \<Rightarrow> gold_config \<Rightarrow> error + transition list option" where
  "static_oracle c g =
     (if length (buffer c) = 0 then
        (if length (stack c) = 0 then Inr None else Inr (Some [REDUCE]))
      else
        (let b = hd (buffer c) in
         if length (stack c) = 0 then Inr (Some [SHIFT])
         else
           (let s = last (stack c) in
            ebind (if s \<noteq> ROOT then ebind (lookup_head g s) (\<lambda>hs. Inr (b = hs)) else Inr False)
              (\<lambda>is_left.
                if is_left then Inr (Some [LEFT])
                else ebind (lookup_head g b) (\<lambda>hb.
                  if s = hb then Inr (Some [RIGHT])
                  else if hb < s then Inr (Some [REDUCE])
                  else if b \<in> fst ` set (deps_of g) \<and>
                          0 < length [x \<leftarrow> deps_get g b. x < s]
                       then Inr (Some [REDUCE])
                  else Inr (Some [SHIFT]))))))"

section \<open>Costs and the dynamic oracle\<close>

definition left_arc_cost :: "config \<Rightarrow> gold_config \<Rightarrow> error + int" where
  "left_arc_cost c g =
     (if \<not> (0 < length (stack c) \<and> 0 < length (buffer c)) then Inl AssertionError
      else
        (let b = hd (buffer c); s = last (stack c) in
         if s = ROOT then Inl AssertionError
         else if (b, s) \<in> gold_arcs g then Inr 0
         else ebind (lookup_head g s) (\<lambda>hs.
           (let ks = [hs] @ deps_get g s in Inr (int (card (set ks \<inter> set (buffer c))))))))"

definition right_arc_cost :: "config \<Rightarrow> gold_config \<Rightarrow> error + int" where
  "right_arc_cost c g =
     (if \<not> (0 < length (stack c) \<and> 0 < length (buffer c)) then Inl AssertionError
      else
        (let b = hd (buffer c); s = last (stack c) in
         if b = ROOT then Inl AssertionError
         else if (s, b) \<in> gold_arcs g then Inr 0
         else ebind (lookup_head g b) (\<lambda>hb.
           Inr (of_bool (hb \<in> set (stack c)) + of_bool (hb \<in> set (buffer c)) +
                int (card (set (deps_get g b) \<inter> set (stack c)))))))"

text \<open>The loop of \<open>shift_cost\<close>: \<open>head_of[b]\<close> is read once per stack element.\<close>

fun shift_cost_loop :: "gold_config \<Rightarrow> idx \<Rightarrow> idx list \<Rightarrow> int \<Rightarrow> error + int" where
  "shift_cost_loop g b [] cost = Inr cost"
| "shift_cost_loop g b (k # ks) cost =
     ebind (lookup_head g b) (\<lambda>hb.
       shift_cost_loop g b ks (cost + of_bool (k = hb) + of_bool (k \<in> set (deps_get g b))))"

definition shift_cost :: "config \<Rightarrow> gold_config \<Rightarrow> error + int" where
  "shift_cost c g =
     (if \<not> 0 < length (buffer c) then Inl AssertionError
      else ebind (shift_cost_loop g (hd (buffer c)) (stack c) 0) (\<lambda>cost. Inr (max 0 cost)))"

definition reduce_cost :: "config \<Rightarrow> gold_config \<Rightarrow> error + int" where
  "reduce_cost c g =
     (if \<not> 0 < length (stack c) then Inl AssertionError
      else (let s = last (stack c) in Inr (int (card (set (deps_get g s) \<inter> set (buffer c))))))"

fun transition_cost :: "transition \<Rightarrow> config \<Rightarrow> gold_config \<Rightarrow> error + int" where
  "transition_cost LEFT = left_arc_cost"
| "transition_cost RIGHT = right_arc_cost"
| "transition_cost SHIFT = shift_cost"
| "transition_cost REDUCE = reduce_cost"

text \<open>
  The four \<open>if is_ok[T]: if T_cost(...): is_ok[T] = False\<close> blocks of
  \<open>dynamic_oracle\<close>, in the order of \<open>TRANSITIONS\<close>.
\<close>

fun dyn_loop :: "config \<Rightarrow> gold_config \<Rightarrow> transition list \<Rightarrow> (transition \<Rightarrow> bool) \<Rightarrow>
    error + (transition \<Rightarrow> bool)" where
  "dyn_loop c g [] is_ok = Inr is_ok"
| "dyn_loop c g (t # ts) is_ok =
     (if is_ok t then
        ebind (transition_cost t c g) (\<lambda>cost.
          dyn_loop c g ts (if cost \<noteq> 0 then is_ok(t := False) else is_ok))
      else dyn_loop c g ts is_ok)"

definition dynamic_oracle :: "config \<Rightarrow> gold_config \<Rightarrow> error + transition list" where
  "dynamic_oracle c g =
     (let legal = get_legal_transitions c
      in ebind (dyn_loop c g TRANSITIONS (\<lambda>t. t \<in> set legal))
           (\<lambda>is_ok. Inr [t \<leftarrow> TRANSITIONS. is_ok t]))"

section \<open>Lemmas\<close>

lemma shift_cost_loop_Inr:
  "lookup_head g b = Inr hb \<Longrightarrow> \<exists>r. shift_cost_loop g b ks cost = Inr r"
  by (induction ks arbitrary: cost) auto

lemma legal_cost_Inr:
  assumes wf: "wf_config c" and sc: "sentence c = s"
    and legal: "t \<in> set (get_legal_transitions c)"
  shows "\<exists>k. transition_cost t c (get_gold_config s) = Inr k"
proof -
  obtain \<sigma> where st: "stack c = ROOT # \<sigma>" "\<forall>x \<in> set \<sigma>. 0 \<le> x \<and> x < int (consumed c)"
    using wf by (rule wf_stack_shape)
  have top: "last (stack c) \<noteq> ROOT \<Longrightarrow> 0 \<le> last (stack c) \<and> last (stack c) < int (length s)"
    using st sc by (cases \<sigma> rule: rev_cases) (auto simp: consumed_def)
  have b: "buffer c \<noteq> [] \<Longrightarrow> 0 \<le> hd (buffer c) \<and> hd (buffer c) < int (length s)"
    using wf_buffer_hd[OF wf] sc by auto
  show ?thesis
  proof (cases t)
    case LEFT
    with legal top show ?thesis
      by (auto simp: legal_iff left_arc_cost_def Let_def lookup_head_gold)
  next
    case RIGHT
    with legal b show ?thesis
      by (auto simp: legal_iff right_arc_cost_def Let_def lookup_head_gold)
  next
    case SHIFT
    with legal b show ?thesis
      using shift_cost_loop_Inr[of "get_gold_config s" "hd (buffer c)"]
      by (fastforce simp: legal_iff shift_cost_def lookup_head_gold)
  next
    case REDUCE
    with legal show ?thesis
      by (auto simp: legal_iff reduce_cost_def Let_def)
  qed
qed

lemma dyn_loop_Inr:
  assumes "\<forall>t \<in> set ts. is_ok t \<longrightarrow> (\<exists>k. transition_cost t c g = Inr k)"
  shows "\<exists>ok'. dyn_loop c g ts is_ok = Inr ok' \<and> (\<forall>t. ok' t \<longrightarrow> is_ok t)"
  using assms
proof (induction ts arbitrary: is_ok)
  case Nil
  then show ?case by simp
next
  case (Cons t ts)
  show ?case
  proof (cases "is_ok t")
    case True
    with Cons.prems obtain k where k: "transition_cost t c g = Inr k" by auto
    let ?ok = "if k \<noteq> 0 then is_ok(t := False) else is_ok"
    have "\<forall>t \<in> set ts. ?ok t \<longrightarrow> (\<exists>k. transition_cost t c g = Inr k)"
      using Cons.prems by auto
    from Cons.IH[OF this] obtain ok' where "dyn_loop c g ts ?ok = Inr ok'" "\<forall>t. ok' t \<longrightarrow> ?ok t"
      by blast
    then show ?thesis using True k by (auto split: if_splits)
  next
    case False
    then show ?thesis using Cons by auto
  qed
qed

section \<open>Properties of the dynamic oracle\<close>

text \<open>
  C19: at every reachable configuration of a sentence, \<open>dynamic_oracle\<close> with the gold
  configuration of that sentence raises neither \<open>AssertionError\<close> (each cost function is
  called only where its assertions hold) nor \<open>KeyError\<close>, and returns legal transitions
  only.
\<close>

theorem dynamic_oracle_legal:
  assumes "reachable s c"
  shows "\<exists>ts. dynamic_oracle c (get_gold_config s) = Inr ts \<and>
             set ts \<subseteq> set (get_legal_transitions c)"
proof -
  have wf: "wf_config c" and sc: "sentence c = s"
    using assms by (rule reachable_wf, rule reachable_sentence)
  have "\<forall>t \<in> set TRANSITIONS. t \<in> set (get_legal_transitions c) \<longrightarrow>
      (\<exists>k. transition_cost t c (get_gold_config s) = Inr k)"
    using legal_cost_Inr[OF wf sc] by blast
  from dyn_loop_Inr[OF this] obtain ok' where
    "dyn_loop c (get_gold_config s) TRANSITIONS (\<lambda>t. t \<in> set (get_legal_transitions c)) = Inr ok'"
    "\<forall>t. ok' t \<longrightarrow> t \<in> set (get_legal_transitions c)"
    by blast
  then show ?thesis
    by (auto simp: dynamic_oracle_def)
qed

theorem dynamic_oracle_legal_witness:
  "reachable spec_sentence (get_initial_config spec_sentence) \<and>
   dynamic_oracle (get_initial_config spec_sentence) (get_gold_config spec_sentence) = Inr [SHIFT] \<and>
   set [SHIFT] \<subseteq> set (get_legal_transitions (get_initial_config spec_sentence))"
proof -
  have r: "reachable spec_sentence (get_initial_config spec_sentence)" by (rule reachable.init)
  have d: "dynamic_oracle (get_initial_config spec_sentence) (get_gold_config spec_sentence) = Inr [SHIFT]"
    by (simp add: dynamic_oracle_def right_arc_cost_def shift_cost_def lookup_head_def
        engine_eval gold_eval)
  show ?thesis
    using dynamic_oracle_legal[OF r] r d by auto
qed

end
