(* ===== verification/Gold_Tree.thy ===== *)
theory Gold_Tree
  imports Projectivity
begin

text \<open>
  Gold trees of src/arc_eager.py's \<open>GoldConfiguration\<close>: when the gold heads of a
  sentence form a tree rooted at \<open>ROOT\<close> (\<open>well_formed_tree\<close>, executable by a bounded
  walk to \<open>ROOT\<close>), following heads never cycles, and when its arcs do not cross
  (\<open>\<not> crossing_any\<close>) every token strictly inside the span of a gold arc descends from
  that arc's head (\<open>between_descends\<close>). These are the facts about the gold reference
  that the correctness of both oracles rests on.
\<close>

section \<open>Definitions\<close>

text \<open>
  \<open>parent s z x\<close>: \<open>x\<close> is the gold head of the token \<open>z\<close>. \<open>rooted s i\<close>: following
  gold heads from \<open>i\<close> reaches \<open>ROOT\<close>; \<open>reaches_root\<close> is its executable form with
  a step bound, and \<open>well_formed_tree\<close> requires it of every token within \<open>n\<close> steps.
\<close>

definition parent :: "token list \<Rightarrow> idx \<Rightarrow> idx \<Rightarrow> bool" where
  "parent s z x \<longleftrightarrow> 0 \<le> z \<and> z < int (length s) \<and> x = gold_head s z"

inductive rooted :: "token list \<Rightarrow> idx \<Rightarrow> bool" for s where
  root: "rooted s ROOT"
| up: "0 \<le> i \<Longrightarrow> i < int (length s) \<Longrightarrow> rooted s (gold_head s i) \<Longrightarrow> rooted s i"

fun reaches_root :: "token list \<Rightarrow> nat \<Rightarrow> idx \<Rightarrow> bool" where
  "reaches_root s 0 i \<longleftrightarrow> i = ROOT"
| "reaches_root s (Suc f) i \<longleftrightarrow>
     i = ROOT \<or> (0 \<le> i \<and> i < int (length s) \<and> reaches_root s f (gold_head s i))"

definition well_formed_tree :: "token list \<Rightarrow> bool" where
  "well_formed_tree s \<longleftrightarrow> (\<forall>i \<in> {0..<length s}. reaches_root s (length s) (int i))"

section \<open>Acyclicity\<close>

lemma reaches_root_rooted: "reaches_root s f i \<Longrightarrow> rooted s i"
  by (induction f arbitrary: i) (auto intro: rooted.intros)

lemma wft_rooted:
  "well_formed_tree s \<Longrightarrow> 0 \<le> i \<Longrightarrow> i < int (length s) \<Longrightarrow> rooted s i"
  unfolding well_formed_tree_def
  by (metis atLeastLessThan_iff nat_0_le nat_less_iff reaches_root_rooted zero_le)

lemma rooted_head_range:
  assumes "rooted s i" "0 \<le> i"
  shows "gold_head s i = ROOT \<or> (0 \<le> gold_head s i \<and> gold_head s i < int (length s))"
  using assms
proof cases
  case up
  from up(3) show ?thesis by (cases rule: rooted.cases) auto
qed simp

lemma rooted_ge: "rooted s i \<Longrightarrow> ROOT \<le> i"
  by (induction rule: rooted.induct) auto

lemma rooted_acyclic: "rooted s i \<Longrightarrow> \<not> (parent s)\<^sup>+\<^sup>+ i i"
proof (induction rule: rooted.induct)
  case root
  show ?case
    by (auto simp: parent_def dest: tranclpD)
next
  case (up i)
  show ?case
  proof
    assume "(parent s)\<^sup>+\<^sup>+ i i"
    then obtain y where "parent s i y" "(parent s)\<^sup>*\<^sup>* y i"
      by (auto dest: tranclpD)
    then have "(parent s)\<^sup>+\<^sup>+ (gold_head s i) (gold_head s i)"
      by (auto simp: parent_def intro: rtranclp_into_tranclp1)
    with up.IH show False by blast
  qed
qed

lemma gold_no_cross:
  assumes "\<not> crossing_any (get_gold_config s)"
    and "0 \<le> d1" "d1 < int (length s)" "0 \<le> d2" "d2 < int (length s)"
  shows "\<not> spans_cross (gold_head s d1, d1) (gold_head s d2, d2)"
  using assms by (auto simp: crossing_any_def head_of_gold_set)

text \<open>Projectivity: every token strictly inside the span of a gold arc descends from its head.\<close>

lemma between_descends:
  assumes nc: "\<not> crossing_any (get_gold_config s)"
    and y: "0 \<le> y" "y < int (length s)" and x: "x = gold_head s y" "rooted s y"
    and z: "rooted s z" "min x y < z" "z < max x y"
  shows "(parent s)\<^sup>*\<^sup>* z x"
  using z
proof (induction rule: rooted.induct)
  case root
  have "ROOT \<le> x" using x rooted_head_range[OF x(2) y(1)] by auto
  with root y show ?case by auto
next
  case (up z)
  let ?w = "gold_head s z"
  have pz: "parent s z ?w" using up.hyps by (simp add: parent_def)
  have xr: "ROOT \<le> x" using x rooted_head_range[OF x(2) y(1)] by auto
  have wr: "ROOT \<le> ?w" using rooted_ge[OF up.hyps(3)] .
  consider "?w = x" | "?w = y" | "min x y < ?w \<and> ?w < max x y" | "?w < min x y \<or> max x y < ?w"
    by linarith
  then show ?case
  proof cases
    case 1
    then show ?thesis using pz by auto
  next
    case 2
    then have "parent s ?w x" using y x by (simp add: parent_def)
    with pz show ?thesis by auto
  next
    case 3
    with up.IH have "(parent s)\<^sup>*\<^sup>* ?w x" by blast
    with pz show ?thesis by (auto intro: converse_rtranclp_into_rtranclp)
  next
    case 4
    then have "spans_cross (?w, z) (x, y)"
      using up.prems by (auto simp: spans_cross_def min_def max_def Let_def)
    moreover have "\<not> spans_cross (gold_head s z, z) (gold_head s y, y)"
      using gold_no_cross[OF nc up.hyps(1,2) y] .
    ultimately show ?thesis using x by simp
  qed
qed

lemma gold_mem:
  "(x, y) \<in> gold_arcs (get_gold_config s) \<longleftrightarrow> 0 \<le> y \<and> y < int (length s) \<and> x = gold_head s y"
  by (auto simp: gold_arcs_gold)

lemma gold_no_self:
  assumes "well_formed_tree s" "(x, y) \<in> gold_arcs (get_gold_config s)"
  shows "x \<noteq> y"
proof
  assume "x = y"
  with assms(2) have "parent s y y" "0 \<le> y" "y < int (length s)"
    by (auto simp: gold_mem parent_def)
  then show False
    using rooted_acyclic[OF wft_rooted[OF assms(1)]] by blast
qed

lemma gold_no_2cycle:
  assumes "well_formed_tree s" "0 \<le> a" "a < int (length s)" "0 \<le> b" "b < int (length s)"
    and "gold_head s a = b" "gold_head s b = a"
  shows False
proof -
  have "parent s a b" "parent s b a"
    using assms by (auto simp: parent_def)
  then have "(parent s)\<^sup>+\<^sup>+ a a"
    by (meson tranclp.r_into_trancl tranclp.trancl_into_trancl)
  then show False
    using rooted_acyclic[OF wft_rooted[OF assms(1,2,3)]] by blast
qed

lemma descends_cycle:
  assumes "well_formed_tree s" "0 \<le> a" "a < int (length s)" "parent s a b" "(parent s)\<^sup>*\<^sup>* b a"
  shows False
  using rooted_acyclic[OF wft_rooted[OF assms(1,2,3)]] assms(4,5)
  by (meson rtranclp_into_tranclp2)

lemma cross_contra:
  assumes "\<not> crossing_any (get_gold_config s)"
    and "0 \<le> d1" "d1 < int (length s)" "0 \<le> d2" "d2 < int (length s)"
    and "spans_cross (gold_head s d1, d1) (gold_head s d2, d2)"
  shows False
  using gold_no_cross[OF assms(1-5)] assms(6) by simp

section \<open>Crossing spans\<close>

lemma spans_cross_intro:
  "l1 < l2 \<Longrightarrow> l2 < r1 \<Longrightarrow> r1 < r2 \<Longrightarrow> {h1, d1} = {l1, r1} \<Longrightarrow> {h2, d2} = {l2, r2} \<Longrightarrow>
   spans_cross (h1, d1) (h2, d2)"
  by (auto simp: spans_cross_def Let_def min_def max_def doubleton_eq_iff)

end
