(* ===== verification/Static_Oracle.thy ===== *)
theory Static_Oracle
  imports Oracle Gold_Tree
begin

text \<open>
  Correctness of \<open>ArcEager.static_oracle\<close> (src/arc_eager.py): for a sentence whose
  gold heads form a tree rooted at \<open>ROOT\<close> (\<open>well_formed_tree\<close>) and whose arcs,
  \<open>ROOT\<close> arcs included with \<open>ROOT\<close> at position \<open>-1\<close>, do not cross
  (\<open>\<not> crossing_any\<close>), the driver that applies the oracle's transition until the
  configuration is finished (\<open>oracle_parse\<close>) stops with exactly the gold arcs. The
  tree notions are those of Gold_Tree.
  \<open>oracle_choice\<close> is the decision rule of the specification (section 4.2);
  \<open>static_oracle_choice\<close> shows the code computes it. The invariant \<open>oracle_inv\<close>
  says every arc built is gold, a stacked dependent's head lies below it, and every gold
  arc not yet built still joins two tokens of stack or buffer, not both on the stack.
\<close>

section \<open>The decision rule, the invariant and the driver\<close>

text \<open>The decision rule of spec section 4.2, on a configuration with a non-empty stack.\<close>

definition oracle_choice :: "token list \<Rightarrow> config \<Rightarrow> transition" where
  "oracle_choice s c =
     (if buffer c = [] then REDUCE
      else
        (let b = hd (buffer c); st = last (stack c) in
         if st \<noteq> ROOT \<and> b = gold_head s st then LEFT
         else if st = gold_head s b then RIGHT
         else if gold_head s b < st then REDUCE
         else if (\<exists>x \<in> {0..<int (length s)}. gold_head s x = b \<and> x < st) then REDUCE
         else SHIFT))"

text \<open>The invariant of oracle-driven configurations.\<close>

definition oracle_inv :: "token list \<Rightarrow> config \<Rightarrow> bool" where
  "oracle_inv s c \<longleftrightarrow>
     reachable s c \<and>
     set (arcs c) \<subseteq> gold_arcs (get_gold_config s) \<and>
     (\<forall>(x, y) \<in> set (arcs c). y \<in> set (tl (stack c)) \<longrightarrow> x < y) \<and>
     (\<forall>(x, y) \<in> gold_arcs (get_gold_config s). (x, y) \<notin> set (arcs c) \<longrightarrow>
        x \<in> set (stack c) \<union> set (buffer c) \<and> y \<in> set (stack c) \<union> set (buffer c) \<and>
        \<not> (x \<in> set (stack c) \<and> y \<in> set (stack c)))"

text \<open>
  The driver of spec sections 2 and 8: while the configuration is not finished, apply the
  transition named by \<open>static_oracle\<close> (it must be legal). It terminates because every
  transition that returns decreases \<open>2 |buffer| + |stack|\<close>.
\<close>

function oracle_parse :: "gold_config \<Rightarrow> config \<Rightarrow> config option" where
  "oracle_parse g c =
     (if is_finished c then Some c
      else
        (case static_oracle c g of
           Inr (Some [t]) \<Rightarrow>
             (if t \<in> set (get_legal_transitions c)
              then (case apply_transition c t of Ok c' \<Rightarrow> oracle_parse g c' | Raise e c' \<Rightarrow> None)
              else None)
         | _ \<Rightarrow> None))"
  by pat_completeness auto
termination
  by (relation "measure (\<lambda>(g, c). 2 * length (buffer c) + length (stack c))")
    (auto dest: apply_transition_measure)

text \<open>
  A sentence whose only crossing involves a \<open>ROOT\<close> arc: token 1 hangs from \<open>ROOT\<close>,
  token 0 from token 2, token 2 from token 1.
\<close>

definition root_cross_sentence :: "token list" where
  "root_cross_sentence = [tok 2, tok ROOT, tok 1]"

section \<open>The decision rule and the shape of configurations\<close>

lemma wf_mem_buffer:
  "wf_config c \<Longrightarrow> x \<in> set (buffer c) \<longleftrightarrow> int (consumed c) \<le> x \<and> x < int (length (sentence c))"
  by (auto simp: wf_config_def image_int_atLeastLessThan)

lemma wf_mem_stack:
  "wf_config c \<Longrightarrow> x \<in> set (stack c) \<Longrightarrow> x = ROOT \<or> (0 \<le> x \<and> x < int (consumed c))"
  by (cases "stack c") (auto simp: wf_config_def)

lemma wf_consumed_le: "wf_config c \<Longrightarrow> consumed c \<le> length (sentence c)"
  by (auto simp: consumed_def)

lemma wf_top:
  assumes "wf_config c"
  shows "(stack c = [ROOT] \<and> last (stack c) = ROOT) \<or>
    (last (stack c) \<in> set (tl (stack c)) \<and> 0 \<le> last (stack c) \<and> last (stack c) < int (consumed c) \<and>
     (\<forall>x \<in> set (stack c). x \<le> last (stack c)) \<and>
     set (butlast (stack c)) = set (stack c) - {last (stack c)} \<and>
     set (tl (butlast (stack c))) = set (tl (stack c)) - {last (stack c)})"
proof -
  obtain \<sigma> where st: "stack c = ROOT # \<sigma>" "sorted_wrt (<) \<sigma>"
      "\<forall>x \<in> set \<sigma>. 0 \<le> x \<and> x < int (consumed c)"
    using assms by (rule wf_stack_shape)
  show ?thesis
  proof (cases \<sigma> rule: rev_cases)
    case Nil
    then show ?thesis using st by simp
  next
    case (snoc \<tau> l)
    with st have "\<forall>x \<in> set \<tau>. x < l" "l \<notin> set \<tau>" "0 \<le> l"
      by (auto simp: sorted_wrt_append)
    then show ?thesis
      using st snoc by (auto simp: butlast_append)
  qed
qed

lemma static_oracle_choice:
  assumes wf: "wf_config c" and sc: "sentence c = s"
  shows "static_oracle c (get_gold_config s) = Inr (Some [oracle_choice s c])"
proof (cases "buffer c = []")
  case True
  with wf show ?thesis
    by (auto simp: static_oracle_def oracle_choice_def wf_config_def)
next
  case False
  let ?b = "hd (buffer c)" and ?st = "last (stack c)"
  have b: "0 \<le> ?b" "?b < int (length s)"
    using wf_buffer_hd[OF wf False] sc by auto
  have st: "?st = ROOT \<or> (0 \<le> ?st \<and> ?st < int (length s))"
    using wf_top[OF wf] wf_consumed_le[OF wf] sc by auto
  have ne: "stack c \<noteq> []" using wf by (simp add: wf_config_def)
  define D where "D \<longleftrightarrow> (\<exists>x \<in> {0..<int (length s)}. gold_head s x = ?b \<and> x < ?st)"
  have deps: "(?b \<in> fst ` set (deps_of (get_gold_config s)) \<and>
        0 < length [x \<leftarrow> deps_get (get_gold_config s) ?b. x < ?st]) \<longleftrightarrow> D"
    unfolding D_def
  proof
    assume "?b \<in> fst ` set (deps_of (get_gold_config s)) \<and>
        0 < length [x \<leftarrow> deps_get (get_gold_config s) ?b. x < ?st]"
    then obtain x where "x \<in> set (deps_get (get_gold_config s) ?b)" "x < ?st"
      by (auto simp: filter_empty_conv)
    then show "\<exists>x \<in> {0..<int (length s)}. gold_head s x = ?b \<and> x < ?st"
      by (auto simp: deps_get_gold_set)
  next
    assume "\<exists>x \<in> {0..<int (length s)}. gold_head s x = ?b \<and> x < ?st"
    then obtain x where x: "x \<in> set (deps_get (get_gold_config s) ?b)" "x < ?st"
      by (auto simp: deps_get_gold_set)
    then have "deps_get (get_gold_config s) ?b \<noteq> []" by auto
    with x show "?b \<in> fst ` set (deps_of (get_gold_config s)) \<and>
        0 < length [x \<leftarrow> deps_get (get_gold_config s) ?b. x < ?st]"
      by (auto simp: deps_get_key filter_empty_conv)
  qed
  let ?g = "get_gold_config s"
  have left: "(if ?st \<noteq> ROOT then ebind (lookup_head ?g ?st) (\<lambda>hs. Inr (?b = hs)) else Inr False) =
      Inr (?st \<noteq> ROOT \<and> ?b = gold_head s ?st)"
    using st by (auto simp: lookup_head_gold)
  have hb: "lookup_head ?g ?b = Inr (gold_head s ?b)"
    using b by (simp add: lookup_head_gold)
  show ?thesis
    using False ne
    by (simp only: static_oracle_def left hb deps length_0_conv Let_def if_False ebind.simps
        oracle_choice_def if_True D_def[symmetric]) simp
qed

section \<open>Preservation of the invariant, one lemma per rule\<close>

lemma oracle_inv_pop:
  assumes inv: "oracle_inv s c" and nr: "last (stack c) \<noteq> ROOT"
    and reach: "reachable s c'"
    and c': "c' = c\<lparr>stack := butlast (stack c), arcs := arcs c @ new\<rparr>"
    and new: "set new \<subseteq> gold_arcs (get_gold_config s)" "\<forall>(x, y) \<in> set new. y = last (stack c)"
    and no_top: "\<forall>(x, y) \<in> gold_arcs (get_gold_config s). (x, y) \<notin> set (arcs c') \<longrightarrow>
        x \<noteq> last (stack c) \<and> y \<noteq> last (stack c)"
  shows "oracle_inv s c'"
proof -
  have wf: "wf_config c" using inv reachable_wf by (auto simp: oracle_inv_def)
  have top: "set (butlast (stack c)) = set (stack c) - {last (stack c)}"
      "set (tl (butlast (stack c))) = set (tl (stack c)) - {last (stack c)}"
    using wf_top[OF wf] nr by auto
  have I1: "set (arcs c') \<subseteq> gold_arcs (get_gold_config s)"
    using inv new(1) by (auto simp: oracle_inv_def c')
  have I2: "\<forall>(x, y) \<in> set (arcs c'). y \<in> set (tl (stack c')) \<longrightarrow> x < y"
  proof (clarify)
    fix x y assume xy: "(x, y) \<in> set (arcs c')" "y \<in> set (tl (stack c'))"
    then have "y \<in> set (tl (stack c))" "y \<noteq> last (stack c)"
      using top(2) by (auto simp: c')
    moreover have "(x, y) \<in> set (arcs c)"
      using xy new(2) calculation(2) by (auto simp: c')
    ultimately show "x < y"
      using inv by (auto simp: oracle_inv_def)
  qed
  have I3: "\<forall>(x, y) \<in> gold_arcs (get_gold_config s). (x, y) \<notin> set (arcs c') \<longrightarrow>
        x \<in> set (stack c') \<union> set (buffer c') \<and> y \<in> set (stack c') \<union> set (buffer c') \<and>
        \<not> (x \<in> set (stack c') \<and> y \<in> set (stack c'))"
  proof (clarify)
    fix x y assume g: "(x, y) \<in> gold_arcs (get_gold_config s)" and nb: "(x, y) \<notin> set (arcs c')"
    then have "x \<in> set (stack c) \<union> set (buffer c)" "y \<in> set (stack c) \<union> set (buffer c)"
        "\<not> (x \<in> set (stack c) \<and> y \<in> set (stack c))"
      using inv by (auto simp: oracle_inv_def c')
    moreover have "x \<noteq> last (stack c)" "y \<noteq> last (stack c)"
      using no_top g nb by auto
    ultimately show "x \<in> set (stack c') \<union> set (buffer c') \<and> y \<in> set (stack c') \<union> set (buffer c') \<and>
        \<not> (x \<in> set (stack c') \<and> y \<in> set (stack c'))"
      using top(1) by (auto simp: c')
  qed
  show ?thesis
    using reach I1 I2 I3 by (simp add: oracle_inv_def)
qed

lemma oracle_inv_push:
  assumes inv: "oracle_inv s c" and wft: "well_formed_tree s" and bne: "buffer c \<noteq> []"
    and reach: "reachable s c'"
    and c': "c' = c\<lparr>buffer := tl (buffer c), stack := stack c @ [hd (buffer c)], arcs := arcs c @ new\<rparr>"
    and new: "set new \<subseteq> gold_arcs (get_gold_config s)"
      "\<forall>(x, y) \<in> set new. x < y \<and> y = hd (buffer c)"
    and cond: "\<forall>(x, y) \<in> gold_arcs (get_gold_config s). (x, y) \<notin> set (arcs c') \<longrightarrow>
        \<not> (x = hd (buffer c) \<and> y \<in> set (stack c)) \<and> \<not> (y = hd (buffer c) \<and> x \<in> set (stack c))"
  shows "oracle_inv s c'"
proof -
  have wf: "wf_config c" using inv reachable_wf by (auto simp: oracle_inv_def)
  let ?b = "hd (buffer c)"
  have bset: "set (buffer c) = insert ?b (set (tl (buffer c)))" "?b \<notin> set (tl (buffer c))"
    using bne wf_buffer_hd[OF wf bne] by (cases "buffer c"; auto)+
  have bst: "?b \<notin> set (stack c)"
    using wf_buffer_hd[OF wf bne] wf_mem_stack[OF wf] by fastforce
  have bnh: "\<forall>(x, y) \<in> set (arcs c). y \<noteq> ?b"
    using wf wf_buffer_hd[OF wf bne] by (fastforce simp: wf_config_def)
  have tl_st: "set (tl (stack c @ [?b])) = insert ?b (set (tl (stack c)))"
    using wf by (cases "stack c") (auto simp: wf_config_def)
  have I2: "\<forall>(x, y) \<in> set (arcs c'). y \<in> set (tl (stack c')) \<longrightarrow> x < y"
    using inv new bnh tl_st by (fastforce simp: c' oracle_inv_def)
  have I3: "\<forall>(x, y) \<in> gold_arcs (get_gold_config s). (x, y) \<notin> set (arcs c') \<longrightarrow>
        x \<in> set (stack c') \<union> set (buffer c') \<and> y \<in> set (stack c') \<union> set (buffer c') \<and>
        \<not> (x \<in> set (stack c') \<and> y \<in> set (stack c'))"
  proof (intro ballI impI, clarify)
    fix x y assume g: "(x, y) \<in> gold_arcs (get_gold_config s)" and nb: "(x, y) \<notin> set (arcs c')"
    then have old: "x \<in> set (stack c) \<union> set (buffer c)" "y \<in> set (stack c) \<union> set (buffer c)"
        "\<not> (x \<in> set (stack c) \<and> y \<in> set (stack c))"
      using inv by (auto simp: oracle_inv_def c')
    have "x \<noteq> y" using gold_no_self[OF wft g] .
    then show "x \<in> set (stack c') \<union> set (buffer c') \<and> y \<in> set (stack c') \<union> set (buffer c') \<and>
        \<not> (x \<in> set (stack c') \<and> y \<in> set (stack c'))"
      using old cond g nb bset by (auto simp: c')
  qed
  show ?thesis
    using inv reach new I2 I3 unfolding oracle_inv_def by (auto simp: c')
qed

lemma inv_wf: "oracle_inv s c \<Longrightarrow> wf_config c \<and> sentence c = s"
  by (auto simp: oracle_inv_def intro: reachable_wf reachable_sentence)

lemma inv_head_built:
  assumes "oracle_inv s c" "has_head (arcs c) y" "(x, y) \<in> gold_arcs (get_gold_config s)"
  shows "(x, y) \<in> set (arcs c)"
proof -
  obtain x' where "(x', y) \<in> set (arcs c)"
    using assms(2) by (auto simp: has_head_iff)
  moreover then have "(x', y) \<in> gold_arcs (get_gold_config s)"
    using assms(1) by (auto simp: oracle_inv_def)
  ultimately show ?thesis
    using assms(3) by (auto simp: gold_mem)
qed

lemma inv_unbuilt:
  assumes "oracle_inv s c" "(x, y) \<in> gold_arcs (get_gold_config s)" "(x, y) \<notin> set (arcs c)"
  shows "x \<in> set (stack c) \<union> set (buffer c) \<and> y \<in> set (stack c) \<union> set (buffer c) \<and>
         \<not> (x \<in> set (stack c) \<and> y \<in> set (stack c))"
  using assms by (auto simp: oracle_inv_def)

lemma buffer_ge_hd: "wf_config c \<Longrightarrow> y \<in> set (buffer c) \<Longrightarrow> hd (buffer c) \<le> y"
  by (cases "buffer c = []") (auto simp: wf_mem_buffer dest: wf_buffer_hd)

lemma oracle_step_left:
  assumes inv: "oracle_inv s c" and wft: "well_formed_tree s"
    and nc: "\<not> crossing_any (get_gold_config s)"
    and bne: "buffer c \<noteq> []" and nr: "last (stack c) \<noteq> ROOT"
    and hb: "hd (buffer c) = gold_head s (last (stack c))"
  shows "LEFT \<in> set (get_legal_transitions c) \<and>
         (\<forall>c'. apply_transition c LEFT = Ok c' \<longrightarrow> oracle_inv s c')"
proof -
  let ?b = "hd (buffer c)" and ?st = "last (stack c)" and ?G = "gold_arcs (get_gold_config s)"
  have wf: "wf_config c" and sc: "sentence c = s" using inv_wf[OF inv] by auto
  have st: "?st \<in> set (tl (stack c))" "0 \<le> ?st" "?st < int (consumed c)"
    using wf_top[OF wf] nr by auto
  have b: "?b = int (consumed c)" "consumed c < length s"
    using wf_buffer_hd[OF wf bne] sc by auto
  have stn: "?st < int (length s)" using st b by simp
  have nh: "\<not> has_head (arcs c) ?st"
  proof
    assume "has_head (arcs c) ?st"
    then obtain x where x: "(x, ?st) \<in> set (arcs c)" by (auto simp: has_head_iff)
    with inv st have "x < ?st" by (auto simp: oracle_inv_def)
    moreover from x inv have "x = gold_head s ?st" by (auto simp: oracle_inv_def gold_mem)
    ultimately show False using hb b st by simp
  qed
  have legal: "LEFT \<in> set (get_legal_transitions c)"
    using wf bne nr nh by (simp add: legal_iff wf_config_def)
  have "oracle_inv s c'" if ok: "apply_transition c LEFT = Ok c'" for c'
  proof -
    have c': "c' = c\<lparr>stack := butlast (stack c), arcs := arcs c @ [(?b, ?st)]\<rparr>"
      using ok by (auto simp: left_arc_def Let_def split: if_splits)
    have reach: "reachable s c'"
      using inv legal ok by (auto simp: oracle_inv_def intro: reachable.step)
    have new: "(?b, ?st) \<in> ?G" using hb st stn by (simp add: gold_mem)
    have no_top: "\<forall>(x, y) \<in> ?G. (x, y) \<notin> set (arcs c') \<longrightarrow> x \<noteq> ?st \<and> y \<noteq> ?st"
    proof (clarify)
      fix x y assume g: "(x, y) \<in> ?G" and nb: "(x, y) \<notin> set (arcs c')"
      show "x \<noteq> ?st \<and> y \<noteq> ?st"
      proof (intro conjI notI)
        assume "y = ?st"
        with g hb have "(x, y) = (?b, ?st)" by (simp add: gold_mem)
        with nb show False by (simp add: c')
      next
        assume xs: "x = ?st"
        from g nb have "(x, y) \<notin> set (arcs c)" by (simp add: c')
        moreover have "?st \<in> set (stack c)" using wf by (simp add: wf_config_def)
        ultimately have "y \<in> set (buffer c)"
          using inv_unbuilt[OF inv g] xs by blast
        then have yb: "?b \<le> y" "y < int (length s)"
          using buffer_ge_hd[OF wf] wf_mem_buffer[OF wf] sc by auto
        have hy: "gold_head s y = ?st" "0 \<le> y" using g xs by (auto simp: gold_mem)
        show False
        proof (cases "y = ?b")
          case True
          then show False
            using gold_no_2cycle[OF wft st(2) stn] hy hb yb by auto
        next
          case False
          with yb have "min ?st y < ?b" "?b < max ?st y"
            using b st by auto
          have "rooted s ?b" using wft b by (intro wft_rooted) auto
          then have "(parent s)\<^sup>*\<^sup>* ?b ?st"
            using between_descends[OF nc hy(2) yb(2) hy(1)[symmetric] wft_rooted[OF wft hy(2) yb(2)]]
              \<open>min ?st y < ?b\<close> \<open>?b < max ?st y\<close> by blast
          moreover have "parent s ?st ?b" using st stn hb by (simp add: parent_def)
          ultimately show False
            using descends_cycle[OF wft st(2) stn] by blast
        qed
      qed
    qed
    show ?thesis
      using oracle_inv_pop[OF inv nr reach c'] new no_top by simp
  qed
  with legal show ?thesis by blast
qed

lemma oracle_step_right:
  assumes inv: "oracle_inv s c" and wft: "well_formed_tree s"
    and nc: "\<not> crossing_any (get_gold_config s)"
    and bne: "buffer c \<noteq> []" and hs: "last (stack c) = gold_head s (hd (buffer c))"
  shows "RIGHT \<in> set (get_legal_transitions c) \<and>
         (\<forall>c'. apply_transition c RIGHT = Ok c' \<longrightarrow> oracle_inv s c')"
proof -
  let ?b = "hd (buffer c)" and ?st = "last (stack c)" and ?G = "gold_arcs (get_gold_config s)"
  have wf: "wf_config c" and sc: "sentence c = s" using inv_wf[OF inv] by auto
  have b: "?b = int (consumed c)" "consumed c < length s"
    using wf_buffer_hd[OF wf bne] sc by auto
  have st: "?st = ROOT \<or> (0 \<le> ?st \<and> ?st < int (consumed c))"
    using wf_top[OF wf] by auto
  have nh: "\<not> has_head (arcs c) ?b"
    using wf b by (fastforce simp: has_head_iff wf_config_def)
  have legal: "RIGHT \<in> set (get_legal_transitions c)"
    using wf bne nh b by (simp add: legal_iff wf_config_def)
  have "oracle_inv s c'" if ok: "apply_transition c RIGHT = Ok c'" for c'
  proof -
    have c': "c' = c\<lparr>buffer := tl (buffer c), stack := stack c @ [?b],
        arcs := arcs c @ [(?st, ?b)]\<rparr>"
      using ok by (auto simp: right_arc_def Let_def split: if_splits)
    have reach: "reachable s c'"
      using inv legal ok by (auto simp: oracle_inv_def intro: reachable.step)
    have new: "(?st, ?b) \<in> ?G" "?st < ?b" using hs b st by (auto simp: gold_mem)
    have cond: "\<forall>(x, y) \<in> ?G. (x, y) \<notin> set (arcs c') \<longrightarrow>
        \<not> (x = ?b \<and> y \<in> set (stack c)) \<and> \<not> (y = ?b \<and> x \<in> set (stack c))"
    proof (clarify)
      fix x y assume g: "(x, y) \<in> ?G" and nb: "(x, y) \<notin> set (arcs c')"
      show "\<not> (x = ?b \<and> y \<in> set (stack c)) \<and> \<not> (y = ?b \<and> x \<in> set (stack c))"
      proof (intro conjI notI; clarify)
        assume xb: "x = ?b" and ys: "y \<in> set (stack c)"
        have hy: "gold_head s y = ?b" "0 \<le> y" "y < int (length s)" using g xb by (auto simp: gold_mem)
        have yst: "y \<le> ?st" "0 \<le> y" "y < int (consumed c)"
          using wf_top[OF wf] ys hy wf_mem_stack[OF wf ys] by auto
        show False
        proof (cases "y = ?st")
          case True
          then show False
            using gold_no_2cycle[OF wft hy(2,3), of ?b] hy hs b by auto
        next
          case False
          with yst have "min ?b y < ?st" "?st < max ?b y" "0 \<le> ?st"
            using st b by auto
          moreover have "rooted s ?st"
            using wft \<open>0 \<le> ?st\<close> st b by (intro wft_rooted) auto
          ultimately have "(parent s)\<^sup>*\<^sup>* ?st ?b"
            using between_descends[OF nc hy(2,3) hy(1)[symmetric] wft_rooted[OF wft hy(2,3)]]
            by blast
          moreover have "parent s ?b ?st" using b hs by (simp add: parent_def)
          ultimately show False
            using descends_cycle[OF wft, of ?b ?st] b by simp
        qed
      next
        assume "y = ?b" "x \<in> set (stack c)"
        with g hs have "(x, y) = (?st, ?b)" by (simp add: gold_mem)
        with nb show False by (simp add: c')
      qed
    qed
    show ?thesis
      using oracle_inv_push[OF inv wft bne reach, of "[(?st, ?b)]"] c' new cond by simp
  qed
  with legal show ?thesis by blast
qed

lemma inv_top_range:
  assumes "oracle_inv s c" "last (stack c) \<noteq> ROOT"
  shows "last (stack c) \<in> set (stack c) \<and> 0 \<le> last (stack c) \<and> last (stack c) < int (length s)"
proof -
  have wf: "wf_config c" and sc: "sentence c = s" using inv_wf[OF assms(1)] by auto
  then show ?thesis
    using wf_top[OF wf] assms(2) wf_consumed_le[OF wf] by (auto simp: wf_config_def)
qed

lemma inv_top_head_buffer:
  assumes inv: "oracle_inv s c" and nr: "last (stack c) \<noteq> ROOT"
    and nh: "\<not> has_head (arcs c) (last (stack c))"
  shows "gold_head s (last (stack c)) \<in> set (buffer c)"
proof -
  let ?st = "last (stack c)"
  have r: "?st \<in> set (stack c)" "0 \<le> ?st" "?st < int (length s)"
    using inv_top_range[OF inv nr] by auto
  then have g: "(gold_head s ?st, ?st) \<in> gold_arcs (get_gold_config s)"
    by (simp add: gold_mem)
  have "(gold_head s ?st, ?st) \<notin> set (arcs c)"
    using nh by (force simp: has_head_iff)
  with inv_unbuilt[OF inv g] r show ?thesis by blast
qed

lemma inv_top_dep_buffer:
  assumes inv: "oracle_inv s c" and g: "(last (stack c), y) \<in> gold_arcs (get_gold_config s)"
    and nb: "(last (stack c), y) \<notin> set (arcs c)"
  shows "y \<in> set (buffer c)"
proof -
  have "last (stack c) \<in> set (stack c)"
    using inv_wf[OF inv] by (simp add: wf_config_def)
  with inv_unbuilt[OF inv g nb] show ?thesis by blast
qed

lemma oracle_step_reduce_gen:
  assumes inv: "oracle_inv s c" and nr: "last (stack c) \<noteq> ROOT"
    and hh: "has_head (arcs c) (last (stack c))"
    and dep: "\<And>y. (last (stack c), y) \<in> gold_arcs (get_gold_config s) \<Longrightarrow>
        (last (stack c), y) \<notin> set (arcs c) \<Longrightarrow> False"
  shows "REDUCE \<in> set (get_legal_transitions c) \<and>
         (\<forall>c'. apply_transition c REDUCE = Ok c' \<longrightarrow> oracle_inv s c')"
proof -
  let ?st = "last (stack c)"
  have wf: "wf_config c" using inv_wf[OF inv] by auto
  have legal: "REDUCE \<in> set (get_legal_transitions c)"
    using wf hh by (simp add: legal_iff wf_config_def)
  have "oracle_inv s c'" if ok: "apply_transition c REDUCE = Ok c'" for c'
  proof -
    have c': "c' = c\<lparr>stack := butlast (stack c), arcs := arcs c @ []\<rparr>"
      using ok by (auto simp: reduce_def split: if_splits)
    have reach: "reachable s c'"
      using inv legal ok by (auto simp: oracle_inv_def intro: reachable.step)
    have "\<forall>(x, y) \<in> gold_arcs (get_gold_config s). (x, y) \<notin> set (arcs c') \<longrightarrow>
        x \<noteq> ?st \<and> y \<noteq> ?st"
      using inv_head_built[OF inv hh] dep by (fastforce simp: c')
    then show ?thesis
      using oracle_inv_pop[OF inv nr reach c'] by simp
  qed
  with legal show ?thesis by blast
qed

lemma reduce_head_buffer_dep:
  assumes inv: "oracle_inv s c" and nc: "\<not> crossing_any (get_gold_config s)"
    and bne: "buffer c \<noteq> []"
    and lt: "gold_head s (hd (buffer c)) < last (stack c)"
    and nrt: "last (stack c) \<noteq> gold_head s (hd (buffer c))"
    and g: "(last (stack c), y) \<in> gold_arcs (get_gold_config s)" and yb: "y \<in> set (buffer c)"
  shows False
proof -
  let ?b = "hd (buffer c)" and ?st = "last (stack c)"
  have wf: "wf_config c" and sc: "sentence c = s" using inv_wf[OF inv] by auto
  have b: "0 \<le> ?b" "?b < int (length s)" "?b = int (consumed c)"
    using wf_buffer_hd[OF wf bne] sc by auto
  have st: "?st < ?b" using wf_top[OF wf] b lt by auto
  have y: "?b \<le> y" "y < int (length s)" "0 \<le> y" "gold_head s y = ?st"
    using yb buffer_ge_hd[OF wf] wf_mem_buffer[OF wf] sc g by (auto simp: gold_mem)
  with nrt have "?b < y" by (cases "y = ?b") auto
  then have "spans_cross (gold_head s ?b, ?b) (gold_head s y, y)"
    using lt st y by (intro spans_cross_intro[of "gold_head s ?b" ?st ?b y]) auto
  then show False using cross_contra[OF nc b(1,2) y(3,2)] by blast
qed

lemma oracle_step_reduce_head:
  assumes inv: "oracle_inv s c" and wft: "well_formed_tree s"
    and nc: "\<not> crossing_any (get_gold_config s)" and bne: "buffer c \<noteq> []"
    and lt: "gold_head s (hd (buffer c)) < last (stack c)"
    and nl: "\<not> (last (stack c) \<noteq> ROOT \<and> hd (buffer c) = gold_head s (last (stack c)))"
    and nrt: "last (stack c) \<noteq> gold_head s (hd (buffer c))"
  shows "REDUCE \<in> set (get_legal_transitions c) \<and>
         (\<forall>c'. apply_transition c REDUCE = Ok c' \<longrightarrow> oracle_inv s c')"
proof -
  let ?b = "hd (buffer c)" and ?st = "last (stack c)"
  have wf: "wf_config c" and sc: "sentence c = s" using inv_wf[OF inv] by auto
  have b: "0 \<le> ?b" "?b < int (length s)" "?b = int (consumed c)"
    using wf_buffer_hd[OF wf bne] sc by auto
  have "ROOT \<le> gold_head s ?b"
    using rooted_head_range[OF wft_rooted[OF wft b(1,2)] b(1)] by auto
  then have nr: "?st \<noteq> ROOT" using lt by auto
  have st: "0 \<le> ?st" "?st < int (length s)" "?st < ?b"
    using inv_top_range[OF inv nr] wf_top[OF wf] nr b by auto
  have hh: "has_head (arcs c) ?st"
  proof (rule ccontr)
    assume "\<not> has_head (arcs c) ?st"
    then have "gold_head s ?st \<in> set (buffer c)" by (rule inv_top_head_buffer[OF inv nr])
    then have "?b < gold_head s ?st" "gold_head s ?st < int (length s)"
      using buffer_ge_hd[OF wf] wf_mem_buffer[OF wf] nl nr sc by fastforce+
    then have "spans_cross (gold_head s ?b, ?b) (gold_head s ?st, ?st)"
      using lt st by (intro spans_cross_intro[of "gold_head s ?b" ?st ?b "gold_head s ?st"]) auto
    then show False using cross_contra[OF nc b(1,2) st(1,2)] by blast
  qed
  show ?thesis
    using oracle_step_reduce_gen[OF inv nr hh] inv_top_dep_buffer[OF inv]
      reduce_head_buffer_dep[OF inv nc bne lt nrt] by blast
qed

lemma reduce_dep_buffer_dep:
  assumes inv: "oracle_inv s c" and nc: "\<not> crossing_any (get_gold_config s)"
    and bne: "buffer c \<noteq> []"
    and x: "0 \<le> x" "x < int (length s)" "gold_head s x = hd (buffer c)" "x < last (stack c)"
    and nrt: "last (stack c) \<noteq> gold_head s (hd (buffer c))"
    and g: "(last (stack c), y) \<in> gold_arcs (get_gold_config s)" and yb: "y \<in> set (buffer c)"
  shows False
proof -
  let ?b = "hd (buffer c)" and ?st = "last (stack c)"
  have wf: "wf_config c" and sc: "sentence c = s" using inv_wf[OF inv] by auto
  have b: "0 \<le> ?b" "?b < int (length s)" "?b = int (consumed c)"
    using wf_buffer_hd[OF wf bne] sc by auto
  have nr: "?st \<noteq> ROOT" using x by auto
  have st: "?st < ?b" using wf_top[OF wf] nr b by auto
  have y: "?b \<le> y" "y < int (length s)" "0 \<le> y" "gold_head s y = ?st"
    using yb buffer_ge_hd[OF wf] wf_mem_buffer[OF wf] sc g by (auto simp: gold_mem)
  with nrt have "?b < y" by (cases "y = ?b") auto
  then have "spans_cross (gold_head s x, x) (gold_head s y, y)"
    using x st y by (intro spans_cross_intro[of x ?st ?b y]) auto
  then show False using cross_contra[OF nc x(1,2) y(3,2)] by blast
qed

lemma oracle_step_reduce_dep:
  assumes inv: "oracle_inv s c" and wft: "well_formed_tree s"
    and nc: "\<not> crossing_any (get_gold_config s)" and bne: "buffer c \<noteq> []"
    and x: "0 \<le> x" "x < int (length s)" "gold_head s x = hd (buffer c)" "x < last (stack c)"
    and nl: "\<not> (last (stack c) \<noteq> ROOT \<and> hd (buffer c) = gold_head s (last (stack c)))"
    and nrt: "last (stack c) \<noteq> gold_head s (hd (buffer c))"
  shows "REDUCE \<in> set (get_legal_transitions c) \<and>
         (\<forall>c'. apply_transition c REDUCE = Ok c' \<longrightarrow> oracle_inv s c')"
proof -
  let ?b = "hd (buffer c)" and ?st = "last (stack c)"
  have wf: "wf_config c" and sc: "sentence c = s" using inv_wf[OF inv] by auto
  have b: "0 \<le> ?b" "?b < int (length s)" "?b = int (consumed c)"
    using wf_buffer_hd[OF wf bne] sc by auto
  have nr: "?st \<noteq> ROOT" using x by auto
  have st: "0 \<le> ?st" "?st < int (length s)" "?st < ?b"
    using inv_top_range[OF inv nr] wf_top[OF wf] nr b by auto
  have hh: "has_head (arcs c) ?st"
  proof (rule ccontr)
    assume "\<not> has_head (arcs c) ?st"
    then have "gold_head s ?st \<in> set (buffer c)" by (rule inv_top_head_buffer[OF inv nr])
    then have "?b < gold_head s ?st" "gold_head s ?st < int (length s)"
      using buffer_ge_hd[OF wf] wf_mem_buffer[OF wf] nl nr sc by fastforce+
    then have "spans_cross (gold_head s x, x) (gold_head s ?st, ?st)"
      using x st by (intro spans_cross_intro[of x ?st ?b "gold_head s ?st"]) auto
    then show False using cross_contra[OF nc x(1,2) st(1,2)] by blast
  qed
  show ?thesis
    using oracle_step_reduce_gen[OF inv nr hh] inv_top_dep_buffer[OF inv]
      reduce_dep_buffer_dep[OF inv nc bne x nrt] by blast
qed

lemma oracle_step_empty:
  assumes inv: "oracle_inv s c" and be: "buffer c = []" and nf: "\<not> is_finished c"
  shows "REDUCE \<in> set (get_legal_transitions c) \<and>
         (\<forall>c'. apply_transition c REDUCE = Ok c' \<longrightarrow> oracle_inv s c')"
proof -
  let ?st = "last (stack c)"
  have wf: "wf_config c" using inv_wf[OF inv] by auto
  have nr: "?st \<noteq> ROOT"
    using wf_top[OF wf] be nf by (auto simp: is_finished_def)
  have hh: "has_head (arcs c) ?st"
    using inv_top_head_buffer[OF inv nr] be by auto
  show ?thesis
    using oracle_step_reduce_gen[OF inv nr hh] inv_top_dep_buffer[OF inv] be by auto
qed

lemma wf_stack_le_top: "wf_config c \<Longrightarrow> x \<in> set (stack c) \<Longrightarrow> x \<le> last (stack c)"
  using wf_top[of c] by auto

lemma oracle_step_shift_gen:
  assumes inv: "oracle_inv s c" and wft: "well_formed_tree s" and bne: "buffer c \<noteq> []"
    and cond: "\<forall>(x, y) \<in> gold_arcs (get_gold_config s).
        \<not> (x = hd (buffer c) \<and> y \<in> set (stack c)) \<and> \<not> (y = hd (buffer c) \<and> x \<in> set (stack c))"
  shows "SHIFT \<in> set (get_legal_transitions c) \<and>
         (\<forall>c'. apply_transition c SHIFT = Ok c' \<longrightarrow> oracle_inv s c')"
proof -
  have legal: "SHIFT \<in> set (get_legal_transitions c)"
    using bne by (simp add: legal_iff)
  have "oracle_inv s c'" if ok: "apply_transition c SHIFT = Ok c'" for c'
  proof -
    have c': "c' = c\<lparr>buffer := tl (buffer c), stack := stack c @ [hd (buffer c)], arcs := arcs c @ []\<rparr>"
      using ok by (auto simp: shift_def split: if_splits)
    have reach: "reachable s c'"
      using inv legal ok by (auto simp: oracle_inv_def intro: reachable.step)
    show ?thesis
      using oracle_inv_push[OF inv wft bne reach c'] cond by auto
  qed
  with legal show ?thesis by blast
qed

lemma oracle_step_shift:
  assumes inv: "oracle_inv s c" and wft: "well_formed_tree s" and bne: "buffer c \<noteq> []"
    and nl: "\<not> (last (stack c) \<noteq> ROOT \<and> hd (buffer c) = gold_head s (last (stack c)))"
    and nrt: "last (stack c) \<noteq> gold_head s (hd (buffer c))"
    and nlt: "\<not> gold_head s (hd (buffer c)) < last (stack c)"
    and ndep: "\<not> (\<exists>x \<in> {0..<int (length s)}. gold_head s x = hd (buffer c) \<and> x < last (stack c))"
  shows "SHIFT \<in> set (get_legal_transitions c) \<and>
         (\<forall>c'. apply_transition c SHIFT = Ok c' \<longrightarrow> oracle_inv s c')"
proof (rule oracle_step_shift_gen[OF inv wft bne], clarify)
  let ?b = "hd (buffer c)" and ?st = "last (stack c)"
  have wf: "wf_config c" using inv_wf[OF inv] by auto
  fix x y assume g: "(x, y) \<in> gold_arcs (get_gold_config s)"
  show "\<not> (x = ?b \<and> y \<in> set (stack c)) \<and> \<not> (y = ?b \<and> x \<in> set (stack c))"
  proof (intro conjI notI; clarify)
    assume xb: "x = ?b" and ys: "y \<in> set (stack c)"
    have "0 \<le> y" "y < int (length s)" "gold_head s y = ?b" using g xb by (auto simp: gold_mem)
    moreover have "y \<le> ?st" using wf_stack_le_top[OF wf ys] .
    ultimately show False using nl ndep by force
  next
    assume yb: "y = ?b" and xs: "x \<in> set (stack c)"
    have "x = gold_head s ?b" using g yb by (auto simp: gold_mem)
    moreover have "x \<le> ?st" using wf_stack_le_top[OF wf xs] .
    ultimately show False using nrt nlt by force
  qed
qed

lemma oracle_step:
  assumes inv: "oracle_inv s c" and wft: "well_formed_tree s"
    and nc: "\<not> crossing_any (get_gold_config s)" and nf: "\<not> is_finished c"
  shows "oracle_choice s c \<in> set (get_legal_transitions c) \<and>
         (\<forall>c'. apply_transition c (oracle_choice s c) = Ok c' \<longrightarrow> oracle_inv s c')"
proof (cases "buffer c = []")
  case True
  then show ?thesis
    using oracle_step_empty[OF inv True nf] by (auto simp: oracle_choice_def Let_def)
next
  case bne: False
  let ?b = "hd (buffer c)" and ?st = "last (stack c)"
  consider (L) "?st \<noteq> ROOT \<and> ?b = gold_head s ?st"
    | (R) "\<not> (?st \<noteq> ROOT \<and> ?b = gold_head s ?st)" "?st = gold_head s ?b"
    | (H) "\<not> (?st \<noteq> ROOT \<and> ?b = gold_head s ?st)" "?st \<noteq> gold_head s ?b" "gold_head s ?b < ?st"
    | (D) "\<not> (?st \<noteq> ROOT \<and> ?b = gold_head s ?st)" "?st \<noteq> gold_head s ?b"
          "\<not> gold_head s ?b < ?st"
          "\<exists>x \<in> {0..<int (length s)}. gold_head s x = ?b \<and> x < ?st"
    | (S) "\<not> (?st \<noteq> ROOT \<and> ?b = gold_head s ?st)" "?st \<noteq> gold_head s ?b"
          "\<not> gold_head s ?b < ?st"
          "\<not> (\<exists>x \<in> {0..<int (length s)}. gold_head s x = ?b \<and> x < ?st)"
    by blast
  then show ?thesis
  proof cases
    case L
    then show ?thesis
      using oracle_step_left[OF inv wft nc bne] bne by (auto simp: oracle_choice_def Let_def)
  next
    case R
    then show ?thesis
      using oracle_step_right[OF inv wft nc bne] bne by (auto simp: oracle_choice_def Let_def)
  next
    case H
    then show ?thesis
      using oracle_step_reduce_head[OF inv wft nc bne] bne by (auto simp: oracle_choice_def Let_def)
  next
    case D
    then obtain x where "x \<in> {0..<int (length s)}" "gold_head s x = ?b" "x < ?st" by blast
    then show ?thesis
      using oracle_step_reduce_dep[OF inv wft nc bne, of x] D bne by (auto simp: oracle_choice_def Let_def)
  next
    case S
    then show ?thesis
      using oracle_step_shift[OF inv wft bne] bne by (auto simp: oracle_choice_def Let_def)
  qed
qed

lemma oracle_inv_init:
  assumes wft: "well_formed_tree s"
  shows "oracle_inv s (get_initial_config s)"
proof -
  have r: "reachable s (get_initial_config s)" by (rule reachable.init)
  have c0: "get_initial_config s =
      \<lparr>arcs = [], stack = [ROOT], buffer = map int [0..<length s], sentence = s\<rparr>"
    by (simp add: get_initial_config_def Configuration_def)
  have h: "gold_head s y = ROOT \<or> (0 \<le> gold_head s y \<and> gold_head s y < int (length s))"
    if "0 \<le> y" "y < int (length s)" for y
    using rooted_head_range[OF wft_rooted[OF wft that] that(1)] .
  show ?thesis
    unfolding oracle_inv_def
    using r by (auto simp: c0 gold_mem image_int_atLeastLessThan dest: h)
qed

lemma oracle_parse_inv:
  "oracle_inv s c \<Longrightarrow> well_formed_tree s \<Longrightarrow> \<not> crossing_any (get_gold_config s) \<Longrightarrow>
   g = get_gold_config s \<Longrightarrow>
   \<exists>c'. oracle_parse g c = Some c' \<and> is_finished c' \<and> oracle_inv s c'"
proof (induction g c rule: oracle_parse.induct)
  case (1 g c)
  show ?case
  proof (cases "is_finished c")
    case True
    with "1.prems" show ?thesis by simp
  next
    case False
    let ?t = "oracle_choice s c"
    have so: "static_oracle c g = Inr (Some [?t])"
      using static_oracle_choice inv_wf[OF "1.prems"(1)] "1.prems"(4) by simp
    from oracle_step[OF "1.prems"(1-3) False] obtain c' where
      legal: "?t \<in> set (get_legal_transitions c)" and ok: "apply_transition c ?t = Ok c'"
      and inv': "oracle_inv s c'"
      using legal_Ok by blast
    have "\<exists>c''. oracle_parse g c' = Some c'' \<and> is_finished c'' \<and> oracle_inv s c''"
      using "1.IH"[OF False so refl refl refl legal ok] inv' "1.prems"(2-4) by simp
    then show ?thesis
      using False so legal ok by simp
  qed
qed

section \<open>Properties of the static oracle\<close>

lemma inv_finished_gold:
  assumes inv: "oracle_inv s c" and fin: "is_finished c"
  shows "set (arcs c) = gold_arcs (get_gold_config s)"
proof -
  have wf: "wf_config c" using inv_wf[OF inv] by auto
  have e: "stack c = [ROOT]" "buffer c = []"
    using finished_wf[OF wf fin] by auto
  have "gold_arcs (get_gold_config s) \<subseteq> set (arcs c)"
  proof
    fix a assume g: "a \<in> gold_arcs (get_gold_config s)"
    obtain x y where a: "a = (x, y)" by (cases a)
    show "a \<in> set (arcs c)"
    proof (rule ccontr)
      assume "a \<notin> set (arcs c)"
      with inv_unbuilt[OF inv] g a e have "y = ROOT" by auto
      with g a show False by (simp add: gold_mem)
    qed
  qed
  moreover have "set (arcs c) \<subseteq> gold_arcs (get_gold_config s)"
    using inv by (simp add: oracle_inv_def)
  ultimately show ?thesis by blast
qed

text \<open>
  C1: static oracle correctness. For a sentence whose gold heads form a tree and whose
  arcs (\<open>ROOT\<close> arcs included) do not cross, applying the transition chosen by
  \<open>static_oracle\<close> until \<open>is_finished\<close> holds terminates, every chosen transition
  is legal, and the arcs built are exactly the gold arcs of \<open>get_gold_config\<close>.
\<close>

theorem static_oracle_parses_gold:
  assumes wft: "well_formed_tree s" and nc: "\<not> crossing_any (get_gold_config s)"
  shows "\<exists>c. oracle_parse (get_gold_config s) (get_initial_config s) = Some c \<and> is_finished c \<and>
             set (arcs c) = gold_arcs (get_gold_config s)"
proof -
  obtain c where c: "oracle_parse (get_gold_config s) (get_initial_config s) = Some c"
      "is_finished c" "oracle_inv s c"
    using oracle_parse_inv[OF oracle_inv_init[OF wft] wft nc refl] by blast
  then show ?thesis using inv_finished_gold[OF c(3) c(2)] by blast
qed

lemmas tree_eval = well_formed_tree_def crossing_any_def spans_cross_def gold_head_def
  spec_sentence_def tok_def

lemma spec_sentence_tree: "well_formed_tree spec_sentence"
  by (simp add: tree_eval numeral_eq_Suc atLeast0_lessThan_Suc)

lemma spec_sentence_no_cross: "\<not> crossing_any (get_gold_config spec_sentence)"
  by (simp add: crossing_any_def spans_cross_def gold_eval spec_sentence_def Let_def)

lemma root_cross_tree: "well_formed_tree root_cross_sentence"
  by (simp add: tree_eval root_cross_sentence_def numeral_eq_Suc atLeast0_lessThan_Suc)

lemma root_cross_shift_reachable:
  "reachable root_cross_sentence
     \<lparr>arcs = [], stack = [ROOT, 0], buffer = [1, 2], sentence = root_cross_sentence\<rparr>"
  by (rule reachable.step[OF reachable.init, of SHIFT])
    (simp_all add: engine_eval root_cross_sentence_def)

theorem static_oracle_parses_gold_witness:
  "well_formed_tree spec_sentence \<and> \<not> crossing_any (get_gold_config spec_sentence) \<and>
   (\<exists>c. oracle_parse (get_gold_config spec_sentence) (get_initial_config spec_sentence) = Some c \<and>
        is_finished c \<and> set (arcs c) = {(1, 0), (ROOT, 1), (1, 2)})"
proof -
  have g: "gold_arcs (get_gold_config spec_sentence) = {(1, 0), (ROOT, 1), (1, 2)}"
    by (auto simp: gold_eval spec_sentence_def)
  show ?thesis
    using static_oracle_parses_gold[OF spec_sentence_tree spec_sentence_no_cross]
      spec_sentence_tree spec_sentence_no_cross g by simp
qed

text \<open>
  C12: refinement of the decision rule. At every reachable configuration of a sentence,
  \<open>static_oracle\<close> with the gold configuration of that sentence raises no
  \<open>KeyError\<close> and returns the single transition named by the rule of spec section 4.2.
\<close>

theorem static_oracle_implements_rule:
  assumes "reachable s c"
  shows "static_oracle c (get_gold_config s) = Inr (Some [oracle_choice s c])"
  using static_oracle_choice[OF reachable_wf[OF assms] reachable_sentence[OF assms]] .

theorem static_oracle_implements_rule_witness:
  "reachable spec_sentence (get_initial_config spec_sentence) \<and>
   static_oracle (get_initial_config spec_sentence) (get_gold_config spec_sentence) = Inr (Some [SHIFT]) \<and>
   oracle_choice spec_sentence (get_initial_config spec_sentence) = SHIFT"
proof -
  have r: "reachable spec_sentence (get_initial_config spec_sentence)" by (rule reachable.init)
  have o: "oracle_choice spec_sentence (get_initial_config spec_sentence) = SHIFT"
    by (simp add: oracle_choice_def engine_eval gold_head_def)
  show ?thesis
    using static_oracle_implements_rule[OF r] r o by simp
qed

text \<open>
  C31: \<open>is_not_projective\<close> skips every pair with a \<open>ROOT\<close> arc, and that is not enough
  for the static oracle. On a well-formed tree whose only crossing involves the arc from
  \<open>ROOT\<close>, the check reports the tree projective, yet the oracle names REDUCE for a stack
  top that has no head, so the oracle-driven parse cannot complete.
\<close>

theorem root_crossing_defeats_oracle:
  "well_formed_tree root_cross_sentence \<and>
   \<not> is_not_projective (get_gold_config root_cross_sentence) \<and>
   crossing_any (get_gold_config root_cross_sentence) \<and>
   reachable root_cross_sentence
     \<lparr>arcs = [], stack = [ROOT, 0], buffer = [1, 2], sentence = root_cross_sentence\<rparr> \<and>
   static_oracle \<lparr>arcs = [], stack = [ROOT, 0], buffer = [1, 2], sentence = root_cross_sentence\<rparr>
     (get_gold_config root_cross_sentence) = Inr (Some [REDUCE]) \<and>
   REDUCE \<notin> set (get_legal_transitions
     \<lparr>arcs = [], stack = [ROOT, 0], buffer = [1, 2], sentence = root_cross_sentence\<rparr>) \<and>
   oracle_parse (get_gold_config root_cross_sentence) (get_initial_config root_cross_sentence) = None"
proof -
  note w = root_cross_tree
  have p: "\<not> is_not_projective (get_gold_config root_cross_sentence)"
    by (simp add: is_not_projective_def crossing_pattern_def gold_eval root_cross_sentence_def)
  have x: "crossing_any (get_gold_config root_cross_sentence)"
    by (simp add: crossing_any_def spans_cross_def gold_eval root_cross_sentence_def Let_def)
  note r = root_cross_shift_reachable
  have o: "static_oracle \<lparr>arcs = [], stack = [ROOT, 0], buffer = [1, 2], sentence = root_cross_sentence\<rparr>
      (get_gold_config root_cross_sentence) = Inr (Some [REDUCE])"
    by (simp add: static_oracle_def lookup_head_def gold_eval root_cross_sentence_def)
  have l: "REDUCE \<notin> set (get_legal_transitions
      \<lparr>arcs = [], stack = [ROOT, 0], buffer = [1, 2], sentence = root_cross_sentence\<rparr>)"
    by (simp add: engine_eval)
  have d: "oracle_parse (get_gold_config root_cross_sentence) (get_initial_config root_cross_sentence) = None"
    by (simp add: static_oracle_def lookup_head_def engine_eval gold_eval root_cross_sentence_def)
  show ?thesis using w p x r o l d by blast
qed

end
