(* ===== verification/Script.thy ===== *)
theory Script
  imports Static_Oracle
begin

text \<open>
  The \<open>__main__\<close> block of src/arc_eager.py (lines 313--335): read a corpus, take its
  sentence 30, build \<open>ArcEager()\<close>, the initial and the gold configuration, and, when
  \<open>is_not_projective\<close> says the tree is projective, run the static oracle until
  \<open>is_finished\<close>, printing each transition's name. The corpus reader \<open>util\<close> is not in the
  repository, so \<open>main\<close> takes the corpus as its argument; the \<open>print\<close> statements have
  no effect on the state and are left out. The values the script indexes with are Python
  values (\<open>pyval\<close>), because the oracle returns a list where an integer is expected.
\<close>

section \<open>Python values and list indexing\<close>

datatype pyval = PInt int | PList "pyval list" | PNone

fun py_index :: "'a list \<Rightarrow> pyval \<Rightarrow> error + 'a" where
  "py_index xs (PInt i) =
     (let j = (if i < 0 then i + int (length xs) else i) in
      if 0 \<le> j \<and> j < int (length xs) then Inr (xs ! nat j) else Inl IndexError)"
| "py_index xs (PList vs) = Inl TypeError"
| "py_index xs PNone = Inl TypeError"

definition TRANSITION_NAMES :: "string list" where
  "TRANSITION_NAMES = [''LEFT'', ''RIGHT'', ''SHIFT'', ''REDUCE'']"

fun oracle_value :: "transition list option \<Rightarrow> pyval" where
  "oracle_value (Some ts) = PList (map (\<lambda>t. PInt (trans_code t)) ts)"
| "oracle_value None = PNone"

fun take_transition_value :: "arc_eager \<Rightarrow> config \<Rightarrow> pyval \<Rightarrow> config outcome" where
  "take_transition_value cls c (PInt t) = take_transition cls c t"
| "take_transition_value cls c (PList vs) = Raise AssertionError c"
| "take_transition_value cls c PNone = Raise AssertionError c"

section \<open>The script\<close>

function main_loop :: "arc_eager \<Rightarrow> gold_config \<Rightarrow> config \<Rightarrow> error + config" where
  "main_loop cls g c =
     (if is_finished c then Inr c
      else ebind (static_oracle c g) (\<lambda>action.
             ebind (py_index TRANSITION_NAMES (oracle_value action)) (\<lambda>name.
               (case take_transition_value cls c (oracle_value action) of
                  Ok c' \<Rightarrow> main_loop cls g c'
                | Raise e c' \<Rightarrow> Inl e))))"
  by pat_completeness auto
termination
  by (relation "measure (\<lambda>(cls, g, c). 2 * length (buffer c) + length (stack c))")
    (auto elim!: take_transition_value.elims dest!: sym[THEN take_transition_Ok] dest: apply_transition_measure)

declare main_loop.simps [simp del]

definition main :: "token list list \<Rightarrow> error + config option" where
  "main ss =
     ebind (py_index ss (PInt 30)) (\<lambda>sentence.
       (let arcsys = ArcEager_init ArcEager_class;
            config = get_initial_config sentence;
            gold_config = get_gold_config sentence
        in if \<not> is_not_projective gold_config
           then ebind (main_loop arcsys gold_config config) (\<lambda>c. Inr (Some c))
           else Inr None))"

section \<open>Lemmas\<close>

lemma py_index_int:
  "0 \<le> i \<Longrightarrow> py_index xs (PInt i) = (if i < int (length xs) then Inr (xs ! nat i) else Inl IndexError)"
  by (simp add: Let_def)

lemma main_loop_finished: "is_finished c \<Longrightarrow> main_loop cls g c = Inr c"
  by (subst main_loop.simps) simp

lemma main_loop_unfinished:
  assumes "wf_config c" "sentence c = s" "\<not> is_finished c"
  shows "main_loop cls (get_gold_config s) c = Inl TypeError"
  using static_oracle_choice[OF assms(1,2)] assms(3)
  by (subst main_loop.simps) simp

lemma initial_finished_iff: "is_finished (get_initial_config s) \<longleftrightarrow> s = []"
  by (simp add: is_finished_def get_initial_config_def Configuration_def)

section \<open>Properties\<close>

text \<open>
  C29: what the script does, on every corpus: with fewer than 31 sentences \<open>ss[30]\<close>
  raises \<open>IndexError\<close>; a tree that \<open>is_not_projective\<close> rejects ends the script; an
  empty sentence is finished at once; every other sentence raises \<open>TypeError\<close> at the
  first step, because \<open>static_oracle\<close> returns a one-element list and
  \<open>TRANSITION_NAMES[action]\<close> indexes with it. The script never parses a sentence.
\<close>

theorem main_behaviour:
  "main ss =
     (if length ss \<le> 30 then Inl IndexError
      else if is_not_projective (get_gold_config (ss ! 30)) then Inr None
      else if ss ! 30 = [] then Inr (Some (get_initial_config []))
      else Inl TypeError)"
proof (cases "length ss \<le> 30")
  case True
  then show ?thesis by (simp add: main_def py_index_int)
next
  case False
  let ?s = "ss ! 30"
  have i: "py_index ss (PInt 30) = Inr ?s" using False by (simp add: py_index_int)
  have "main_loop (ArcEager_init ArcEager_class) (get_gold_config ?s) (get_initial_config ?s) =
      (if ?s = [] then Inr (get_initial_config ?s) else Inl TypeError)"
    using main_loop_finished[of "get_initial_config ?s"]
      main_loop_unfinished[OF wf_init, of ?s] initial_finished_iff[of ?s]
    by (simp add: get_initial_config_def Configuration_def)
  then show ?thesis using False by (simp add: main_def i Let_def)
qed

end
