(* ===== verification/Oracle_Agreement.thy ===== *)
theory Oracle_Agreement
  imports Static_Oracle
begin

text \<open>
  How the two oracles of src/arc_eager.py relate, and what the unmodelled side effect of
  the \<open>defaultdict\<close> reads would change. \<open>oracle_reachable s\<close> holds of the
  configurations the static-oracle driver visits; \<open>deps_touch g k\<close> is the gold
  configuration after Python reads \<open>deps_of[k]\<close>, which inserts \<open>k \<mapsto> []\<close> when
  \<open>k\<close> is no key (the default factory of line 28).
\<close>

section \<open>Definitions\<close>

inductive oracle_reachable :: "token list \<Rightarrow> config \<Rightarrow> bool" for s where
  init: "oracle_reachable s (get_initial_config s)"
| step: "oracle_reachable s c \<Longrightarrow> \<not> is_finished c \<Longrightarrow>
         static_oracle c (get_gold_config s) = Inr (Some [t]) \<Longrightarrow>
         t \<in> set (get_legal_transitions c) \<Longrightarrow> apply_transition c t = Ok c' \<Longrightarrow>
         oracle_reachable s c'"

definition deps_touch :: "gold_config \<Rightarrow> idx \<Rightarrow> gold_config" where
  "deps_touch g k =
     (if k \<in> fst ` set (deps_of g) then g
      else g\<lparr>deps_of := AList.update k [] (deps_of g)\<rparr>)"

section \<open>The dynamic oracle at oracle-driven configurations\<close>

lemma oracle_reachable_inv:
  assumes wft: "well_formed_tree s" and nc: "\<not> crossing_any (get_gold_config s)"
  shows "oracle_reachable s c \<Longrightarrow> oracle_inv s c"
proof (induction rule: oracle_reachable.induct)
  case init
  show ?case by (rule oracle_inv_init[OF wft])
next
  case (step c t c')
  have "t = oracle_choice s c"
    using step.hyps(3) static_oracle_choice inv_wf[OF step.IH] by simp
  with oracle_step[OF step.IH wft nc step.hyps(2)] step.hyps(5) show ?case by blast
qed

lemma dyn_loop_mem:
  assumes "distinct ts" "\<forall>t \<in> set ts. is_ok t \<longrightarrow> (\<exists>k. transition_cost t c g = Inr k)"
  shows "\<exists>ok'. dyn_loop c g ts is_ok = Inr ok' \<and>
     (\<forall>t \<in> set ts. ok' t \<longleftrightarrow> is_ok t \<and> transition_cost t c g = Inr 0) \<and>
     (\<forall>t. t \<notin> set ts \<longrightarrow> ok' t = is_ok t)"
  using assms
proof (induction ts arbitrary: is_ok)
  case Nil
  then show ?case by simp
next
  case (Cons t ts)
  show ?case
  proof (cases "is_ok t")
    case True
    with Cons.prems obtain k where k: "transition_cost t c g = Inr k" by auto
    let ?ok = "if k \<noteq> 0 then is_ok(t := False) else is_ok"
    have "\<forall>u \<in> set ts. ?ok u \<longrightarrow> (\<exists>k. transition_cost u c g = Inr k)"
      using Cons.prems by auto
    from Cons.IH[OF _ this] Cons.prems(1) obtain ok' where
      ok': "dyn_loop c g ts ?ok = Inr ok'"
        "\<forall>u \<in> set ts. ok' u \<longleftrightarrow> ?ok u \<and> transition_cost u c g = Inr 0"
        "\<forall>u. u \<notin> set ts \<longrightarrow> ok' u = ?ok u"
      by auto
    show ?thesis
      using True k ok' Cons.prems(1) by (auto split: if_splits)
  next
    case False
    from Cons.IH[of is_ok] Cons.prems obtain ok' where
      ok': "dyn_loop c g ts is_ok = Inr ok'"
        "\<forall>u \<in> set ts. ok' u \<longleftrightarrow> is_ok u \<and> transition_cost u c g = Inr 0"
        "\<forall>u. u \<notin> set ts \<longrightarrow> ok' u = is_ok u"
      by auto
    show ?thesis
      using False ok' Cons.prems(1) by auto
  qed
qed

lemma dynamic_oracle_mem:
  assumes wf: "wf_config c" and sc: "sentence c = s"
  shows "\<exists>ts. dynamic_oracle c (get_gold_config s) = Inr ts \<and>
     (\<forall>t. t \<in> set ts \<longleftrightarrow> t \<in> set (get_legal_transitions c) \<and>
                          transition_cost t c (get_gold_config s) = Inr 0)"
proof -
  have d: "distinct TRANSITIONS" by (simp add: TRANSITIONS_def)
  have "\<forall>t \<in> set TRANSITIONS. t \<in> set (get_legal_transitions c) \<longrightarrow>
      (\<exists>k. transition_cost t c (get_gold_config s) = Inr k)"
    using legal_cost_Inr[OF wf sc] by blast
  from dyn_loop_mem[OF d this] obtain ok' where
    "dyn_loop c (get_gold_config s) TRANSITIONS (\<lambda>t. t \<in> set (get_legal_transitions c)) = Inr ok'"
    "\<forall>t \<in> set TRANSITIONS. ok' t \<longleftrightarrow> t \<in> set (get_legal_transitions c) \<and>
       transition_cost t c (get_gold_config s) = Inr 0"
    by blast
  moreover have "\<forall>t. t \<in> set TRANSITIONS" by (simp add: TRANSITIONS_def) (metis transition.exhaust)
  ultimately show ?thesis
    by (auto simp: dynamic_oracle_def)
qed

lemma shift_cost_loop_zero:
  "lookup_head g b = Inr hb \<Longrightarrow> \<forall>k \<in> set ks. k \<noteq> hb \<and> k \<notin> set (deps_get g b) \<Longrightarrow>
   shift_cost_loop g b ks cost = Inr cost"
  by (induction ks arbitrary: cost) auto

lemma reduce_cost_zero:
  assumes inv: "oracle_inv s c"
    and nd: "\<And>y. (last (stack c), y) \<in> gold_arcs (get_gold_config s) \<Longrightarrow> y \<in> set (buffer c) \<Longrightarrow> False"
  shows "reduce_cost c (get_gold_config s) = Inr 0"
proof -
  have "stack c \<noteq> []" using inv_wf[OF inv] by (simp add: wf_config_def)
  moreover have "set (deps_get (get_gold_config s) (last (stack c))) \<inter> set (buffer c) = {}"
  proof (intro equals0I)
    fix y assume "y \<in> set (deps_get (get_gold_config s) (last (stack c))) \<inter> set (buffer c)"
    then have "(last (stack c), y) \<in> gold_arcs (get_gold_config s)" "y \<in> set (buffer c)"
      by (auto simp: deps_get_gold_set gold_mem)
    then show False by (rule nd)
  qed
  ultimately show ?thesis by (simp add: reduce_cost_def)
qed

lemma oracle_choice_zero_cost:
  assumes inv: "oracle_inv s c" and wft: "well_formed_tree s"
    and nc: "\<not> crossing_any (get_gold_config s)" and nf: "\<not> is_finished c"
  shows "transition_cost (oracle_choice s c) c (get_gold_config s) = Inr 0"
proof -
  have wf: "wf_config c" and sc: "sentence c = s" using inv_wf[OF inv] by auto
  have sne: "stack c \<noteq> []" using wf by (simp add: wf_config_def)
  show ?thesis
  proof (cases "buffer c = []")
    case True
    then show ?thesis
      using reduce_cost_zero[OF inv] by (simp add: oracle_choice_def)
  next
    case bne: False
    let ?b = "hd (buffer c)" and ?st = "last (stack c)"
    have b: "0 \<le> ?b" "?b < int (length s)"
      using wf_buffer_hd[OF wf bne] sc by auto
    consider (L) "?st \<noteq> ROOT \<and> ?b = gold_head s ?st"
      | (R) "\<not> (?st \<noteq> ROOT \<and> ?b = gold_head s ?st)" "?st = gold_head s ?b"
      | (H) "\<not> (?st \<noteq> ROOT \<and> ?b = gold_head s ?st)" "?st \<noteq> gold_head s ?b" "gold_head s ?b < ?st"
      | (D) "\<not> (?st \<noteq> ROOT \<and> ?b = gold_head s ?st)" "?st \<noteq> gold_head s ?b"
            "\<not> gold_head s ?b < ?st"
            "\<exists>x \<in> {0..<int (length s)}. gold_head s x = ?b \<and> x < ?st"
      | (S) "\<not> (?st \<noteq> ROOT \<and> ?b = gold_head s ?st)" "?st \<noteq> gold_head s ?b"
            "\<not> gold_head s ?b < ?st"
            "\<not> (\<exists>x \<in> {0..<int (length s)}. gold_head s x = ?b \<and> x < ?st)"
      by blast
    then show ?thesis
    proof cases
      case L
      have "(?b, ?st) \<in> gold_arcs (get_gold_config s)"
        using L inv_top_range[OF inv] by (auto simp: gold_mem)
      then show ?thesis
        using L bne sne by (auto simp: oracle_choice_def left_arc_cost_def Let_def)
    next
      case R
      have "(?st, ?b) \<in> gold_arcs (get_gold_config s)"
        using R b by (simp add: gold_mem)
      then show ?thesis
        using R bne sne b by (auto simp: oracle_choice_def right_arc_cost_def Let_def)
    next
      case H
      then show ?thesis
        using reduce_cost_zero[OF inv] reduce_head_buffer_dep[OF inv nc bne] bne
        by (auto simp: oracle_choice_def Let_def)
    next
      case D
      then obtain x where "x \<in> {0..<int (length s)}" "gold_head s x = ?b" "x < ?st" by blast
      then show ?thesis
        using reduce_cost_zero[OF inv] reduce_dep_buffer_dep[OF inv nc bne, of x] D bne
        by (auto simp: oracle_choice_def Let_def)
    next
      case S
      have "\<forall>k \<in> set (stack c). k \<noteq> gold_head s ?b \<and> k \<notin> set (deps_get (get_gold_config s) ?b)"
      proof
        fix k assume k: "k \<in> set (stack c)"
        have "k \<le> ?st" using wf_stack_le_top[OF wf k] .
        moreover have "k = ROOT \<or> 0 \<le> k" using wf_mem_stack[OF wf k] by auto
        ultimately show "k \<noteq> gold_head s ?b \<and> k \<notin> set (deps_get (get_gold_config s) ?b)"
          using S by (auto simp: deps_get_gold_set)
      qed
      then have "shift_cost_loop (get_gold_config s) ?b (stack c) 0 = Inr 0"
        using shift_cost_loop_zero b by (simp add: lookup_head_gold)
      then show ?thesis
        using S bne by (auto simp: oracle_choice_def shift_cost_def Let_def)
    qed
  qed
qed

section \<open>Reads of the default dictionary\<close>

lemma deps_get_touch: "deps_get (deps_touch g k) = deps_get g"
proof
  fix h
  show "deps_get (deps_touch g k) h = deps_get g h"
  proof (cases "k \<in> fst ` set (deps_of g)")
    case False
    then have "map_of (deps_of g) k = None" by (simp add: map_of_eq_None_iff)
    then show ?thesis
      using False by (simp add: deps_touch_def deps_get_def map_of_update_iff)
  qed (simp add: deps_touch_def)
qed

lemma lookup_head_touch: "lookup_head (deps_touch g k) x = lookup_head g x"
  by (simp add: deps_touch_def lookup_head_def)

lemma gold_arcs_touch: "gold_arcs (deps_touch g k) = gold_arcs g"
  by (simp add: deps_touch_def)

lemma key_test_touch:
  "(b \<in> fst ` set (deps_of (deps_touch g k)) \<and> 0 < length [x \<leftarrow> deps_get g b. x < s]) \<longleftrightarrow>
   (b \<in> fst ` set (deps_of g) \<and> 0 < length [x \<leftarrow> deps_get g b. x < s])"
proof (cases "k \<in> fst ` set (deps_of g)")
  case False
  then have "map_of (deps_of g) k = None" by (simp add: map_of_eq_None_iff)
  then have "deps_get g k = []" by (simp add: deps_get_def)
  then show ?thesis
    using False by (auto simp: deps_touch_def dom_update)
qed (simp add: deps_touch_def)

lemma shift_cost_loop_touch:
  "shift_cost_loop (deps_touch g k) b ks cost = shift_cost_loop g b ks cost"
  by (induction ks arbitrary: cost) (simp_all add: lookup_head_touch deps_get_touch)

lemma transition_cost_touch:
  "transition_cost t c (deps_touch g k) = transition_cost t c g"
  by (cases t) (simp_all add: left_arc_cost_def right_arc_cost_def shift_cost_def reduce_cost_def
      lookup_head_touch deps_get_touch gold_arcs_touch shift_cost_loop_touch Let_def)

lemma dyn_loop_touch:
  "dyn_loop c (deps_touch g k) ts is_ok = dyn_loop c g ts is_ok"
  by (induction ts arbitrary: is_ok) (simp_all add: transition_cost_touch)

section \<open>Properties\<close>

text \<open>
  C20: at every configuration the static-oracle driver visits on a well-formed tree with
  no crossing arcs (\<open>ROOT\<close> arcs included), before it is finished, the transition named
  by \<open>static_oracle\<close> is one of the zero-cost transitions returned by
  \<open>dynamic_oracle\<close>; in particular that list is not empty.
\<close>

theorem static_choice_in_dynamic:
  assumes wft: "well_formed_tree s" and nc: "\<not> crossing_any (get_gold_config s)"
    and r: "oracle_reachable s c" and nf: "\<not> is_finished c"
  shows "\<exists>t ts. static_oracle c (get_gold_config s) = Inr (Some [t]) \<and>
                dynamic_oracle c (get_gold_config s) = Inr ts \<and> t \<in> set ts"
proof -
  have inv: "oracle_inv s c" using oracle_reachable_inv[OF wft nc r] .
  have wf: "wf_config c" and sc: "sentence c = s" using inv_wf[OF inv] by auto
  obtain ts where ts: "dynamic_oracle c (get_gold_config s) = Inr ts"
    "\<forall>t. t \<in> set ts \<longleftrightarrow> t \<in> set (get_legal_transitions c) \<and>
                          transition_cost t c (get_gold_config s) = Inr 0"
    using dynamic_oracle_mem[OF wf sc] by blast
  have "oracle_choice s c \<in> set ts"
    using ts(2) oracle_step[OF inv wft nc nf] oracle_choice_zero_cost[OF inv wft nc nf] by blast
  then show ?thesis
    using static_oracle_choice[OF wf sc] ts(1) by blast
qed

theorem static_choice_in_dynamic_witness:
  "well_formed_tree spec_sentence \<and> \<not> crossing_any (get_gold_config spec_sentence) \<and>
   oracle_reachable spec_sentence (get_initial_config spec_sentence) \<and>
   \<not> is_finished (get_initial_config spec_sentence) \<and>
   static_oracle (get_initial_config spec_sentence) (get_gold_config spec_sentence) = Inr (Some [SHIFT]) \<and>
   dynamic_oracle (get_initial_config spec_sentence) (get_gold_config spec_sentence) = Inr [SHIFT]"
proof -
  have r: "oracle_reachable spec_sentence (get_initial_config spec_sentence)"
    by (rule oracle_reachable.init)
  have f: "\<not> is_finished (get_initial_config spec_sentence)"
    by (simp add: engine_eval)
  obtain t ts where t: "static_oracle (get_initial_config spec_sentence) (get_gold_config spec_sentence) = Inr (Some [t])"
      "dynamic_oracle (get_initial_config spec_sentence) (get_gold_config spec_sentence) = Inr ts"
      "t \<in> set ts"
    using static_choice_in_dynamic[OF spec_sentence_tree spec_sentence_no_cross r f] by blast
  have "static_oracle (get_initial_config spec_sentence) (get_gold_config spec_sentence) = Inr (Some [SHIFT])"
    by (simp add: static_oracle_def lookup_head_def engine_eval gold_eval)
  moreover have "dynamic_oracle (get_initial_config spec_sentence) (get_gold_config spec_sentence) = Inr [SHIFT]"
    by (simp add: dynamic_oracle_def right_arc_cost_def shift_cost_def lookup_head_def
        engine_eval gold_eval)
  ultimately show ?thesis
    using spec_sentence_tree spec_sentence_no_cross r f t by simp
qed

text \<open>
  C34: reading a missing key of the \<open>defaultdict\<close> \<open>deps_of\<close> inserts an empty list,
  a side effect the model leaves out; no result of \<open>static_oracle\<close> or
  \<open>dynamic_oracle\<close> depends on it.
\<close>

theorem deps_default_unobservable:
  "static_oracle c (deps_touch g k) = static_oracle c g \<and>
   dynamic_oracle c (deps_touch g k) = dynamic_oracle c g"
  unfolding static_oracle_def dynamic_oracle_def dyn_loop_touch lookup_head_touch deps_get_touch
    key_test_touch
  by (rule conjI refl)+

end
