(* ===== verification/Runs.thy ===== *)
theory Runs
  imports Static_Oracle
begin

text \<open>
  What any run of the engine of src/arc_eager.py can still do from a configuration, and
  the lifecycle of a token that the specification states (section 3): every token is in
  exactly one of stack and buffer until LEFT or REDUCE removes it, after which it never
  reappears, and \<open>ROOT\<close> stays at the bottom of the stack. \<open>frame c c'\<close> records what a
  run from \<open>c\<close> to \<open>c'\<close> can do: append arcs with an end in the buffer of \<open>c\<close> to tokens
  that have no head in \<open>c\<close>, shrink the buffer, and push only buffer tokens.
  \<open>arc_lost c a\<close> says that no such run from \<open>c\<close> builds the arc \<open>a\<close>.
  \<open>indices_ok\<close> is the type of a configuration (every stored integer a token index or
  \<open>ROOT\<close>), preserved by every legal transition because runs stay within their frame.
\<close>

section \<open>Definitions\<close>

definition frame :: "config \<Rightarrow> config \<Rightarrow> bool" where
  "frame c c' \<longleftrightarrow>
     (\<exists>new. arcs c' = arcs c @ new \<and>
        (\<forall>(h, d) \<in> set new. (h \<in> set (buffer c) \<or> d \<in> set (buffer c)) \<and>
           h \<in> set (stack c) \<union> set (buffer c) \<and> d \<in> set (stack c) \<union> set (buffer c) \<and>
           \<not> has_head (arcs c) d)) \<and>
     set (buffer c') \<subseteq> set (buffer c) \<and> set (stack c') \<subseteq> set (stack c) \<union> set (buffer c)"

definition arc_lost :: "config \<Rightarrow> arc \<Rightarrow> bool" where
  "arc_lost c a \<longleftrightarrow>
     (case a of (h, d) \<Rightarrow> (h, d) \<notin> set (arcs c) \<and>
        ((h \<notin> set (buffer c) \<and> d \<notin> set (buffer c)) \<or>
         h \<notin> set (stack c) \<union> set (buffer c) \<or> d \<notin> set (stack c) \<union> set (buffer c) \<or>
         has_head (arcs c) d))"

text \<open>
  The type of a configuration as \<open>ArcEager\<close> stores it: every integer on the stack
  or in an arc's head is a token index or \<open>ROOT\<close>, every buffer entry and every
  arc's dependent is a token index.
\<close>

definition indices_ok :: "token list \<Rightarrow> config \<Rightarrow> bool" where
  "indices_ok s c \<longleftrightarrow>
     list_all (\<lambda>x. ROOT \<le> x \<and> x < int (length s)) (stack c) \<and>
     list_all (\<lambda>x. 0 \<le> x \<and> x < int (length s)) (buffer c) \<and>
     list_all (\<lambda>(h, d). ROOT \<le> h \<and> h < int (length s) \<and> 0 \<le> d \<and> d < int (length s)) (arcs c)"

section \<open>Runs stay within their frame\<close>

lemma wf_stack_buffer_disjoint:
  "wf_config c \<Longrightarrow> set (stack c) \<inter> set (buffer c) = {}"
  using wf_mem_stack[of c] wf_mem_buffer[of c] by fastforce

lemma wf_stack_distinct: "wf_config c \<Longrightarrow> distinct (stack c)"
  by (erule wf_stack_shape) (auto simp: strict_sorted_iff)

lemma wf_buffer_no_head: "wf_config c \<Longrightarrow> y \<in> set (buffer c) \<Longrightarrow> \<not> has_head (arcs c) y"
  using wf_mem_buffer[of c y] by (force simp: wf_config_def has_head_iff)

lemma frame_refl: "frame c c"
  by (auto simp: frame_def)

lemma frame_trans:
  assumes "frame c c1" "frame c1 c2" shows "frame c c2"
proof -
  obtain n1 where n1: "arcs c1 = arcs c @ n1"
      "\<forall>(h, d) \<in> set n1. (h \<in> set (buffer c) \<or> d \<in> set (buffer c)) \<and>
         h \<in> set (stack c) \<union> set (buffer c) \<and> d \<in> set (stack c) \<union> set (buffer c) \<and>
         \<not> has_head (arcs c) d"
      and s1: "set (buffer c1) \<subseteq> set (buffer c)" "set (stack c1) \<subseteq> set (stack c) \<union> set (buffer c)"
    using assms(1) by (auto simp: frame_def)
  obtain n2 where n2: "arcs c2 = arcs c1 @ n2"
      "\<forall>(h, d) \<in> set n2. (h \<in> set (buffer c1) \<or> d \<in> set (buffer c1)) \<and>
         h \<in> set (stack c1) \<union> set (buffer c1) \<and> d \<in> set (stack c1) \<union> set (buffer c1) \<and>
         \<not> has_head (arcs c1) d"
      and s2: "set (buffer c2) \<subseteq> set (buffer c1)" "set (stack c2) \<subseteq> set (stack c1) \<union> set (buffer c1)"
    using assms(2) by (auto simp: frame_def)
  have "\<not> has_head (arcs c) d" if "\<not> has_head (arcs c1) d" for d
    using that n1(1) by (auto simp: has_head_iff)
  then have "\<forall>(h, d) \<in> set (n1 @ n2). (h \<in> set (buffer c) \<or> d \<in> set (buffer c)) \<and>
      h \<in> set (stack c) \<union> set (buffer c) \<and> d \<in> set (stack c) \<union> set (buffer c) \<and>
      \<not> has_head (arcs c) d"
    using n1(2) n2(2) s1 by fastforce
  then show ?thesis
    using n1(1) n2(1) s1 s2 unfolding frame_def by (intro conjI exI[of _ "n1 @ n2"]) auto
qed

lemma step_frame:
  assumes legal: "t \<in> set (get_legal_transitions c)" and ok: "apply_transition c t = Ok c'"
  shows "frame c c'"
proof (cases t)
  case LEFT
  with legal ok show ?thesis
    by (auto simp: frame_def apply_transition_Ok_iff legal_iff simp del: apply_transition.simps
        dest: list.set_sel(1) in_set_butlastD)
next
  case RIGHT
  with legal ok show ?thesis
    by (auto simp: frame_def apply_transition_Ok_iff legal_iff simp del: apply_transition.simps
        dest: list.set_sel(2))
next
  case SHIFT
  with legal ok show ?thesis
    by (auto simp: frame_def apply_transition_Ok_iff legal_iff simp del: apply_transition.simps
        dest: list.set_sel(2))
next
  case REDUCE
  with legal ok show ?thesis
    by (auto simp: frame_def apply_transition_Ok_iff legal_iff simp del: apply_transition.simps
        dest: in_set_butlastD)
qed

lemma run_frame: "run c ts = Some c' \<Longrightarrow> frame c c'"
proof (induction ts arbitrary: c)
  case Nil
  then show ?case by (simp add: frame_refl)
next
  case (Cons t ts)
  then obtain c1 where "t \<in> set (get_legal_transitions c)" "apply_transition c t = Ok c1"
      "run c1 ts = Some c'"
    by (auto split: if_splits outcome.splits)
  then show ?case using step_frame frame_trans Cons.IH by blast
qed

lemma frame_unbuildable:
  assumes f: "frame c c'" and nb: "(h, d) \<notin> set (arcs c)"
    and lost: "(h \<notin> set (buffer c) \<and> d \<notin> set (buffer c)) \<or>
               h \<notin> set (stack c) \<union> set (buffer c) \<or> d \<notin> set (stack c) \<union> set (buffer c) \<or>
               has_head (arcs c) d"
  shows "(h, d) \<notin> set (arcs c')"
  using assms by (fastforce simp: frame_def)

lemma lost_never_built: "frame c c' \<Longrightarrow> arc_lost c a \<Longrightarrow> a \<notin> set (arcs c')"
  by (cases a) (auto simp: arc_lost_def dest: frame_unbuildable)


section \<open>Properties\<close>

text \<open>
  C13: the lifecycle of a token (spec section 3). In every reachable configuration each
  token is in at most one of stack and buffer, neither holds it twice, \<open>ROOT\<close> is never in
  the buffer, and along any further run of legal transitions \<open>ROOT\<close> stays at the bottom
  of the stack and no token that has left both stack and buffer comes back.
  The docstring of \<open>get_initial_config\<close> (src/arc_eager.py:50-53) says the buffer
  "is constructed with an extra root"; the code builds it as \<open>range(len(sentence))\<close>
  and puts \<open>ROOT\<close> only on the stack. The model follows the code, so this property
  contradicts the docstring, already at the initial configuration.
\<close>

theorem token_lifecycle:
  assumes r: "reachable s c" and run: "run c ts = Some c'"
  shows "set (stack c) \<inter> set (buffer c) = {} \<and> distinct (stack c) \<and> distinct (buffer c) \<and>
         ROOT \<notin> set (buffer c) \<and> hd (stack c') = ROOT \<and>
         set (stack c') \<union> set (buffer c') \<subseteq> set (stack c) \<union> set (buffer c)"
proof -
  have wf: "wf_config c" using reachable_wf[OF r] .
  have wf': "wf_config c'" using reachable_wf[OF run_reachable[OF r run]] .
  have f: "frame c c'" using run_frame[OF run] .
  have "distinct (buffer c)" "ROOT \<notin> set (buffer c)"
    using wf by (auto simp: wf_config_def distinct_map)
  moreover have "hd (stack c') = ROOT" using wf' by (simp add: wf_config_def)
  moreover have "set (stack c') \<union> set (buffer c') \<subseteq> set (stack c) \<union> set (buffer c)"
    using f by (auto simp: frame_def)
  ultimately show ?thesis
    using wf_stack_buffer_disjoint[OF wf] wf_stack_distinct[OF wf] by blast
qed

theorem token_lifecycle_witness:
  "reachable one_token \<lparr>arcs = [], stack = [ROOT, 0], buffer = [], sentence = one_token\<rparr> \<and>
   run \<lparr>arcs = [], stack = [ROOT, 0], buffer = [], sentence = one_token\<rparr> [] =
     Some \<lparr>arcs = [], stack = [ROOT, 0], buffer = [], sentence = one_token\<rparr> \<and>
   set [ROOT, 0] \<inter> set [] = ({} :: idx set) \<and> hd [ROOT, (0 :: idx)] = ROOT"
  using token_lifecycle[OF reachable_one_token_SHIFT, of "[]"] reachable_one_token_SHIFT by simp

text \<open>
  C28: a malformed annotation is never parsed (spec section 7). When a token's gold head
  is neither \<open>ROOT\<close> nor the index of a token, \<open>get_gold_config\<close> still records the arc
  without complaint, and no run of legal transitions from the initial configuration ever
  builds it, so no parse reproduces the gold arcs.
\<close>

theorem malformed_head_unbuildable:
  assumes k: "k < length s" and nr: "head (s ! k) \<noteq> ROOT"
    and out: "\<not> (0 \<le> head (s ! k) \<and> head (s ! k) < int (length s))"
    and run: "run (get_initial_config s) ts = Some c"
  shows "(head (s ! k), int k) \<in> gold_arcs (get_gold_config s) \<and> (head (s ! k), int k) \<notin> set (arcs c)"
proof -
  let ?c0 = "get_initial_config s" and ?h = "head (s ! k)"
  have c0: "arcs ?c0 = []" "stack ?c0 = [ROOT]" "buffer ?c0 = map int [0..<length s]"
    by (simp_all add: get_initial_config_def Configuration_def)
  have g: "(?h, int k) \<in> gold_arcs (get_gold_config s)"
    using k by (simp add: gold_mem gold_head_def)
  have "?h \<notin> set (stack ?c0) \<union> set (buffer ?c0)"
    using nr out c0(2,3) by auto
  then have "arc_lost ?c0 (?h, int k)" using c0(1) by (simp add: arc_lost_def)
  then show ?thesis using g lost_never_built[OF run_frame[OF run]] by blast
qed

theorem malformed_head_unbuildable_witness:
  "0 < length [tok 5] \<and> head ([tok 5] ! 0) \<noteq> ROOT \<and>
   \<not> (0 \<le> head ([tok 5] ! 0) \<and> head ([tok 5] ! 0) < int (length [tok 5])) \<and>
   run (get_initial_config [tok 5]) [RIGHT, REDUCE] =
     Some \<lparr>arcs = [(ROOT, 0)], stack = [ROOT], buffer = [], sentence = [tok 5]\<rparr> \<and>
   (5, 0) \<in> gold_arcs (get_gold_config [tok 5]) \<and> (5, 0) \<notin> set [(ROOT, (0 :: idx))]"
proof -
  have r: "run (get_initial_config [tok 5]) [RIGHT, REDUCE] =
      Some \<lparr>arcs = [(ROOT, 0)], stack = [ROOT], buffer = [], sentence = [tok 5]\<rparr>"
    by (simp add: engine_eval)
  show ?thesis
    using malformed_head_unbuildable[of 0 "[tok 5]", OF _ _ _ r] r by (simp add: tok_def)
qed

text \<open>
  C16: the configuration's type. In every configuration reachable by legal transitions,
  stack entries and arc heads lie in \<open>[ROOT, n)\<close>, buffer entries and arc dependents
  in \<open>[0, n)\<close>, for a sentence of n tokens: the engine never stores an integer that
  is not a position of the sentence, except \<open>ROOT = -1\<close> where a head may be ROOT.
  The docstring of \<open>get_initial_config\<close> (src/arc_eager.py:50-53) says the buffer
  "is constructed with an extra root"; the code builds it as \<open>range(len(sentence))\<close>
  and puts \<open>ROOT\<close> only on the stack. The model follows the code, so this property
  contradicts the docstring, already at the initial configuration.
\<close>

theorem reachable_indices_ok:
  assumes "reachable s c"
  shows "indices_ok s c"
  using assms
proof (induction rule: reachable.induct)
  case init
  show ?case
    by (simp add: indices_ok_def get_initial_config_def Configuration_def list_all_iff)
next
  case (step c t c')
  let ?ok = "\<lambda>x. ROOT \<le> x \<and> x < int (length s)"
  have wf': "wf_config c'" and sc': "sentence c' = s"
    using reachable_wf[OF reachable.step[OF step.hyps]] reachable_sentence[OF reachable.step[OF step.hyps]]
    by auto
  have sb: "\<forall>x \<in> set (stack c) \<union> set (buffer c). ?ok x"
    using step.IH by (auto simp: indices_ok_def list_all_iff)
  obtain new where fr: "arcs c' = arcs c @ new"
      "\<forall>(h, d) \<in> set new. h \<in> set (stack c) \<union> set (buffer c)"
      "set (buffer c') \<subseteq> set (buffer c)" "set (stack c') \<subseteq> set (stack c) \<union> set (buffer c)"
    using step_frame[OF step.hyps(2,3)] unfolding frame_def by blast
  have st: "list_all ?ok (stack c')" using fr(4) sb by (auto simp: list_all_iff)
  have bu: "list_all (\<lambda>x. 0 \<le> x \<and> x < int (length s)) (buffer c')"
    using fr(3) step.IH by (auto simp: indices_ok_def list_all_iff)
  have "\<forall>a \<in> set (arcs c'). 0 \<le> snd a \<and> snd a < int (length s)"
    using wf' sc' wf_consumed_le[OF wf'] by (force simp: wf_config_def)
  moreover have "\<forall>a \<in> set (arcs c'). ?ok (fst a)"
    using step.IH fr(1,2) sb by (fastforce simp: indices_ok_def list_all_iff)
  ultimately have ar: "list_all (\<lambda>(h, d). ?ok h \<and> 0 \<le> d \<and> d < int (length s)) (arcs c')"
    by (auto simp: list_all_iff)
  show ?case using st bu ar by (simp add: indices_ok_def)
qed

theorem reachable_indices_ok_witness:
  "reachable spec_sentence \<lparr>arcs = [(ROOT, 0)], stack = [ROOT, 0], buffer = [1, 2], sentence = spec_sentence\<rparr> \<and>
   indices_ok spec_sentence \<lparr>arcs = [(ROOT, 0)], stack = [ROOT, 0], buffer = [1, 2], sentence = spec_sentence\<rparr>"
proof -
  have r: "reachable spec_sentence \<lparr>arcs = [(ROOT, 0)], stack = [ROOT, 0], buffer = [1, 2], sentence = spec_sentence\<rparr>"
    by (rule reachable.step[OF reachable.init, of RIGHT]) (simp_all add: engine_eval)
  show ?thesis using r reachable_indices_ok[OF r] by simp
qed

end
