(* ===== verification/Costs.thy ===== *)
theory Costs
  imports Static_Oracle Runs
begin

text \<open>
  The four cost functions of src/arc_eager.py (\<open>left_arc_cost\<close>, \<open>right_arc_cost\<close>,
  \<open>shift_cost\<close>, \<open>reduce_cost\<close>, modelled in Oracle) against their docstrings: each
  docstring names a set of gold arcs, written here as \<open>left_arc_lost\<close>,
  \<open>right_arc_lost\<close>, \<open>shift_lost\<close> and \<open>reduce_lost\<close>, and the code's sums of
  membership tests count exactly that set at every reachable configuration of a
  well-formed tree, except where the code returns \<open>0\<close> early because the arc the
  transition builds is gold.
\<close>

section \<open>The gold arcs named by the docstrings\<close>

definition left_arc_lost :: "config \<Rightarrow> gold_config \<Rightarrow> arc set" where
  "left_arc_lost c g =
     (let s = last (stack c) in
      Set.filter (\<lambda>(h, d). (d = s \<and> h \<in> set (buffer c)) \<or> (h = s \<and> d \<in> set (buffer c))) (gold_arcs g))"

definition right_arc_lost :: "config \<Rightarrow> gold_config \<Rightarrow> arc set" where
  "right_arc_lost c g =
     (let b = hd (buffer c) in
      Set.filter (\<lambda>(h, d). (d = b \<and> h \<in> set (stack c) \<union> set (buffer c)) \<or> (h = b \<and> d \<in> set (stack c)))
        (gold_arcs g))"

definition shift_lost :: "config \<Rightarrow> gold_config \<Rightarrow> arc set" where
  "shift_lost c g =
     (let b = hd (buffer c) in
      Set.filter (\<lambda>(h, d). (d = b \<and> h \<in> set (stack c)) \<or> (h = b \<and> d \<in> set (stack c))) (gold_arcs g))"

definition reduce_lost :: "config \<Rightarrow> gold_config \<Rightarrow> arc set" where
  "reduce_lost c g =
     (let s = last (stack c) in Set.filter (\<lambda>(h, d). h = s \<and> d \<in> set (buffer c)) (gold_arcs g))"

section \<open>Counting gold arcs\<close>

lemma gold_dep_arcs:
  "Set.filter (\<lambda>(h, d). h = x \<and> d \<in> D) (gold_arcs (get_gold_config s)) =
   Pair x ` (set (deps_get (get_gold_config s) x) \<inter> D)"
  by (auto simp: gold_mem deps_get_gold_set)

lemma gold_head_arcs:
  assumes "0 \<le> x" "x < int (length s)"
  shows "Set.filter (\<lambda>(h, d). d = x \<and> h \<in> H) (gold_arcs (get_gold_config s)) =
         (if gold_head s x \<in> H then {(gold_head s x, x)} else {})"
  using assms by (auto simp: gold_mem)

lemma card_gold_lost:
  assumes "0 \<le> x" "x < int (length s)" "gold_head s x \<noteq> x"
  shows "card (Set.filter (\<lambda>(h, d). (d = x \<and> h \<in> H) \<or> (h = x \<and> d \<in> D)) (gold_arcs (get_gold_config s))) =
         of_bool (gold_head s x \<in> H) + card (set (deps_get (get_gold_config s) x) \<inter> D)"
proof -
  let ?G = "gold_arcs (get_gold_config s)"
  have u: "Set.filter (\<lambda>(h, d). (d = x \<and> h \<in> H) \<or> (h = x \<and> d \<in> D)) ?G =
      Set.filter (\<lambda>(h, d). d = x \<and> h \<in> H) ?G \<union> Set.filter (\<lambda>(h, d). h = x \<and> d \<in> D) ?G"
    by auto
  have i: "inj (Pair x)" by (simp add: inj_on_def)
  show ?thesis
    unfolding u gold_dep_arcs gold_head_arcs[OF assms(1,2)]
    using assms(3) by (auto simp: card_image inj_on_subset[OF i] card_insert_if)
qed

lemma shift_cost_loop_sum:
  "lookup_head g b = Inr hb \<Longrightarrow>
   shift_cost_loop g b ks cost =
     Inr (cost + (\<Sum>k \<leftarrow> ks. of_bool (k = hb) + of_bool (k \<in> set (deps_get g b))))"
  by (induction ks arbitrary: cost) (auto simp: algebra_simps)


lemma wf_top_range:
  "wf_config c \<Longrightarrow> last (stack c) \<noteq> ROOT \<Longrightarrow>
   0 \<le> last (stack c) \<and> last (stack c) < int (length (sentence c))"
  using wf_top[of c] wf_consumed_le[of c] by auto

lemma wf_hd_buffer_range:
  "wf_config c \<Longrightarrow> buffer c \<noteq> [] \<Longrightarrow>
   0 \<le> hd (buffer c) \<and> hd (buffer c) < int (length (sentence c))"
  using wf_mem_buffer[of c "hd (buffer c)"] by auto

lemma gold_no_self_head:
  "well_formed_tree s \<Longrightarrow> 0 \<le> x \<Longrightarrow> x < int (length s) \<Longrightarrow> gold_head s x \<noteq> x"
  using gold_no_self[of s "gold_head s x" x] by (simp add: gold_mem)

lemma left_arc_cost_counts:
  assumes wf: "wf_config c" and sc: "sentence c = s" and wft: "well_formed_tree s"
    and b: "buffer c \<noteq> []" and nr: "last (stack c) \<noteq> ROOT"
    and na: "(hd (buffer c), last (stack c)) \<notin> gold_arcs (get_gold_config s)"
  shows "left_arc_cost c (get_gold_config s) = Inr (int (card (left_arc_lost c (get_gold_config s))))"
proof -
  let ?g = "get_gold_config s" and ?st = "last (stack c)" and ?B = "set (buffer c)"
  have r: "0 \<le> ?st" "?st < int (length s)" using wf_top_range[OF wf nr] sc by auto
  have sne: "stack c \<noteq> []" using wf by (simp add: wf_config_def)
  have nd: "gold_head s ?st \<notin> set (deps_get ?g ?st) \<inter> ?B"
  proof
    assume "gold_head s ?st \<in> set (deps_get ?g ?st) \<inter> ?B"
    then show False
      using gold_no_2cycle[OF wft _ _ r, of "gold_head s ?st"] by (auto simp: deps_get_gold_set)
  qed
  have "card (set ([gold_head s ?st] @ deps_get ?g ?st) \<inter> ?B) =
      of_bool (gold_head s ?st \<in> ?B) + card (set (deps_get ?g ?st) \<inter> ?B)"
    using nd by (auto simp: card_insert_if Int_insert_left)
  moreover have "card (left_arc_lost c ?g) =
      of_bool (gold_head s ?st \<in> ?B) + card (set (deps_get ?g ?st) \<inter> ?B)"
    unfolding left_arc_lost_def Let_def
    using card_gold_lost[OF r gold_no_self_head[OF wft r]] .
  ultimately show ?thesis
    using b nr na sne r by (simp add: left_arc_cost_def lookup_head_gold Let_def)
qed

lemma right_arc_cost_counts:
  assumes wf: "wf_config c" and sc: "sentence c = s" and wft: "well_formed_tree s"
    and b: "buffer c \<noteq> []"
    and na: "(last (stack c), hd (buffer c)) \<notin> gold_arcs (get_gold_config s)"
  shows "right_arc_cost c (get_gold_config s) = Inr (int (card (right_arc_lost c (get_gold_config s))))"
proof -
  let ?g = "get_gold_config s" and ?b = "hd (buffer c)" and ?S = "set (stack c)" and ?B = "set (buffer c)"
  have r: "0 \<le> ?b" "?b < int (length s)" using wf_hd_buffer_range[OF wf b] sc by auto
  have sne: "stack c \<noteq> []" using wf by (simp add: wf_config_def)
  have dj: "?S \<inter> ?B = {}" using wf_stack_buffer_disjoint[OF wf] .
  have "(of_bool (gold_head s ?b \<in> ?S) + of_bool (gold_head s ?b \<in> ?B) :: int) =
      of_bool (gold_head s ?b \<in> ?S \<union> ?B)"
    using dj by auto
  moreover have "card (right_arc_lost c ?g) =
      of_bool (gold_head s ?b \<in> ?S \<union> ?B) + card (set (deps_get ?g ?b) \<inter> ?S)"
    unfolding right_arc_lost_def Let_def
    using card_gold_lost[OF r gold_no_self_head[OF wft r]] .
  ultimately show ?thesis
    using b na sne r by (simp add: right_arc_cost_def lookup_head_gold Let_def)
qed

lemma shift_cost_counts:
  assumes wf: "wf_config c" and sc: "sentence c = s" and wft: "well_formed_tree s"
    and b: "buffer c \<noteq> []"
  shows "shift_cost c (get_gold_config s) = Inr (int (card (shift_lost c (get_gold_config s))))"
proof -
  let ?g = "get_gold_config s" and ?b = "hd (buffer c)" and ?S = "set (stack c)"
  have r: "0 \<le> ?b" "?b < int (length s)" using wf_hd_buffer_range[OF wf b] sc by auto
  have d: "distinct (stack c)" using wf_stack_distinct[OF wf] .
  have "(\<Sum>k \<leftarrow> stack c. of_bool (k = gold_head s ?b) + of_bool (k \<in> set (deps_get ?g ?b))) =
      (\<Sum>k \<in> ?S. of_bool (k = gold_head s ?b) + of_bool (k \<in> set (deps_get ?g ?b)) :: int)"
    using d by (simp add: sum_list_distinct_conv_sum_set)
  also have "\<dots> = of_bool (gold_head s ?b \<in> ?S) + int (card (set (deps_get ?g ?b) \<inter> ?S))"
    by (simp add: sum.distrib sum_of_bool_eq Int_commute)
  finally have loop: "shift_cost_loop ?g ?b (stack c) 0 =
      Inr (of_bool (gold_head s ?b \<in> ?S) + int (card (set (deps_get ?g ?b) \<inter> ?S)))"
    using shift_cost_loop_sum[of ?g ?b "gold_head s ?b" "stack c" 0] r by (simp add: lookup_head_gold)
  have "card (shift_lost c ?g) = of_bool (gold_head s ?b \<in> ?S) + card (set (deps_get ?g ?b) \<inter> ?S)"
    unfolding shift_lost_def Let_def
    using card_gold_lost[OF r gold_no_self_head[OF wft r]] .
  then show ?thesis
    using b loop by (simp add: shift_cost_def)
qed

lemma reduce_cost_counts:
  assumes wf: "wf_config c"
  shows "reduce_cost c (get_gold_config s) = Inr (int (card (reduce_lost c (get_gold_config s))))"
proof -
  have sne: "stack c \<noteq> []" using wf by (simp add: wf_config_def)
  have i: "inj (Pair (last (stack c)))" by (simp add: inj_on_def)
  show ?thesis
    unfolding reduce_lost_def Let_def gold_dep_arcs
    using sne by (simp add: reduce_cost_def card_image inj_on_subset[OF i])
qed

section \<open>Properties\<close>

text \<open>
  C22: at every configuration reachable on a well-formed gold tree, each cost function
  returns the number of gold arcs its docstring names: for LEFT the arcs between the stack
  top \<open>s\<close> and a buffer token, for RIGHT the arcs into the buffer front \<open>b\<close> from the
  stack or buffer and out of \<open>b\<close> into the stack, for SHIFT the arcs between \<open>b\<close> and the
  stack, for REDUCE the arcs from \<open>s\<close> into the buffer. LEFT and RIGHT need their early
  return not to apply (the arc they would build is not gold) and the asserts to hold.
\<close>

theorem costs_count_lost_arcs:
  assumes r: "reachable s c" and wft: "well_formed_tree s"
  shows "(buffer c \<noteq> [] \<and> last (stack c) \<noteq> ROOT \<and>
          (hd (buffer c), last (stack c)) \<notin> gold_arcs (get_gold_config s) \<longrightarrow>
          left_arc_cost c (get_gold_config s) = Inr (int (card (left_arc_lost c (get_gold_config s))))) \<and>
         (buffer c \<noteq> [] \<and> (last (stack c), hd (buffer c)) \<notin> gold_arcs (get_gold_config s) \<longrightarrow>
          right_arc_cost c (get_gold_config s) = Inr (int (card (right_arc_lost c (get_gold_config s))))) \<and>
         (buffer c \<noteq> [] \<longrightarrow>
          shift_cost c (get_gold_config s) = Inr (int (card (shift_lost c (get_gold_config s))))) \<and>
         reduce_cost c (get_gold_config s) = Inr (int (card (reduce_lost c (get_gold_config s))))"
  using left_arc_cost_counts[OF reachable_wf[OF r] reachable_sentence[OF r] wft]
    right_arc_cost_counts[OF reachable_wf[OF r] reachable_sentence[OF r] wft]
    shift_cost_counts[OF reachable_wf[OF r] reachable_sentence[OF r] wft]
    reduce_cost_counts[OF reachable_wf[OF r]]
  by blast

theorem costs_count_lost_arcs_witness:
  "reachable root_cross_sentence
     \<lparr>arcs = [], stack = [ROOT, 0], buffer = [1, 2], sentence = root_cross_sentence\<rparr> \<and>
   well_formed_tree root_cross_sentence \<and>
   (1, 0) \<notin> gold_arcs (get_gold_config root_cross_sentence) \<and>
   (0, 1) \<notin> gold_arcs (get_gold_config root_cross_sentence) \<and>
   left_arc_cost \<lparr>arcs = [], stack = [ROOT, 0], buffer = [1, 2], sentence = root_cross_sentence\<rparr>
     (get_gold_config root_cross_sentence) =
   Inr (int (card (left_arc_lost \<lparr>arcs = [], stack = [ROOT, 0], buffer = [1, 2], sentence = root_cross_sentence\<rparr>
     (get_gold_config root_cross_sentence)))) \<and>
   right_arc_cost \<lparr>arcs = [], stack = [ROOT, 0], buffer = [1, 2], sentence = root_cross_sentence\<rparr>
     (get_gold_config root_cross_sentence) =
   Inr (int (card (right_arc_lost \<lparr>arcs = [], stack = [ROOT, 0], buffer = [1, 2], sentence = root_cross_sentence\<rparr>
     (get_gold_config root_cross_sentence)))) \<and>
   left_arc_cost \<lparr>arcs = [], stack = [ROOT, 0], buffer = [1, 2], sentence = root_cross_sentence\<rparr>
     (get_gold_config root_cross_sentence) = Inr 1 \<and>
   right_arc_cost \<lparr>arcs = [], stack = [ROOT, 0], buffer = [1, 2], sentence = root_cross_sentence\<rparr>
     (get_gold_config root_cross_sentence) = Inr 1 \<and>
   shift_cost \<lparr>arcs = [], stack = [ROOT, 0], buffer = [1, 2], sentence = root_cross_sentence\<rparr>
     (get_gold_config root_cross_sentence) = Inr 1 \<and>
   reduce_cost \<lparr>arcs = [], stack = [ROOT, 0], buffer = [1, 2], sentence = root_cross_sentence\<rparr>
     (get_gold_config root_cross_sentence) = Inr 0"
proof -
  let ?c = "\<lparr>arcs = [], stack = [ROOT, 0], buffer = [1, 2], sentence = root_cross_sentence\<rparr>"
  let ?g = "get_gold_config root_cross_sentence"
  have n: "(1, 0) \<notin> gold_arcs ?g" "(0, 1) \<notin> gold_arcs ?g"
    by (simp_all add: gold_eval root_cross_sentence_def)
  have v: "left_arc_cost ?c ?g = Inr 1" "right_arc_cost ?c ?g = Inr 1"
    "shift_cost ?c ?g = Inr 1" "reduce_cost ?c ?g = Inr 0"
    by (simp_all add: left_arc_cost_def right_arc_cost_def shift_cost_def reduce_cost_def
        lookup_head_def gold_eval root_cross_sentence_def)
  show ?thesis
    using costs_count_lost_arcs[OF root_cross_shift_reachable root_cross_tree] n v
      root_cross_shift_reachable root_cross_tree by simp
qed

end
