(* ===== verification/Dynamic_Oracle.thy ===== *)
theory Dynamic_Oracle
  imports Oracle_Agreement Costs
begin

text \<open>
  Correctness of \<open>dynamic_oracle\<close> (src/arc_eager.py) as the specification uses it for
  training with exploration: a driver that, at every step, applies any one of the
  transitions the dynamic oracle returns. \<open>dyn_reachable s\<close> holds of the configurations
  such a driver can reach; \<open>dyn_parse pick\<close> is the driver with a chooser \<open>pick\<close> (a
  classifier or a random choice among the returned transitions). The proofs reuse the
  invariant \<open>oracle_inv\<close> of Static_Oracle: by the cost counts of Costs, a zero-cost LEFT
  or RIGHT builds a gold arc, and a zero-cost SHIFT or REDUCE leaves no gold arc between
  the moved token and the tokens it can no longer reach.
\<close>

section \<open>Drivers that follow the dynamic oracle\<close>

inductive dyn_reachable :: "token list \<Rightarrow> config \<Rightarrow> bool" for s where
  init: "dyn_reachable s (get_initial_config s)"
| step: "dyn_reachable s c \<Longrightarrow> dynamic_oracle c (get_gold_config s) = Inr ts \<Longrightarrow> t \<in> set ts \<Longrightarrow>
         apply_transition c t = Ok c' \<Longrightarrow> dyn_reachable s c'"

function dyn_parse ::
  "(config \<Rightarrow> transition list \<Rightarrow> transition) \<Rightarrow> gold_config \<Rightarrow> config \<Rightarrow> config option" where
  "dyn_parse pick g c =
     (if is_finished c then Some c
      else
        (case dynamic_oracle c g of
           Inr ts \<Rightarrow>
             (if ts = [] then None
              else (case apply_transition c (pick c ts) of
                      Ok c' \<Rightarrow> dyn_parse pick g c'
                    | Raise e c' \<Rightarrow> None))
         | Inl e \<Rightarrow> None))"
  by pat_completeness auto
termination
  by (relation "measure (\<lambda>(pick, g, c). 2 * length (buffer c) + length (stack c))")
    (auto dest: apply_transition_measure)

declare dyn_parse.simps [simp del]

section \<open>Zero-cost transitions keep every gold arc reachable\<close>

lemma gold_arcs_image:
  "gold_arcs (get_gold_config s) = (\<lambda>x. (gold_head s x, x)) ` {0..<int (length s)}"
  by (auto simp: gold_arcs_gold)

lemma finite_gold_arcs: "finite (gold_arcs (get_gold_config s))"
  by (simp add: gold_arcs_image)

lemma finite_gold_filter: "finite (Set.filter P (gold_arcs (get_gold_config s)))"
  by (rule finite_filter[OF finite_gold_arcs])

lemma finite_lost:
  "finite (left_arc_lost c (get_gold_config s))" "finite (right_arc_lost c (get_gold_config s))"
  "finite (shift_lost c (get_gold_config s))" "finite (reduce_lost c (get_gold_config s))"
  unfolding left_arc_lost_def right_arc_lost_def shift_lost_def reduce_lost_def Let_def
  by (rule finite_gold_filter)+

lemma inv_unbuilt_head:
  assumes inv: "oracle_inv s c" and y: "0 \<le> y" "y < int (length s)"
    and nh: "\<not> has_head (arcs c) y" and ys: "y \<in> set (stack c)"
  shows "gold_head s y \<in> set (buffer c)"
proof -
  have g: "(gold_head s y, y) \<in> gold_arcs (get_gold_config s)" using y by (simp add: gold_mem)
  have "(gold_head s y, y) \<notin> set (arcs c)" using nh by (force simp: has_head_iff)
  then show ?thesis using inv_unbuilt[OF inv g] ys by auto
qed

lemma dyn_left_is_gold:
  assumes inv: "oracle_inv s c" and wft: "well_formed_tree s"
    and legal: "LEFT \<in> set (get_legal_transitions c)"
    and zero: "left_arc_cost c (get_gold_config s) = Inr 0"
  shows "hd (buffer c) = gold_head s (last (stack c))"
proof (rule ccontr)
  assume ng: "hd (buffer c) \<noteq> gold_head s (last (stack c))"
  let ?st = "last (stack c)"
  have wf: "wf_config c" and sc: "sentence c = s" using inv_wf[OF inv] by auto
  have l: "stack c \<noteq> []" "buffer c \<noteq> []" "?st \<noteq> ROOT" "\<not> has_head (arcs c) ?st"
    using legal by (simp_all add: legal_iff)
  have r: "0 \<le> ?st" "?st < int (length s)" using wf_top_range[OF wf l(3)] sc by auto
  have na: "(hd (buffer c), ?st) \<notin> gold_arcs (get_gold_config s)" using ng by (simp add: gold_mem)
  have hb: "gold_head s ?st \<in> set (buffer c)"
    using inv_unbuilt_head[OF inv r l(4)] l(1) by simp
  have "(gold_head s ?st, ?st) \<in> left_arc_lost c (get_gold_config s)"
    using hb r by (simp add: left_arc_lost_def Let_def gold_mem)
  then have "card (left_arc_lost c (get_gold_config s)) \<noteq> 0"
    using finite_lost(1)[of c s] by auto
  then show False
    using left_arc_cost_counts[OF wf sc wft l(2,3) na] zero by simp
qed


lemma dyn_right_is_gold:
  assumes inv: "oracle_inv s c" and wft: "well_formed_tree s"
    and legal: "RIGHT \<in> set (get_legal_transitions c)"
    and zero: "right_arc_cost c (get_gold_config s) = Inr 0"
  shows "last (stack c) = gold_head s (hd (buffer c))"
proof (rule ccontr)
  assume ng: "last (stack c) \<noteq> gold_head s (hd (buffer c))"
  let ?b = "hd (buffer c)"
  have wf: "wf_config c" and sc: "sentence c = s" using inv_wf[OF inv] by auto
  have l: "buffer c \<noteq> []" using legal by (simp add: legal_iff)
  have r: "0 \<le> ?b" "?b < int (length s)" using wf_hd_buffer_range[OF wf l] sc by auto
  have na: "(last (stack c), ?b) \<notin> gold_arcs (get_gold_config s)" using ng by (simp add: gold_mem)
  have g: "(gold_head s ?b, ?b) \<in> gold_arcs (get_gold_config s)" using r by (simp add: gold_mem)
  have "(gold_head s ?b, ?b) \<notin> set (arcs c)"
    using wf_buffer_no_head[OF wf] l by (force simp: has_head_iff)
  then have "gold_head s ?b \<in> set (stack c) \<union> set (buffer c)" using inv_unbuilt[OF inv g] by auto
  then have "(gold_head s ?b, ?b) \<in> right_arc_lost c (get_gold_config s)"
    using g by (simp add: right_arc_lost_def Let_def)
  then have "card (right_arc_lost c (get_gold_config s)) \<noteq> 0"
    using finite_lost(2)[of c s] by auto
  then show False
    using right_arc_cost_counts[OF wf sc wft l na] zero by simp
qed

lemma dyn_shift_no_arc:
  assumes inv: "oracle_inv s c" and wft: "well_formed_tree s"
    and legal: "SHIFT \<in> set (get_legal_transitions c)"
    and zero: "shift_cost c (get_gold_config s) = Inr 0"
  shows "\<forall>(x, y) \<in> gold_arcs (get_gold_config s).
           \<not> (x = hd (buffer c) \<and> y \<in> set (stack c)) \<and> \<not> (y = hd (buffer c) \<and> x \<in> set (stack c))"
proof -
  have wf: "wf_config c" and sc: "sentence c = s" using inv_wf[OF inv] by auto
  have l: "buffer c \<noteq> []" using legal by (simp add: legal_iff)
  have "card (shift_lost c (get_gold_config s)) = 0"
    using shift_cost_counts[OF wf sc wft l] zero by simp
  then have "shift_lost c (get_gold_config s) = {}"
    using finite_lost(3)[of c s] by simp
  then show ?thesis by (auto simp: shift_lost_def Let_def)
qed

lemma dyn_reduce_no_dep:
  assumes inv: "oracle_inv s c" and zero: "reduce_cost c (get_gold_config s) = Inr 0"
    and g: "(last (stack c), y) \<in> gold_arcs (get_gold_config s)"
    and nb: "(last (stack c), y) \<notin> set (arcs c)"
  shows False
proof -
  have wf: "wf_config c" using inv_wf[OF inv] by auto
  have sne: "stack c \<noteq> []" using wf by (simp add: wf_config_def)
  have "y \<in> set (buffer c)" using inv_unbuilt[OF inv g nb] sne by auto
  then have "(last (stack c), y) \<in> reduce_lost c (get_gold_config s)"
    using g by (simp add: reduce_lost_def)
  then have "card (reduce_lost c (get_gold_config s)) \<noteq> 0"
    using finite_lost(4)[of c s] by auto
  then show False
    using reduce_cost_counts[OF wf, of s] zero by simp
qed

lemma dyn_step_inv:
  assumes inv: "oracle_inv s c" and wft: "well_formed_tree s"
    and nc: "\<not> crossing_any (get_gold_config s)"
    and legal: "t \<in> set (get_legal_transitions c)"
    and zero: "transition_cost t c (get_gold_config s) = Inr 0"
    and ok: "apply_transition c t = Ok c'"
  shows "oracle_inv s c'"
proof (cases t)
  case LEFT
  have l: "buffer c \<noteq> []" "last (stack c) \<noteq> ROOT" using legal LEFT by (simp_all add: legal_iff)
  show ?thesis
    using oracle_step_left[OF inv wft nc l dyn_left_is_gold[OF inv wft]] legal zero ok LEFT by simp
next
  case RIGHT
  have l: "buffer c \<noteq> []" using legal RIGHT by (simp add: legal_iff)
  show ?thesis
    using oracle_step_right[OF inv wft nc l dyn_right_is_gold[OF inv wft]] legal zero ok RIGHT by simp
next
  case SHIFT
  have l: "buffer c \<noteq> []" using legal SHIFT by (simp add: legal_iff)
  show ?thesis
    using oracle_step_shift_gen[OF inv wft l dyn_shift_no_arc[OF inv wft]] legal zero ok SHIFT by simp
next
  case REDUCE
  have wf: "wf_config c" using inv_wf[OF inv] by auto
  have l: "has_head (arcs c) (last (stack c))" using legal REDUCE by (simp add: legal_iff)
  have nr: "last (stack c) \<noteq> ROOT" using l wf_no_head_root[OF wf] by auto
  show ?thesis
    using oracle_step_reduce_gen[OF inv nr l dyn_reduce_no_dep[OF inv]] zero ok REDUCE by simp
qed


lemma dyn_reachable_inv:
  assumes wft: "well_formed_tree s" and nc: "\<not> crossing_any (get_gold_config s)"
  shows "dyn_reachable s c \<Longrightarrow> oracle_inv s c"
proof (induction rule: dyn_reachable.induct)
  case init
  show ?case by (rule oracle_inv_init[OF wft])
next
  case (step c ts t c')
  have wf: "wf_config c" and sc: "sentence c = s" using inv_wf[OF step.IH] by auto
  have "t \<in> set (get_legal_transitions c)" "transition_cost t c (get_gold_config s) = Inr 0"
    using dynamic_oracle_mem[OF wf sc] step.hyps(2,3) by auto
  then show ?case using dyn_step_inv[OF step.IH wft nc] step.hyps(4) by blast
qed

lemma dyn_progress:
  assumes inv: "oracle_inv s c" and wft: "well_formed_tree s"
    and nc: "\<not> crossing_any (get_gold_config s)" and nf: "\<not> is_finished c"
  shows "\<exists>ts t c'. dynamic_oracle c (get_gold_config s) = Inr ts \<and> t \<in> set ts \<and>
           apply_transition c t = Ok c'"
proof -
  have wf: "wf_config c" and sc: "sentence c = s" using inv_wf[OF inv] by auto
  have legal: "oracle_choice s c \<in> set (get_legal_transitions c)"
    using oracle_step[OF inv wft nc nf] by blast
  obtain c' where ok: "apply_transition c (oracle_choice s c) = Ok c'"
    using legal_Ok[OF legal] by blast
  obtain ts where ts: "dynamic_oracle c (get_gold_config s) = Inr ts"
    "\<forall>t. t \<in> set ts \<longleftrightarrow> t \<in> set (get_legal_transitions c) \<and> transition_cost t c (get_gold_config s) = Inr 0"
    using dynamic_oracle_mem[OF wf sc] by blast
  have "oracle_choice s c \<in> set ts"
    using ts(2) legal oracle_choice_zero_cost[OF inv wft nc nf] by blast
  with ts(1) ok show ?thesis by blast
qed

section \<open>The dynamic-oracle driver\<close>

lemma dyn_parse_inv:
  "oracle_inv s c \<Longrightarrow> well_formed_tree s \<Longrightarrow> \<not> crossing_any (get_gold_config s) \<Longrightarrow>
   g = get_gold_config s \<Longrightarrow> \<forall>c ts. ts \<noteq> [] \<longrightarrow> pick c ts \<in> set ts \<Longrightarrow>
   \<exists>c'. dyn_parse pick g c = Some c' \<and> is_finished c' \<and> oracle_inv s c'"
proof (induction pick g c rule: dyn_parse.induct)
  case (1 pick g c)
  show ?case
  proof (cases "is_finished c")
    case True
    with "1.prems" show ?thesis by (subst dyn_parse.simps) simp
  next
    case False
    have wf: "wf_config c" and sc: "sentence c = s" using inv_wf[OF "1.prems"(1)] by auto
    obtain ts where ts: "dynamic_oracle c g = Inr ts"
      "\<forall>t. t \<in> set ts \<longleftrightarrow> t \<in> set (get_legal_transitions c) \<and> transition_cost t c g = Inr 0"
      using dynamic_oracle_mem[OF wf sc] "1.prems"(4) by blast
    have ne: "ts \<noteq> []"
      using dyn_progress[OF "1.prems"(1-3) False] ts(1) "1.prems"(4) by auto
    let ?t = "pick c ts"
    have mem: "?t \<in> set (get_legal_transitions c)" "transition_cost ?t c g = Inr 0"
      using "1.prems"(5) ne ts(2) by blast+
    obtain c' where ok: "apply_transition c ?t = Ok c'" using legal_Ok[OF mem(1)] by blast
    have inv': "oracle_inv s c'"
      using dyn_step_inv[OF "1.prems"(1-3) mem(1) _ ok] mem(2) "1.prems"(4) by simp
    have "\<exists>c''. dyn_parse pick g c' = Some c'' \<and> is_finished c'' \<and> oracle_inv s c''"
      using "1.IH"[OF False ts(1) ne ok] inv' "1.prems"(2-5) by blast
    moreover have "dyn_parse pick g c = dyn_parse pick g c'"
      by (subst dyn_parse.simps) (simp add: False ts(1) ne ok)
    ultimately show ?thesis by simp
  qed
qed

section \<open>Properties\<close>

text \<open>
  C21: every transition the dynamic oracle returns keeps every gold arc reachable. At every
  configuration a driver reaches by following the dynamic oracle on a well-formed tree
  without crossing arcs, all built arcs are gold; when the configuration is finished they
  are exactly the gold arcs; otherwise the oracle returns a transition that applies
  without raising, so such a driver never gets stuck.
\<close>

theorem dynamic_oracle_optimal:
  assumes wft: "well_formed_tree s" and nc: "\<not> crossing_any (get_gold_config s)"
    and dr: "dyn_reachable s c"
  shows "set (arcs c) \<subseteq> gold_arcs (get_gold_config s) \<and>
         (is_finished c \<longrightarrow> set (arcs c) = gold_arcs (get_gold_config s)) \<and>
         (\<not> is_finished c \<longrightarrow> (\<exists>ts t c'. dynamic_oracle c (get_gold_config s) = Inr ts \<and>
                                   t \<in> set ts \<and> apply_transition c t = Ok c'))"
proof -
  have inv: "oracle_inv s c" using dyn_reachable_inv[OF wft nc dr] .
  show ?thesis
    using inv inv_finished_gold[OF inv] dyn_progress[OF inv wft nc] by (simp add: oracle_inv_def)
qed

theorem dynamic_oracle_optimal_witness:
  "well_formed_tree spec_sentence \<and> \<not> crossing_any (get_gold_config spec_sentence) \<and>
   dyn_reachable spec_sentence (get_initial_config spec_sentence) \<and>
   set (arcs (get_initial_config spec_sentence)) \<subseteq> gold_arcs (get_gold_config spec_sentence) \<and>
   \<not> is_finished (get_initial_config spec_sentence) \<and>
   (\<exists>ts t c'. dynamic_oracle (get_initial_config spec_sentence) (get_gold_config spec_sentence) = Inr ts \<and>
             t \<in> set ts \<and> apply_transition (get_initial_config spec_sentence) t = Ok c')"
proof -
  have d: "dyn_reachable spec_sentence (get_initial_config spec_sentence)" by (rule dyn_reachable.init)
  have f: "\<not> is_finished (get_initial_config spec_sentence)" by (simp add: engine_eval)
  show ?thesis
    using dynamic_oracle_optimal[OF spec_sentence_tree spec_sentence_no_cross d]
      spec_sentence_tree spec_sentence_no_cross d f by blast
qed

text \<open>
  C2: training with exploration ends with the gold tree. For a well-formed tree with no
  crossing arcs, a driver that repeatedly applies any transition chosen from the
  dynamic oracle's list terminates, and the finished configuration holds exactly the
  gold arcs, whatever the chooser.
\<close>

theorem dynamic_oracle_parses_gold:
  assumes wft: "well_formed_tree s" and nc: "\<not> crossing_any (get_gold_config s)"
    and pick: "\<forall>c t ts. pick c (t # ts) \<in> set (t # ts)"
  shows "\<exists>c. dyn_parse pick (get_gold_config s) (get_initial_config s) = Some c \<and> is_finished c \<and>
             set (arcs c) = gold_arcs (get_gold_config s)"
proof -
  have p: "\<forall>c ts. ts \<noteq> [] \<longrightarrow> pick c ts \<in> set ts"
    using pick by (metis neq_Nil_conv)
  obtain c where c: "dyn_parse pick (get_gold_config s) (get_initial_config s) = Some c"
      "is_finished c" "oracle_inv s c"
    using dyn_parse_inv[OF oracle_inv_init[OF wft] wft nc refl p] by blast
  then show ?thesis using inv_finished_gold[OF c(3) c(2)] by blast
qed

theorem dynamic_oracle_parses_gold_witness:
  "well_formed_tree spec_sentence \<and> \<not> crossing_any (get_gold_config spec_sentence) \<and>
   (\<forall>(c :: config) t ts. last (t # ts) \<in> set (t # ts)) \<and>
   (\<exists>c. dyn_parse (\<lambda>c ts. last ts) (get_gold_config spec_sentence) (get_initial_config spec_sentence) = Some c \<and>
        is_finished c \<and> set (arcs c) = gold_arcs (get_gold_config spec_sentence))"
proof -
  have p: "\<forall>(c :: config) t ts. last (t # ts) \<in> set (t # ts)" by simp
  have "\<exists>c. dyn_parse (\<lambda>c ts. last ts) (get_gold_config spec_sentence) (get_initial_config spec_sentence) = Some c \<and>
        is_finished c \<and> set (arcs c) = gold_arcs (get_gold_config spec_sentence)"
    by (rule dynamic_oracle_parses_gold[OF spec_sentence_tree spec_sentence_no_cross]) (use p in simp)
  with spec_sentence_tree spec_sentence_no_cross p show ?thesis by (intro conjI)
qed

end
