(* ===== verification/Oracle_Trace.thy ===== *)
theory Oracle_Trace
  imports Static_Oracle
begin

text \<open>
  The static-oracle driver of spec section 8 recording the transitions it takes
  (\<open>oracle_trace\<close>): when the oracle-driven parse ends, the recorded sequence replayed
  through the engine (\<open>run\<close>) reaches the same configuration. Exploration uses it to
  turn a completed oracle parse into an explicit continuation.
\<close>

section \<open>The recorded driver\<close>

function oracle_trace :: "gold_config \<Rightarrow> config \<Rightarrow> transition list option" where
  "oracle_trace g c =
     (if is_finished c then Some []
      else
        (case static_oracle c g of
           Inr (Some [t]) \<Rightarrow>
             (if t \<in> set (get_legal_transitions c)
              then (case apply_transition c t of
                      Ok c' \<Rightarrow> map_option (Cons t) (oracle_trace g c')
                    | Raise e c' \<Rightarrow> None)
              else None)
         | _ \<Rightarrow> None))"
  by pat_completeness auto
termination
  by (relation "measure (\<lambda>(g, c). 2 * length (buffer c) + length (stack c))")
    (auto dest: apply_transition_measure)

declare oracle_trace.simps [simp del]

section \<open>Lemmas\<close>

lemma oracle_trace_run:
  "oracle_parse g c = Some c' \<Longrightarrow> \<exists>ts. oracle_trace g c = Some ts \<and> run c ts = Some c'"
proof (induction g c rule: oracle_parse.induct)
  case (1 g c)
  show ?case
  proof (cases "is_finished c")
    case True
    then show ?thesis using "1.prems" by (subst oracle_trace.simps) simp
  next
    case False
    then obtain t c1 where so: "static_oracle c g = Inr (Some [t])"
        and legal: "t \<in> set (get_legal_transitions c)" and ok: "apply_transition c t = Ok c1"
        and rest: "oracle_parse g c1 = Some c'"
      using "1.prems"
      by (auto split: sum.splits option.splits list.splits if_splits outcome.splits)
    obtain ts where ts: "oracle_trace g c1 = Some ts" "run c1 ts = Some c'"
      using "1.IH"[OF False so refl refl refl legal ok rest] by blast
    have "oracle_trace g c = Some (t # ts)"
      by (subst oracle_trace.simps) (simp add: False so legal ok ts(1))
    then show ?thesis using legal ok ts(2) by auto
  qed
qed

end
