(* ===== verification/Exploration.thy ===== *)
theory Exploration
  imports Dynamic_Oracle Oracle_Trace Runs
begin

text \<open>
  The specification defines the dynamic oracle's transitions as the legal transitions
  that do not make a gold arc permanently unreachable (spec section 4.3 and the glossary).
  This theory states that notion directly, as the existence of a continuation with the
  engine (\<open>run\<close>) that still finishes with the gold tree, and proves that
  \<open>dynamic_oracle\<close> of src/arc_eager.py returns exactly the legal transitions with that
  property on the exploration path, using \<open>frame\<close> and \<open>arc_lost\<close> of Runs.
\<close>

section \<open>A sentence for exploration off the oracle's path\<close>

text \<open>The chain \<open>0 \<leftarrow> 1 \<leftarrow> 2 \<leftarrow> ROOT\<close>.\<close>

definition chain_sentence :: "token list" where
  "chain_sentence = [tok 1, tok 2, tok ROOT]"

section \<open>Tokens that leave the stack or the buffer\<close>

lemma wf_top_gone:
  assumes wf: "wf_config c" and nr: "last (stack c) \<noteq> ROOT"
  shows "last (stack c) \<notin> set (butlast (stack c)) \<union> set (buffer c)"
proof -
  have ne: "stack c \<noteq> []" using wf by (simp add: wf_config_def)
  have "distinct (stack c)" using wf_stack_distinct[OF wf] .
  then have "last (stack c) \<notin> set (butlast (stack c))"
    using ne by (metis append_butlast_last_id distinct_append not_distinct_conv_prefix)
  moreover have "last (stack c) \<notin> set (buffer c)"
    using wf_stack_buffer_disjoint[OF wf] last_in_set[OF ne] by blast
  ultimately show ?thesis by blast
qed

lemma wf_front_gone:
  assumes wf: "wf_config c" and b: "buffer c \<noteq> []"
  shows "hd (buffer c) \<notin> set (tl (buffer c)) \<union> set (stack c)"
proof -
  have "distinct (buffer c)" using wf by (simp add: wf_config_def distinct_map)
  then have "hd (buffer c) \<notin> set (tl (buffer c))" using b by (cases "buffer c") auto
  moreover have "hd (buffer c) \<notin> set (stack c)"
    using wf_stack_buffer_disjoint[OF wf] b by auto
  ultimately show ?thesis by blast
qed

lemma inv_no_arc_buffer_to_stack:
  assumes inv: "oracle_inv s c" and d: "d \<in> set (stack c)" and b: "x \<in> set (buffer c)"
  shows "(x, d) \<notin> set (arcs c)"
proof
  assume a: "(x, d) \<in> set (arcs c)"
  have wf: "wf_config c" using inv_wf[OF inv] by auto
  have "\<forall>a \<in> set (arcs c). 0 \<le> snd a" using wf by (simp add: wf_config_def)
  then have d0: "0 \<le> d" using a by force
  obtain \<sigma> where st: "stack c = ROOT # \<sigma>" "\<forall>x \<in> set \<sigma>. 0 \<le> x \<and> x < int (consumed c)"
    using wf_stack_shape[OF wf] by blast
  have "d \<in> set (tl (stack c))" using d d0 st(1) by auto
  moreover have dl: "d < int (consumed c)" using calculation st by simp
  ultimately have "d \<in> set (tl (stack c))" by blast
  then have "x < d" using inv a by (auto simp: oracle_inv_def)
  moreover have "int (consumed c) \<le> x" using wf_mem_buffer[OF wf] b by auto
  ultimately show False using dl by simp
qed

lemma card_pos_member:
  "card A \<noteq> 0 \<Longrightarrow> \<exists>a. a \<in> A"
  by (metis card.empty ex_in_conv)

section \<open>A positive cost loses a gold arc for good\<close>

lemma left_cost_pos:
  assumes inv: "oracle_inv s c" and wft: "well_formed_tree s"
    and legal: "LEFT \<in> set (get_legal_transitions c)" and ok: "apply_transition c LEFT = Ok c'"
    and cost: "left_arc_cost c (get_gold_config s) = Inr k" and k: "k \<noteq> 0"
  shows "\<exists>a \<in> gold_arcs (get_gold_config s). arc_lost c' a"
proof -
  let ?g = "get_gold_config s" and ?st = "last (stack c)" and ?b = "hd (buffer c)"
  have wf: "wf_config c" and sc: "sentence c = s" using inv_wf[OF inv] by auto
  have l: "stack c \<noteq> []" "buffer c \<noteq> []" "?st \<noteq> ROOT" "\<not> has_head (arcs c) ?st"
    using legal by (simp_all add: legal_iff)
  have c': "c' = c\<lparr>stack := butlast (stack c), arcs := arcs c @ [(?b, ?st)]\<rparr>"
    using ok l by (simp add: apply_transition_Ok_iff del: apply_transition.simps)
  have na: "(?b, ?st) \<notin> gold_arcs ?g"
    using cost k l by (auto simp: left_arc_cost_def Let_def)
  have "card (left_arc_lost c ?g) \<noteq> 0"
    using left_arc_cost_counts[OF wf sc wft l(2,3) na] cost k by simp
  then obtain a where "a \<in> left_arc_lost c ?g" by (rule exE[OF card_pos_member])
  then obtain h d where m: "(h, d) \<in> gold_arcs ?g"
      "(d = ?st \<and> h \<in> set (buffer c)) \<or> (h = ?st \<and> d \<in> set (buffer c))"
    by (cases a) (auto simp: left_arc_lost_def Let_def)
  have gone: "?st \<notin> set (butlast (stack c)) \<union> set (buffer c)" using wf_top_gone[OF wf l(3)] .
  have bst: "?b \<noteq> ?st" using gone l(2) by (metis UnCI list.set_sel(1))
  have "(h, d) \<notin> set (arcs c)"
    using m l(4) wf_buffer_no_head[OF wf] by (force simp: has_head_iff)
  moreover have "(h, d) \<noteq> (?b, ?st)" using m na bst by auto
  ultimately show ?thesis
    using m gone by (auto simp: arc_lost_def c')
qed


lemma right_cost_pos:
  assumes inv: "oracle_inv s c" and wft: "well_formed_tree s"
    and legal: "RIGHT \<in> set (get_legal_transitions c)" and ok: "apply_transition c RIGHT = Ok c'"
    and cost: "right_arc_cost c (get_gold_config s) = Inr k" and k: "k \<noteq> 0"
  shows "\<exists>a \<in> gold_arcs (get_gold_config s). arc_lost c' a"
proof -
  let ?g = "get_gold_config s" and ?st = "last (stack c)" and ?b = "hd (buffer c)"
  have wf: "wf_config c" and sc: "sentence c = s" using inv_wf[OF inv] by auto
  have l: "stack c \<noteq> []" "buffer c \<noteq> []" "?b \<noteq> ROOT" "\<not> has_head (arcs c) ?b"
    using legal by (simp_all add: legal_iff)
  have c': "c' = c\<lparr>buffer := tl (buffer c), stack := stack c @ [?b], arcs := arcs c @ [(?st, ?b)]\<rparr>"
    using ok l by (simp add: apply_transition_Ok_iff del: apply_transition.simps)
  have na: "(?st, ?b) \<notin> gold_arcs ?g"
    using cost k l by (auto simp: right_arc_cost_def Let_def)
  have "card (right_arc_lost c ?g) \<noteq> 0"
    using right_arc_cost_counts[OF wf sc wft l(2) na] cost k by simp
  then obtain a where "a \<in> right_arc_lost c ?g" by (rule exE[OF card_pos_member])
  then obtain h d where m: "(h, d) \<in> gold_arcs ?g"
      "(d = ?b \<and> h \<in> set (stack c) \<union> set (buffer c)) \<or> (h = ?b \<and> d \<in> set (stack c))"
    by (cases a) (auto simp: right_arc_lost_def Let_def)
  have gone: "?b \<notin> set (tl (buffer c)) \<union> set (stack c)" using wf_front_gone[OF wf l(2)] .
  have dj: "set (stack c) \<inter> set (buffer c) = {}" using wf_stack_buffer_disjoint[OF wf] .
  have tl: "set (tl (buffer c)) \<subseteq> set (buffer c)" by (simp add: list.set_sel(2) subsetI l(2))
  have "(h, d) \<notin> set (arcs c)"
    using m l(4) inv_no_arc_buffer_to_stack[OF inv, of d ?b] l(2) by (force simp: has_head_iff)
  moreover have "(h, d) \<noteq> (?st, ?b)" using m na gone l(1) by auto
  ultimately show ?thesis
    using m gone dj tl by (auto simp: arc_lost_def c' has_head_iff)
qed

lemma shift_cost_pos:
  assumes inv: "oracle_inv s c" and wft: "well_formed_tree s"
    and legal: "SHIFT \<in> set (get_legal_transitions c)" and ok: "apply_transition c SHIFT = Ok c'"
    and cost: "shift_cost c (get_gold_config s) = Inr k" and k: "k \<noteq> 0"
  shows "\<exists>a \<in> gold_arcs (get_gold_config s). arc_lost c' a"
proof -
  let ?g = "get_gold_config s" and ?b = "hd (buffer c)"
  have wf: "wf_config c" and sc: "sentence c = s" using inv_wf[OF inv] by auto
  have l: "buffer c \<noteq> []" using legal by (simp add: legal_iff)
  have c': "c' = c\<lparr>buffer := tl (buffer c), stack := stack c @ [?b]\<rparr>"
    using ok l by (simp add: apply_transition_Ok_iff del: apply_transition.simps)
  have "card (shift_lost c ?g) \<noteq> 0"
    using shift_cost_counts[OF wf sc wft l] cost k by simp
  then obtain a where "a \<in> shift_lost c ?g" by (rule exE[OF card_pos_member])
  then obtain h d where m: "(h, d) \<in> gold_arcs ?g"
      "(d = ?b \<and> h \<in> set (stack c)) \<or> (h = ?b \<and> d \<in> set (stack c))"
    by (cases a) (auto simp: shift_lost_def Let_def)
  have gone: "?b \<notin> set (tl (buffer c)) \<union> set (stack c)" using wf_front_gone[OF wf l] .
  have dj: "set (stack c) \<inter> set (buffer c) = {}" using wf_stack_buffer_disjoint[OF wf] .
  have tl: "set (tl (buffer c)) \<subseteq> set (buffer c)" by (simp add: list.set_sel(2) subsetI l)
  have "(h, d) \<notin> set (arcs c)"
    using m wf_buffer_no_head[OF wf] inv_no_arc_buffer_to_stack[OF inv, of d ?b] l
    by (force simp: has_head_iff)
  then show ?thesis
    using m gone dj tl by (auto simp: arc_lost_def c')
qed

lemma reduce_cost_pos:
  assumes inv: "oracle_inv s c"
    and legal: "REDUCE \<in> set (get_legal_transitions c)" and ok: "apply_transition c REDUCE = Ok c'"
    and cost: "reduce_cost c (get_gold_config s) = Inr k" and k: "k \<noteq> 0"
  shows "\<exists>a \<in> gold_arcs (get_gold_config s). arc_lost c' a"
proof -
  let ?g = "get_gold_config s" and ?st = "last (stack c)"
  have wf: "wf_config c" using inv_wf[OF inv] by auto
  have l: "stack c \<noteq> []" "has_head (arcs c) ?st" using legal by (simp_all add: legal_iff)
  have nr: "?st \<noteq> ROOT" using l(2) wf_no_head_root[OF wf] by auto
  have c': "c' = c\<lparr>stack := butlast (stack c)\<rparr>"
    using ok l by (simp add: apply_transition_Ok_iff del: apply_transition.simps)
  have "card (reduce_lost c ?g) \<noteq> 0"
    using reduce_cost_counts[OF wf, of s] cost k by simp
  then obtain a where "a \<in> reduce_lost c ?g" by (rule exE[OF card_pos_member])
  then obtain h d where m: "(h, d) \<in> gold_arcs ?g" "h = ?st" "d \<in> set (buffer c)"
    by (cases a) (auto simp: reduce_lost_def Let_def)
  have gone: "?st \<notin> set (butlast (stack c)) \<union> set (buffer c)" using wf_top_gone[OF wf nr] .
  have "(h, d) \<notin> set (arcs c)"
    using m wf_buffer_no_head[OF wf] by (force simp: has_head_iff)
  then show ?thesis
    using m gone by (auto simp: arc_lost_def c')
qed


lemma positive_cost_loses_arc:
  assumes inv: "oracle_inv s c" and wft: "well_formed_tree s"
    and legal: "t \<in> set (get_legal_transitions c)" and ok: "apply_transition c t = Ok c'"
    and cost: "transition_cost t c (get_gold_config s) = Inr k" and k: "k \<noteq> 0"
  shows "\<exists>a \<in> gold_arcs (get_gold_config s). arc_lost c' a"
  using assms left_cost_pos right_cost_pos shift_cost_pos reduce_cost_pos
  by (cases t) simp_all

lemma zero_cost_completes:
  assumes inv: "oracle_inv s c" and wft: "well_formed_tree s"
    and nc: "\<not> crossing_any (get_gold_config s)"
    and legal: "t \<in> set (get_legal_transitions c)" and ok: "apply_transition c t = Ok c'"
    and zero: "transition_cost t c (get_gold_config s) = Inr 0"
  shows "\<exists>tr c''. run c' tr = Some c'' \<and> is_finished c'' \<and>
           set (arcs c'') = gold_arcs (get_gold_config s)"
proof -
  have inv': "oracle_inv s c'" using dyn_step_inv[OF inv wft nc legal zero ok] .
  obtain c'' where c'': "oracle_parse (get_gold_config s) c' = Some c''" "is_finished c''"
      "oracle_inv s c''"
    using oracle_parse_inv[OF inv' wft nc refl] by blast
  obtain tr where "run c' tr = Some c''" using oracle_trace_run[OF c''(1)] by blast
  then show ?thesis using c''(2) inv_finished_gold[OF c''(3) c''(2)] by blast
qed

section \<open>Properties\<close>

text \<open>
  C3: the dynamic oracle is exact. At every configuration on the exploration path of a
  well-formed tree without crossing arcs, a legal transition is among those
  \<open>dynamic_oracle\<close> returns exactly when, after it, some sequence of transitions still
  reaches a finished configuration with exactly the gold arcs. Zero cost (the code's
  counts) coincides with the specification's "no gold arc becomes unreachable".
\<close>

theorem dynamic_oracle_exact:
  assumes wft: "well_formed_tree s" and nc: "\<not> crossing_any (get_gold_config s)"
    and dr: "dyn_reachable s c"
    and legal: "t \<in> set (get_legal_transitions c)" and ok: "apply_transition c t = Ok c'"
  shows "(\<exists>ts. dynamic_oracle c (get_gold_config s) = Inr ts \<and> t \<in> set ts) \<longleftrightarrow>
         (\<exists>tr c''. run c' tr = Some c'' \<and> is_finished c'' \<and>
                   set (arcs c'') = gold_arcs (get_gold_config s))"
proof -
  let ?g = "get_gold_config s"
  have inv: "oracle_inv s c" using dyn_reachable_inv[OF wft nc dr] .
  have wf: "wf_config c" and sc: "sentence c = s" using inv_wf[OF inv] by auto
  obtain ts where ts: "dynamic_oracle c ?g = Inr ts"
      "\<forall>t. t \<in> set ts \<longleftrightarrow> t \<in> set (get_legal_transitions c) \<and> transition_cost t c ?g = Inr 0"
    using dynamic_oracle_mem[OF wf sc] by blast
  obtain k where k: "transition_cost t c ?g = Inr k" using legal_cost_Inr[OF wf sc legal] by blast
  show ?thesis
  proof
    assume "\<exists>ts. dynamic_oracle c ?g = Inr ts \<and> t \<in> set ts"
    then have "transition_cost t c ?g = Inr 0" using ts by auto
    then show "\<exists>tr c''. run c' tr = Some c'' \<and> is_finished c'' \<and> set (arcs c'') = gold_arcs ?g"
      using zero_cost_completes[OF inv wft nc legal ok] by blast
  next
    assume "\<exists>tr c''. run c' tr = Some c'' \<and> is_finished c'' \<and> set (arcs c'') = gold_arcs ?g"
    then obtain tr c'' where r: "run c' tr = Some c''" "set (arcs c'') = gold_arcs ?g" by blast
    have "k = 0"
    proof (rule ccontr)
      assume "k \<noteq> 0"
      then obtain a where "a \<in> gold_arcs ?g" "arc_lost c' a"
        using positive_cost_loses_arc[OF inv wft legal ok k] by blast
      then show False using lost_never_built[OF run_frame[OF r(1)]] r(2) by blast
    qed
    then show "\<exists>ts. dynamic_oracle c ?g = Inr ts \<and> t \<in> set ts" using ts k legal by auto
  qed
qed

theorem dynamic_oracle_exact_witness:
  "well_formed_tree spec_sentence \<and> \<not> crossing_any (get_gold_config spec_sentence) \<and>
   dyn_reachable spec_sentence (get_initial_config spec_sentence) \<and>
   SHIFT \<in> set (get_legal_transitions (get_initial_config spec_sentence)) \<and>
   RIGHT \<in> set (get_legal_transitions (get_initial_config spec_sentence)) \<and>
   apply_transition (get_initial_config spec_sentence) SHIFT =
     Ok \<lparr>arcs = [], stack = [ROOT, 0], buffer = [1, 2], sentence = spec_sentence\<rparr> \<and>
   apply_transition (get_initial_config spec_sentence) RIGHT =
     Ok \<lparr>arcs = [(ROOT, 0)], stack = [ROOT, 0], buffer = [1, 2], sentence = spec_sentence\<rparr> \<and>
   (\<exists>tr c''. run \<lparr>arcs = [], stack = [ROOT, 0], buffer = [1, 2], sentence = spec_sentence\<rparr> tr = Some c'' \<and>
      is_finished c'' \<and> set (arcs c'') = gold_arcs (get_gold_config spec_sentence)) \<and>
   \<not> (\<exists>tr c''. run \<lparr>arcs = [(ROOT, 0)], stack = [ROOT, 0], buffer = [1, 2], sentence = spec_sentence\<rparr> tr = Some c'' \<and>
      is_finished c'' \<and> set (arcs c'') = gold_arcs (get_gold_config spec_sentence))"
proof -
  let ?c = "get_initial_config spec_sentence" and ?g = "get_gold_config spec_sentence"
  have d: "dyn_reachable spec_sentence ?c" by (rule dyn_reachable.init)
  have ls: "SHIFT \<in> set (get_legal_transitions ?c)" "RIGHT \<in> set (get_legal_transitions ?c)"
    by (simp_all add: engine_eval)
  have os: "apply_transition ?c SHIFT = Ok \<lparr>arcs = [], stack = [ROOT, 0], buffer = [1, 2], sentence = spec_sentence\<rparr>"
    and orr: "apply_transition ?c RIGHT =
      Ok \<lparr>arcs = [(ROOT, 0)], stack = [ROOT, 0], buffer = [1, 2], sentence = spec_sentence\<rparr>"
    by (simp_all add: engine_eval)
  have dyn: "dynamic_oracle ?c ?g = Inr [SHIFT]"
    by (simp add: dynamic_oracle_def right_arc_cost_def shift_cost_def lookup_head_def
        engine_eval gold_eval)
  note e = dynamic_oracle_exact[OF spec_sentence_tree spec_sentence_no_cross d]
  show ?thesis
    using e[OF ls(1) os] e[OF ls(2) orr] dyn spec_sentence_tree spec_sentence_no_cross d ls os orr
    by simp
qed


text \<open>
  C23: off the oracle's path the dynamic oracle misses zero-cost transitions. After one
  wrong RIGHT on the chain \<open>0 \<leftarrow> 1 \<leftarrow> 2 \<leftarrow> ROOT\<close>, token \<open>0\<close> has a head, so the gold
  arc \<open>(1, 0)\<close> is already lost. SHIFT is legal and loses nothing more: after it, LEFT,
  REDUCE, RIGHT, REDUCE finish with every other gold arc. Still \<open>shift_cost\<close> counts the
  lost dependent \<open>0\<close> of the buffer front on the stack, and \<open>dynamic_oracle\<close> returns only
  REDUCE, although the specification asks for all zero-cost legal transitions.
\<close>

theorem dynamic_oracle_rejects_zero_cost_shift:
  "reachable chain_sentence
     \<lparr>arcs = [(ROOT, 0)], stack = [ROOT, 0], buffer = [1, 2], sentence = chain_sentence\<rparr> \<and>
   dynamic_oracle \<lparr>arcs = [(ROOT, 0)], stack = [ROOT, 0], buffer = [1, 2], sentence = chain_sentence\<rparr>
     (get_gold_config chain_sentence) = Inr [REDUCE] \<and>
   SHIFT \<in> set (get_legal_transitions
     \<lparr>arcs = [(ROOT, 0)], stack = [ROOT, 0], buffer = [1, 2], sentence = chain_sentence\<rparr>) \<and>
   apply_transition \<lparr>arcs = [(ROOT, 0)], stack = [ROOT, 0], buffer = [1, 2], sentence = chain_sentence\<rparr> SHIFT =
     Ok \<lparr>arcs = [(ROOT, 0)], stack = [ROOT, 0, 1], buffer = [2], sentence = chain_sentence\<rparr> \<and>
   (1, 0) \<in> gold_arcs (get_gold_config chain_sentence) \<and> has_head [(ROOT, 0)] 0 \<and>
   run \<lparr>arcs = [(ROOT, 0)], stack = [ROOT, 0, 1], buffer = [2], sentence = chain_sentence\<rparr>
       [LEFT, REDUCE, RIGHT, REDUCE] =
     Some \<lparr>arcs = [(ROOT, 0), (2, 1), (ROOT, 2)], stack = [ROOT], buffer = [], sentence = chain_sentence\<rparr> \<and>
   is_finished \<lparr>arcs = [(ROOT, 0), (2, 1), (ROOT, 2)], stack = [ROOT], buffer = [], sentence = chain_sentence\<rparr> \<and>
   gold_arcs (get_gold_config chain_sentence) - {(1, 0)} \<subseteq> set [(ROOT, 0), (2, 1), (ROOT, 2)]"
proof -
  let ?c = "\<lparr>arcs = [(ROOT, 0)], stack = [ROOT, 0], buffer = [1, 2], sentence = chain_sentence\<rparr>"
  have r: "reachable chain_sentence ?c"
    by (rule reachable.step[OF reachable.init, of RIGHT]) (simp_all add: engine_eval chain_sentence_def)
  have d: "dynamic_oracle ?c (get_gold_config chain_sentence) = Inr [REDUCE]"
    by (simp add: dynamic_oracle_def left_arc_cost_def right_arc_cost_def shift_cost_def reduce_cost_def
        lookup_head_def engine_eval gold_eval chain_sentence_def)
  have g: "gold_arcs (get_gold_config chain_sentence) = {(1, 0), (2, 1), (ROOT, 2)}"
    by (auto simp: gold_eval chain_sentence_def)
  show ?thesis
    using r d g by (simp add: engine_eval)
qed

end
