(* ===== verification/Buildable.thy ===== *)
theory Buildable
  imports Exploration
begin

text \<open>
  Which gold arcs a run of the engine can still build, from any reachable configuration
  (on or off the oracle's path). \<open>not_lost_buildable\<close> gives, for a gold arc that
  \<open>arc_lost\<close> (Runs.thy) does not declare lost, an explicit transition sequence of
  \<open>ArcEager\<close> (src/arc_eager.py) that builds it: SHIFT and LEFT to skip buffer tokens,
  REDUCE and LEFT to pop the stack down to the head, then RIGHT or LEFT. Together with
  \<open>lost_never_built\<close> this characterises buildability exactly: \<open>arc_lost\<close> is
  "permanently unreachable", the notion the specification defines the oracle costs by.
\<close>

section \<open>Runs that build a given arc\<close>

lemma run_trans: "run c ts1 = Some c1 \<Longrightarrow> run c1 ts2 = Some c2 \<Longrightarrow> run c (ts1 @ ts2) = Some c2"
proof (induction ts1 arbitrary: c)
  case Nil
  then show ?case by simp
next
  case (Cons t ts)
  then show ?case by (auto split: if_splits outcome.splits)
qed

lemma has_head_append: "has_head (as @ new) d \<longleftrightarrow> has_head as d \<or> d \<in> snd ` set new"
  by (auto simp: has_head_iff)

lemma wf_stack_top_not_root:
  assumes wf: "wf_config c" and st: "stack c = pre @ x # up @ [z]"
  shows "z \<noteq> ROOT"
proof -
  obtain \<sigma> where s: "stack c = ROOT # \<sigma>" "\<forall>x \<in> set \<sigma>. 0 \<le> x \<and> x < int (consumed c)"
    using wf_stack_shape[OF wf] by blast
  have "z \<in> set \<sigma>" using s(1) st by (cases pre) auto
  then show ?thesis using s(2) by force
qed

lemma skip_front:
  assumes wf: "wf_config c" and b: "buffer c = b # b' # rest"
  shows "run c [SHIFT, LEFT] = Some (c\<lparr>buffer := b' # rest, arcs := arcs c @ [(b', b)]\<rparr>)"
proof -
  have b0: "0 \<le> b" using wf_mem_buffer[OF wf, of b] b by auto
  have nh: "\<not> has_head (arcs c) b" using wf_buffer_no_head[OF wf] b by simp
  let ?c1 = "c\<lparr>buffer := b' # rest, stack := stack c @ [b]\<rparr>"
  have l1: "SHIFT \<in> set (get_legal_transitions c)" using b by (simp add: legal_iff)
  have a1: "apply_transition c SHIFT = Ok ?c1" using b by (simp add: shift_def)
  have l2: "LEFT \<in> set (get_legal_transitions ?c1)" using b0 nh by (simp add: legal_iff)
  have a2: "apply_transition ?c1 LEFT = Ok (c\<lparr>buffer := b' # rest, arcs := arcs c @ [(b', b)]\<rparr>)"
    by (simp add: left_arc_def Let_def)
  show ?thesis using l1 a1 l2 a2 by simp
qed


lemma advance_to:
  assumes "reachable s c" and "buffer c = pre @ y # post"
  shows "\<exists>ts new. run c ts = Some (c\<lparr>buffer := y # post, arcs := arcs c @ new\<rparr>) \<and>
           snd ` set new \<subseteq> set pre"
  using assms
proof (induction pre arbitrary: c)
  case Nil
  then show ?case by (intro exI[of _ "[]"]) simp
next
  case (Cons b pre)
  let ?b' = "hd (pre @ y # post)"
  have bc: "buffer c = b # ?b' # tl (pre @ y # post)" using Cons.prems(2) by (cases pre) auto
  let ?c1 = "c\<lparr>buffer := ?b' # tl (pre @ y # post), arcs := arcs c @ [(?b', b)]\<rparr>"
  have r1: "run c [SHIFT, LEFT] = Some ?c1"
    using skip_front[OF reachable_wf[OF Cons.prems(1)] bc] .
  have reach: "reachable s ?c1" using run_reachable[OF Cons.prems(1) r1] .
  have "buffer ?c1 = pre @ y # post" by (cases pre) auto
  then obtain ts new where ts: "run ?c1 ts = Some (?c1\<lparr>buffer := y # post, arcs := arcs ?c1 @ new\<rparr>)"
      "snd ` set new \<subseteq> set pre"
    using Cons.IH[OF reach] by blast
  have "run c ([SHIFT, LEFT] @ ts) =
      Some (c\<lparr>buffer := y # post, arcs := arcs c @ ((?b', b) # new)\<rparr>)"
    using run_trans[OF r1 ts(1)] by simp
  moreover have "snd ` set ((?b', b) # new) \<subseteq> set (b # pre)" using ts(2) by auto
  ultimately show ?case by blast
qed

lemma pop_to:
  assumes "reachable s c" and "stack c = pre @ x # up" and "buffer c \<noteq> []"
  shows "\<exists>ts new. run c ts = Some (c\<lparr>stack := pre @ [x], arcs := arcs c @ new\<rparr>) \<and>
           snd ` set new \<subseteq> set up"
  using assms
proof (induction up arbitrary: c rule: rev_induct)
  case Nil
  then show ?case by (intro exI[of _ "[]"]) simp
next
  case (snoc z up)
  have wf: "wf_config c" using reachable_wf[OF snoc.prems(1)] .
  have nr: "z \<noteq> ROOT" using wf_stack_top_not_root[OF wf] snoc.prems(2) by simp
  have top: "last (stack c) = z" "butlast (stack c) = pre @ x # up"
    using snoc.prems(2) by (simp_all add: butlast_append)
  obtain t new1 where step: "t \<in> set (get_legal_transitions c)"
      "apply_transition c t = Ok (c\<lparr>stack := pre @ x # up, arcs := arcs c @ new1\<rparr>)"
      "snd ` set new1 \<subseteq> {z}"
  proof (cases "has_head (arcs c) z")
    case True
    then show ?thesis
      using that[of REDUCE "[]"] top snoc.prems(2) by (simp add: legal_iff reduce_def)
  next
    case False
    then show ?thesis
      using that[of LEFT "[(hd (buffer c), z)]"] top nr snoc.prems(2,3)
      by (simp add: legal_iff left_arc_def Let_def)
  qed
  let ?c1 = "c\<lparr>stack := pre @ x # up, arcs := arcs c @ new1\<rparr>"
  have r1: "run c [t] = Some ?c1" using step by simp
  have reach: "reachable s ?c1" using run_reachable[OF snoc.prems(1) r1] .
  obtain ts new where ts: "run ?c1 ts = Some (?c1\<lparr>stack := pre @ [x], arcs := arcs ?c1 @ new\<rparr>)"
      "snd ` set new \<subseteq> set up"
    using snoc.IH[OF reach] snoc.prems(3) by auto
  have "run c ([t] @ ts) = Some (c\<lparr>stack := pre @ [x], arcs := arcs c @ (new1 @ new)\<rparr>)"
    using run_trans[OF r1 ts(1)] by simp
  moreover have "snd ` set (new1 @ new) \<subseteq> set (up @ [z])" using ts(2) step(3) by auto
  ultimately show ?case by blast
qed


lemma wf_buffer_distinct: "wf_config c \<Longrightarrow> distinct (buffer c)"
  by (simp add: wf_config_def distinct_map)

lemma build_stack_buffer:
  assumes r: "reachable s c" and h: "h \<in> set (stack c)" and d: "d \<in> set (buffer c)"
    and nh: "\<not> has_head (arcs c) d"
  shows "\<exists>ts c'. run c ts = Some c' \<and> (h, d) \<in> set (arcs c')"
proof -
  have wf: "wf_config c" using reachable_wf[OF r] .
  obtain pre up where st: "stack c = pre @ h # up" using split_list[OF h] by blast
  have bne: "buffer c \<noteq> []" using d by auto
  obtain ts1 n1 where r1: "run c ts1 = Some (c\<lparr>stack := pre @ [h], arcs := arcs c @ n1\<rparr>)"
      and n1: "snd ` set n1 \<subseteq> set up"
    using pop_to[OF r st bne] by blast
  let ?c1 = "c\<lparr>stack := pre @ [h], arcs := arcs c @ n1\<rparr>"
  have reach1: "reachable s ?c1" using run_reachable[OF r r1] .
  obtain bp bq where bf: "buffer c = bp @ d # bq" using split_list[OF d] by blast
  obtain ts2 n2 where r2: "run ?c1 ts2 = Some (?c1\<lparr>buffer := d # bq, arcs := arcs ?c1 @ n2\<rparr>)"
      and n2: "snd ` set n2 \<subseteq> set bp"
    using advance_to[OF reach1, of bp d bq] bf by auto
  let ?c2 = "?c1\<lparr>buffer := d # bq, arcs := arcs ?c1 @ n2\<rparr>"
  have "d \<notin> set up" using wf_stack_buffer_disjoint[OF wf] st d by auto
  moreover have "d \<notin> set bp" using wf_buffer_distinct[OF wf] bf by auto
  ultimately have nh2: "\<not> has_head (arcs ?c2) d" using nh n1 n2 by (auto simp: has_head_append)
  have d0: "d \<noteq> ROOT" using wf_mem_buffer[OF wf, of d] d by auto
  have l3: "RIGHT \<in> set (get_legal_transitions ?c2)" using nh2 d0 by (simp add: legal_iff)
  have a3: "apply_transition ?c2 RIGHT =
      Ok (?c2\<lparr>buffer := bq, stack := pre @ [h, d], arcs := arcs ?c2 @ [(h, d)]\<rparr>)"
    by (simp add: right_arc_def)
  have "run c (ts1 @ ts2 @ [RIGHT]) =
      Some (?c2\<lparr>buffer := bq, stack := pre @ [h, d], arcs := arcs ?c2 @ [(h, d)]\<rparr>)"
    using run_trans[OF r1 run_trans[OF r2]] l3 a3 by simp
  then show ?thesis by fastforce
qed

lemma build_buffer_stack:
  assumes r: "reachable s c" and d: "d \<in> set (stack c)" and dr: "d \<noteq> ROOT"
    and h: "h \<in> set (buffer c)" and nh: "\<not> has_head (arcs c) d"
  shows "\<exists>ts c'. run c ts = Some c' \<and> (h, d) \<in> set (arcs c')"
proof -
  have wf: "wf_config c" using reachable_wf[OF r] .
  obtain pre up where st: "stack c = pre @ d # up" using split_list[OF d] by blast
  have bne: "buffer c \<noteq> []" using h by auto
  obtain ts1 n1 where r1: "run c ts1 = Some (c\<lparr>stack := pre @ [d], arcs := arcs c @ n1\<rparr>)"
      and n1: "snd ` set n1 \<subseteq> set up"
    using pop_to[OF r st bne] by blast
  let ?c1 = "c\<lparr>stack := pre @ [d], arcs := arcs c @ n1\<rparr>"
  have reach1: "reachable s ?c1" using run_reachable[OF r r1] .
  obtain bp bq where bf: "buffer c = bp @ h # bq" using split_list[OF h] by blast
  obtain ts2 n2 where r2: "run ?c1 ts2 = Some (?c1\<lparr>buffer := h # bq, arcs := arcs ?c1 @ n2\<rparr>)"
      and n2: "snd ` set n2 \<subseteq> set bp"
    using advance_to[OF reach1, of bp h bq] bf by auto
  let ?c2 = "?c1\<lparr>buffer := h # bq, arcs := arcs ?c1 @ n2\<rparr>"
  have "d \<notin> set up" using wf_stack_distinct[OF wf] st by auto
  moreover have "d \<notin> set bp" using wf_stack_buffer_disjoint[OF wf] bf d by auto
  ultimately have nh2: "\<not> has_head (arcs ?c2) d" using nh n1 n2 by (auto simp: has_head_append)
  have l3: "LEFT \<in> set (get_legal_transitions ?c2)" using nh2 dr by (simp add: legal_iff)
  have a3: "apply_transition ?c2 LEFT = Ok (?c2\<lparr>stack := pre, arcs := arcs ?c2 @ [(h, d)]\<rparr>)"
    by (simp add: left_arc_def Let_def)
  have "run c (ts1 @ ts2 @ [LEFT]) = Some (?c2\<lparr>stack := pre, arcs := arcs ?c2 @ [(h, d)]\<rparr>)"
    using run_trans[OF r1 run_trans[OF r2]] l3 a3 by simp
  then show ?thesis by fastforce
qed


lemma advance_shift:
  assumes r: "reachable s c" and bf: "buffer c = pre @ x # post"
  shows "\<exists>ts new. run c ts = Some (c\<lparr>buffer := post, stack := stack c @ [x], arcs := arcs c @ new\<rparr>) \<and>
           snd ` set new \<subseteq> set pre"
proof -
  obtain ts new where r1: "run c ts = Some (c\<lparr>buffer := x # post, arcs := arcs c @ new\<rparr>)"
      and n: "snd ` set new \<subseteq> set pre"
    using advance_to[OF r bf] by blast
  let ?c1 = "c\<lparr>buffer := x # post, arcs := arcs c @ new\<rparr>"
  let ?c2 = "c\<lparr>buffer := post, stack := stack c @ [x], arcs := arcs c @ new\<rparr>"
  have l: "SHIFT \<in> set (get_legal_transitions ?c1)" by (simp add: legal_iff)
  have a: "apply_transition ?c1 SHIFT = Ok ?c2" by (simp add: shift_def)
  have "run ?c1 [SHIFT] = Some ?c2" using l a by simp
  then have "run c (ts @ [SHIFT]) = Some ?c2" by (rule run_trans[OF r1])
  then show ?thesis using n by blast
qed

lemma build_buffer_buffer:
  assumes r: "reachable s c" and h: "h \<in> set (buffer c)" and d: "d \<in> set (buffer c)"
    and hd: "h \<noteq> d"
  shows "\<exists>ts c'. run c ts = Some c' \<and> (h, d) \<in> set (arcs c')"
proof -
  have wf: "wf_config c" using reachable_wf[OF r] .
  have dist: "distinct (buffer c)" using wf_buffer_distinct[OF wf] .
  have d0: "d \<noteq> ROOT" using wf_mem_buffer[OF wf, of d] d by auto
  obtain pre post where bf: "buffer c = pre @ h # post" using split_list[OF h] by blast
  show ?thesis
  proof (cases "d \<in> set post")
    case True
    obtain ts new where r1: "run c ts = Some (c\<lparr>buffer := post, stack := stack c @ [h], arcs := arcs c @ new\<rparr>)"
        and n: "snd ` set new \<subseteq> set pre"
      using advance_shift[OF r bf] by blast
    let ?c1 = "c\<lparr>buffer := post, stack := stack c @ [h], arcs := arcs c @ new\<rparr>"
    have "d \<notin> set pre" using dist bf True by auto
    then have nh: "\<not> has_head (arcs ?c1) d"
      using wf_buffer_no_head[OF wf d] n by (auto simp: has_head_append)
    have "\<exists>ts c'. run ?c1 ts = Some c' \<and> (h, d) \<in> set (arcs c')"
      by (rule build_stack_buffer[OF run_reachable[OF r r1]]) (use True nh in simp_all)
    then show ?thesis using run_trans[OF r1] by blast
  next
    case False
    then have "d \<in> set pre" using d bf hd by auto
    then obtain p1 p2 where pre: "pre = p1 @ d # p2" using split_list[of d pre] by blast
    have bf2: "buffer c = p1 @ d # (p2 @ h # post)" using bf pre by simp
    obtain ts new where r1: "run c ts =
        Some (c\<lparr>buffer := p2 @ h # post, stack := stack c @ [d], arcs := arcs c @ new\<rparr>)"
        and n: "snd ` set new \<subseteq> set p1"
      using advance_shift[OF r bf2] by blast
    let ?c1 = "c\<lparr>buffer := p2 @ h # post, stack := stack c @ [d], arcs := arcs c @ new\<rparr>"
    have "d \<notin> set p1" using dist bf2 by auto
    then have nh: "\<not> has_head (arcs ?c1) d"
      using wf_buffer_no_head[OF wf d] n by (auto simp: has_head_append)
    have "\<exists>ts c'. run ?c1 ts = Some c' \<and> (h, d) \<in> set (arcs c')"
      by (rule build_buffer_stack[OF run_reachable[OF r r1]]) (use d0 nh in simp_all)
    then show ?thesis using run_trans[OF r1] by blast
  qed
qed

lemma not_lost_buildable:
  assumes r: "reachable s c" and wft: "well_formed_tree s"
    and g: "(h, d) \<in> gold_arcs (get_gold_config s)"
    and nl: "\<not> arc_lost c (h, d)"
  shows "\<exists>ts c'. run c ts = Some c' \<and> (h, d) \<in> set (arcs c')"
proof -
  have wf: "wf_config c" using reachable_wf[OF r] .
  have dj: "set (stack c) \<inter> set (buffer c) = {}" using wf_stack_buffer_disjoint[OF wf] .
  have d0: "d \<noteq> ROOT" using g by (auto simp: gold_mem)
  have hd: "h \<noteq> d" using gold_no_self[OF wft g] .
  show "\<exists>ts c'. run c ts = Some c' \<and> (h, d) \<in> set (arcs c')"
  proof (cases "(h, d) \<in> set (arcs c)")
    case True
    then show ?thesis by (intro exI[of _ "[]"]) simp
  next
    case False
    then have u: "h \<in> set (buffer c) \<or> d \<in> set (buffer c)"
        "h \<in> set (stack c) \<union> set (buffer c)" "d \<in> set (stack c) \<union> set (buffer c)"
        "\<not> has_head (arcs c) d"
      using nl by (auto simp: arc_lost_def)
    consider (S) "h \<in> set (stack c)" | (D) "d \<in> set (stack c)"
      | (B) "h \<in> set (buffer c)" "d \<in> set (buffer c)"
      using u(2,3) by blast
    then show ?thesis
    proof cases
      case S
      then have "d \<in> set (buffer c)" using u(1) dj by blast
      then show ?thesis using build_stack_buffer[OF r S _ u(4)] by blast
    next
      case D
      then have "h \<in> set (buffer c)" using u(1) dj by blast
      then show ?thesis using build_buffer_stack[OF r D d0 _ u(4)] by blast
    next
      case B
      then show ?thesis using build_buffer_buffer[OF r B hd] by blast
    qed
  qed
qed

section \<open>Properties\<close>

text \<open>
  C5: buildability of a gold arc, exactly. From a configuration reachable by legal
  transitions, a gold arc can be built by some further run of the engine if and only if
  it is not lost: it is built already, or its dependent has no head yet, both its ends are
  still on the stack or in the buffer, and one of them is in the buffer. The sentence only
  needs to be a well-formed tree; crossing arcs are allowed.
\<close>

theorem arc_buildable_iff:
  assumes r: "reachable s c" and wft: "well_formed_tree s"
    and g: "(h, d) \<in> gold_arcs (get_gold_config s)"
  shows "(\<exists>ts c'. run c ts = Some c' \<and> (h, d) \<in> set (arcs c')) \<longleftrightarrow> \<not> arc_lost c (h, d)"
proof
  assume "\<exists>ts c'. run c ts = Some c' \<and> (h, d) \<in> set (arcs c')"
  then show "\<not> arc_lost c (h, d)" using lost_never_built[OF run_frame] by blast
next
  assume "\<not> arc_lost c (h, d)"
  then show "\<exists>ts c'. run c ts = Some c' \<and> (h, d) \<in> set (arcs c')"
    using not_lost_buildable[OF r wft g] by blast
qed

theorem arc_buildable_iff_witness:
  "reachable spec_sentence (get_initial_config spec_sentence) \<and> well_formed_tree spec_sentence \<and>
   (1, 0) \<in> gold_arcs (get_gold_config spec_sentence) \<and>
   \<not> arc_lost (get_initial_config spec_sentence) (1, 0) \<and>
   (\<exists>ts c'. run (get_initial_config spec_sentence) ts = Some c' \<and> (1, 0) \<in> set (arcs c')) \<and>
   reachable spec_sentence \<lparr>arcs = [(ROOT, 0)], stack = [ROOT, 0], buffer = [1, 2], sentence = spec_sentence\<rparr> \<and>
   arc_lost \<lparr>arcs = [(ROOT, 0)], stack = [ROOT, 0], buffer = [1, 2], sentence = spec_sentence\<rparr> (1, 0) \<and>
   \<not> (\<exists>ts c'. run \<lparr>arcs = [(ROOT, 0)], stack = [ROOT, 0], buffer = [1, 2], sentence = spec_sentence\<rparr> ts
          = Some c' \<and> (1, 0) \<in> set (arcs c'))"
proof -
  let ?c0 = "get_initial_config spec_sentence"
  let ?c1 = "\<lparr>arcs = [(ROOT, 0)], stack = [ROOT, 0], buffer = [1, 2], sentence = spec_sentence\<rparr>"
  have r0: "reachable spec_sentence ?c0" by (rule reachable.init)
  have r1: "reachable spec_sentence ?c1"
    by (rule reachable.step[OF reachable.init, of RIGHT]) (simp_all add: engine_eval)
  have g: "(1, 0) \<in> gold_arcs (get_gold_config spec_sentence)"
    by (simp add: gold_mem gold_head_def spec_sentence_def tok_def)
  have n0: "\<not> arc_lost ?c0 (1, 0)" by (simp add: arc_lost_def engine_eval)
  have l1: "arc_lost ?c1 (1, 0)" by (simp add: arc_lost_def has_head_def)
  show ?thesis
    using arc_buildable_iff[OF r0 spec_sentence_tree g] arc_buildable_iff[OF r1 spec_sentence_tree g]
      r0 r1 g n0 l1 spec_sentence_tree by blast
qed

end
