(* ===== verification/Soundness.thy ===== *)
theory Soundness
  imports Buildable
begin

text \<open>
  What one transition of \<open>ArcEager\<close> (src/arc_eager.py) does to the gold arcs that are
  not lost. \<open>newly_lost c c' g\<close> is the set of gold arcs a step from \<open>c\<close> to
  \<open>c'\<close> makes permanently unreachable (the specification's cost, spec section 4.3).
  For each transition, \<open>left_newly_lost\<close> .. \<open>reduce_newly_lost\<close> compute it at any
  reachable configuration as the set the cost function's docstring names, restricted to
  dependents that have no head yet and without the transition's own arc;
  \<open>left_gold_alone\<close> and \<open>right_gold_alone\<close> show by projectivity that the early
  \<open>return 0\<close> of LEFT and RIGHT loses nothing. Hence a zero-cost transition loses no
  arc anywhere (\<open>zero_cost_keeps\<close>), so a transition \<open>dynamic_oracle\<close> returns never
  makes a buildable gold arc unbuildable, and on the dynamic oracle's path each cost
  function returns exactly the number of arcs its transition loses.
\<close>

section \<open>Steps and the arcs they lose\<close>

definition newly_lost :: "config \<Rightarrow> config \<Rightarrow> gold_config \<Rightarrow> arc set" where
  "newly_lost c c' g = Set.filter (\<lambda>a. \<not> arc_lost c a \<and> arc_lost c' a) (gold_arcs g)"

definition stale_deps :: "config \<Rightarrow> gold_config \<Rightarrow> arc set" where
  "stale_deps c g =
     Set.filter (\<lambda>(h, d). h = hd (buffer c) \<and> d \<in> set (stack c) \<and> has_head (arcs c) d) (gold_arcs g)"

lemma no_inner_parent:
  assumes wft: "well_formed_tree s" and nc: "\<not> crossing_any (get_gold_config s)"
    and px: "(p, x) \<in> gold_arcs (get_gold_config s)" and xy: "(x, y) \<in> gold_arcs (get_gold_config s)"
    and between: "min x y < p" "p < max x y"
  shows False
proof -
  have x: "0 \<le> x" "x < int (length s)" "gold_head s x = p" using px by (auto simp: gold_mem)
  have y: "0 \<le> y" "y < int (length s)" "x = gold_head s y" using xy by (auto simp: gold_mem)
  have "p \<noteq> ROOT" using between x(1) y(1) by auto
  then have p: "0 \<le> p" "p < int (length s)"
    using rooted_head_range[OF wft_rooted[OF wft x(1,2)] x(1)] x(3) by auto
  have "(parent s)\<^sup>*\<^sup>* p x"
    using between_descends[OF nc y(1,2) y(3) wft_rooted[OF wft y(1,2)] wft_rooted[OF wft p] between] .
  moreover have "parent s x p" using x by (simp add: parent_def)
  ultimately show False using descends_cycle[OF wft x(1,2)] by blast
qed

lemma set_butlast_distinct: "distinct xs \<Longrightarrow> xs \<noteq> [] \<Longrightarrow> set (butlast xs) = set xs - {last xs}"
  by (induction xs rule: rev_induct) auto

lemma set_tl_distinct: "distinct xs \<Longrightarrow> xs \<noteq> [] \<Longrightarrow> set (tl xs) = set xs - {hd xs}"
  by (cases xs) auto

lemma unbuilt_not_lost:
  "(h, d) \<notin> set (arcs c) \<Longrightarrow> \<not> arc_lost c (h, d) \<longleftrightarrow>
     (h \<in> set (buffer c) \<or> d \<in> set (buffer c)) \<and> h \<in> set (stack c) \<union> set (buffer c) \<and>
     d \<in> set (stack c) \<union> set (buffer c) \<and> \<not> has_head (arcs c) d"
  by (auto simp: arc_lost_def)


lemma stack_below_buffer:
  "wf_config c \<Longrightarrow> x \<in> set (stack c) \<Longrightarrow> x \<noteq> ROOT \<Longrightarrow> y \<in> set (buffer c) \<Longrightarrow> x < y"
  using wf_mem_stack[of c x] wf_mem_buffer[of c y] by auto

lemma cost_zero_empty:
  assumes "x = Inr (int (card A))" "x = Inr 0" "finite A" shows "A = {}"
proof -
  have "int (card A) = 0" using assms(1,2) by simp
  then show ?thesis using assms(3) by simp
qed

lemma mem_butlast: "x \<in> set xs \<Longrightarrow> x \<noteq> last xs \<Longrightarrow> x \<in> set (butlast xs)"
  by (induction xs) auto

lemma sorted_wrt_below_last: "sorted_wrt (<) xs \<Longrightarrow> x \<in> set (butlast xs) \<Longrightarrow> x < last xs"
  by (induction xs rule: rev_induct) (auto simp: sorted_wrt_append)

lemma stack_below_top:
  assumes wf: "wf_config c" and x: "x \<in> set (stack c)" and nt: "x \<noteq> last (stack c)"
  shows "x < last (stack c)"
proof -
  obtain \<sigma> where s: "stack c = ROOT # \<sigma>" "sorted_wrt (<) \<sigma>" "\<forall>x \<in> set \<sigma>. 0 \<le> x \<and> x < int (consumed c)"
    by (rule wf_stack_shape[OF wf])
  have ne: "\<sigma> \<noteq> []" using x nt s(1) by auto
  then have l: "last (stack c) = last \<sigma>" "0 \<le> last \<sigma>" using s(1,3) by auto
  show ?thesis
  proof (cases "x = ROOT")
    case True
    then show ?thesis using l by simp
  next
    case False
    then have "x \<in> set \<sigma>" using x s(1) by simp
    then have "x \<in> set (butlast \<sigma>)" using mem_butlast nt l(1) by simp
    then show ?thesis using sorted_wrt_below_last[OF s(2)] l(1) by simp
  qed
qed

lemma gold_antisym:
  assumes wft: "well_formed_tree s" and xy: "(x, y) \<in> gold_arcs (get_gold_config s)"
    and yx: "(y, x) \<in> gold_arcs (get_gold_config s)"
  shows False
proof -
  have a1: "0 \<le> y" "y < int (length s)" "gold_head s y = x" using xy by (simp_all add: gold_mem)
  have a2: "0 \<le> x" "x < int (length s)" "gold_head s x = y" using yx by (simp_all add: gold_mem)
  show False using gold_no_2cycle[OF wft a1(1,2) a2(1,2) a1(3) a2(3)] .
qed

lemma gold_unique_head:
  "(h, d) \<in> gold_arcs (get_gold_config s) \<Longrightarrow> (h', d) \<in> gold_arcs (get_gold_config s) \<Longrightarrow> h = h'"
  by (simp add: gold_mem)


lemma not_lost_dep:
  "\<not> arc_lost c (h, d) \<Longrightarrow> (h, d) \<notin> set (arcs c) \<Longrightarrow> \<not> has_head (arcs c) d"
  by (simp add: arc_lost_def)

lemma lost_gone:
  "(h, d) \<notin> set (arcs c) \<Longrightarrow> h \<notin> set (stack c) \<union> set (buffer c) \<or> d \<notin> set (stack c) \<union> set (buffer c) \<Longrightarrow>
   arc_lost c (h, d)"
  by (auto simp: arc_lost_def)

subsection \<open>LEFT\<close>

lemma left_step:
  assumes r: "reachable s c" and legal: "LEFT \<in> set (get_legal_transitions c)"
    and ok: "apply_transition c LEFT = Ok c'"
  shows "stack c' = butlast (stack c)" "buffer c' = buffer c"
    "arcs c' = arcs c @ [(hd (buffer c), last (stack c))]"
    "set (stack c') = set (stack c) - {last (stack c)}"
    "last (stack c) \<notin> set (buffer c)" "last (stack c) \<in> set (stack c)" "hd (buffer c) \<in> set (buffer c)"
    "last (stack c) \<noteq> ROOT" "\<not> has_head (arcs c) (last (stack c))"
proof -
  have wf: "wf_config c" using reachable_wf[OF r] .
  have l: "stack c \<noteq> []" "buffer c \<noteq> []" "last (stack c) \<noteq> ROOT" "\<not> has_head (arcs c) (last (stack c))"
    using legal by (simp_all add: legal_iff)
  have c': "c' = c\<lparr>stack := butlast (stack c), arcs := arcs c @ [(hd (buffer c), last (stack c))]\<rparr>"
    using ok l by (simp add: apply_transition_Ok_iff del: apply_transition.simps)
  show "stack c' = butlast (stack c)" "buffer c' = buffer c"
    "arcs c' = arcs c @ [(hd (buffer c), last (stack c))]" by (simp_all add: c')
  show "set (stack c') = set (stack c) - {last (stack c)}"
    using set_butlast_distinct[OF wf_stack_distinct[OF wf] l(1)] by (simp add: c')
  show "last (stack c) \<notin> set (buffer c)" using wf_top_gone[OF wf l(3)] by blast
  show "last (stack c) \<in> set (stack c)" "hd (buffer c) \<in> set (buffer c)" using l(1,2) by simp_all
  show "last (stack c) \<noteq> ROOT" "\<not> has_head (arcs c) (last (stack c))" using l(3,4) .
qed

lemma left_newly_lost:
  assumes r: "reachable s c" and legal: "LEFT \<in> set (get_legal_transitions c)"
    and ok: "apply_transition c LEFT = Ok c'"
  shows "newly_lost c c' (get_gold_config s) =
    left_arc_lost c (get_gold_config s) - {(hd (buffer c), last (stack c))}"
proof -
  let ?g = "get_gold_config s" and ?st = "last (stack c)" and ?b = "hd (buffer c)"
  note st = left_step[OF r legal ok]
  have wf: "wf_config c" using reachable_wf[OF r] .
  have keep: "\<not> arc_lost c' (h, d)" if nl: "\<not> arc_lost c (h, d)" and hs: "h \<noteq> ?st" and ds: "d \<noteq> ?st" for h d
  proof (cases "(h, d) \<in> set (arcs c)")
    case True
    then show ?thesis by (simp add: arc_lost_def st(3))
  next
    case False
    have nb: "(h, d) \<notin> set (arcs c')" using False ds by (simp add: st(3))
    show ?thesis using nl hs ds unfolding unbuilt_not_lost[OF False] unbuilt_not_lost[OF nb] st(2,3,4)
      by (auto simp: has_head_append)
  qed
  show ?thesis
  proof (intro set_eqI iffI)
    fix a assume a: "a \<in> newly_lost c c' ?g"
    obtain h d where hd: "a = (h, d)" by (cases a)
    have g: "(h, d) \<in> gold_arcs ?g" and nl: "\<not> arc_lost c (h, d)" and l': "arc_lost c' (h, d)"
      using a unfolding hd newly_lost_def by auto
    have nb: "(h, d) \<notin> set (arcs c)" using l' by (auto simp: arc_lost_def st(3))
    have ne: "(h, d) \<noteq> (?b, ?st)" using l' by (auto simp: arc_lost_def st(3))
    have "h = ?st \<or> d = ?st" using keep[OF nl] l' by blast
    moreover have "h \<in> set (buffer c) \<or> d \<in> set (buffer c)" using nl nb by (simp add: arc_lost_def)
    ultimately show "a \<in> left_arc_lost c ?g - {(?b, ?st)}"
      using g ne st(5) unfolding hd by (auto simp: left_arc_lost_def Let_def)
  next
    fix a assume a: "a \<in> left_arc_lost c ?g - {(?b, ?st)}"
    obtain h d where hd: "a = (h, d)" by (cases a)
    have g: "(h, d) \<in> gold_arcs ?g" and ne: "(h, d) \<noteq> (?b, ?st)"
      and e: "(d = ?st \<and> h \<in> set (buffer c)) \<or> (h = ?st \<and> d \<in> set (buffer c))"
      using a unfolding hd by (auto simp: left_arc_lost_def Let_def)
    have dh: "\<not> has_head (arcs c) d" using e st(9) wf_buffer_no_head[OF wf] by blast
    have nb: "(h, d) \<notin> set (arcs c)" using dh unfolding has_head_iff by (metis image_eqI snd_conv)
    have "\<not> arc_lost c (h, d)" unfolding unbuilt_not_lost[OF nb] using e st(6) dh by auto
    moreover have "arc_lost c' (h, d)"
      by (rule lost_gone) (use nb ne e st(5) in \<open>auto simp: st(2,3,4)\<close>)
    ultimately show "a \<in> newly_lost c c' ?g" using g unfolding hd newly_lost_def by simp
  qed
qed

lemma left_gold_alone:
  assumes r: "reachable s c" and wft: "well_formed_tree s" and nc: "\<not> crossing_any (get_gold_config s)"
    and legal: "LEFT \<in> set (get_legal_transitions c)"
    and g: "(hd (buffer c), last (stack c)) \<in> gold_arcs (get_gold_config s)"
  shows "left_arc_lost c (get_gold_config s) \<subseteq> {(hd (buffer c), last (stack c))}"
proof
  let ?g = "get_gold_config s" and ?st = "last (stack c)" and ?b = "hd (buffer c)"
  have wf: "wf_config c" using reachable_wf[OF r] .
  have l: "stack c \<noteq> []" "buffer c \<noteq> []" "?st \<noteq> ROOT" using legal by (simp_all add: legal_iff)
  fix a assume a: "a \<in> left_arc_lost c ?g"
  obtain h d where hd: "a = (h, d)" by (cases a)
  have ga: "(h, d) \<in> gold_arcs ?g"
    and e: "(d = ?st \<and> h \<in> set (buffer c)) \<or> (h = ?st \<and> d \<in> set (buffer c))"
    using a unfolding hd by (auto simp: left_arc_lost_def Let_def)
  have "(h, d) = (?b, ?st)"
  proof (cases "d = ?st")
    case True
    then show ?thesis using gold_unique_head[OF ga] g by simp
  next
    case False
    then have h: "h = ?st" and dB: "d \<in> set (buffer c)" using e by auto
    have "d \<noteq> ?b" using gold_antisym[OF wft g] ga h by blast
    then have "?b < d" using buffer_ge_hd[OF wf dB] by simp
    moreover have "?st < ?b" using stack_below_buffer[OF wf _ l(3)] l(1,2) by simp
    moreover have "(?st, d) \<in> gold_arcs ?g" using ga h by simp
    ultimately have False using no_inner_parent[OF wft nc g, of d] by (simp add: min_def max_def)
    then show ?thesis ..
  qed
  then show "a \<in> {(?b, ?st)}" using hd by simp
qed

lemma lost_no_buffer:
  "(h, d) \<notin> set (arcs c) \<Longrightarrow> h \<notin> set (buffer c) \<Longrightarrow> d \<notin> set (buffer c) \<Longrightarrow> arc_lost c (h, d)"
  by (simp add: arc_lost_def)

lemma lost_headed: "(h, d) \<notin> set (arcs c) \<Longrightarrow> has_head (arcs c) d \<Longrightarrow> arc_lost c (h, d)"
  by (simp add: arc_lost_def)

lemma unheaded_not_built: "\<not> has_head as d \<Longrightarrow> (h, d) \<notin> set as"
  unfolding has_head_iff by (metis image_eqI snd_conv)

subsection \<open>RIGHT\<close>

lemma right_step:
  assumes r: "reachable s c" and legal: "RIGHT \<in> set (get_legal_transitions c)"
    and ok: "apply_transition c RIGHT = Ok c'"
  shows "stack c' = stack c @ [hd (buffer c)]" "buffer c' = tl (buffer c)"
    "arcs c' = arcs c @ [(last (stack c), hd (buffer c))]"
    "set (buffer c') = set (buffer c) - {hd (buffer c)}"
    "hd (buffer c) \<notin> set (stack c)" "hd (buffer c) \<in> set (buffer c)" "last (stack c) \<in> set (stack c)"
    "\<not> has_head (arcs c) (hd (buffer c))" "set (stack c) \<inter> set (buffer c) = {}"
proof -
  have wf: "wf_config c" using reachable_wf[OF r] .
  have l: "stack c \<noteq> []" "buffer c \<noteq> []" using legal by (simp_all add: legal_iff)
  have c': "c' = c\<lparr>buffer := tl (buffer c), stack := stack c @ [hd (buffer c)],
      arcs := arcs c @ [(last (stack c), hd (buffer c))]\<rparr>"
    using ok l by (simp add: apply_transition_Ok_iff del: apply_transition.simps)
  show "stack c' = stack c @ [hd (buffer c)]" "buffer c' = tl (buffer c)"
    "arcs c' = arcs c @ [(last (stack c), hd (buffer c))]" by (simp_all add: c')
  show "set (buffer c') = set (buffer c) - {hd (buffer c)}"
    using set_tl_distinct[OF wf_buffer_distinct[OF wf] l(2)] by (simp add: c')
  show "hd (buffer c) \<notin> set (stack c)" using wf_front_gone[OF wf l(2)] by blast
  show "hd (buffer c) \<in> set (buffer c)" "last (stack c) \<in> set (stack c)" using l by simp_all
  show "\<not> has_head (arcs c) (hd (buffer c))" using wf_buffer_no_head[OF wf] l(2) by simp
  show "set (stack c) \<inter> set (buffer c) = {}" using wf_stack_buffer_disjoint[OF wf] .
qed

lemma right_newly_lost:
  assumes r: "reachable s c" and legal: "RIGHT \<in> set (get_legal_transitions c)"
    and ok: "apply_transition c RIGHT = Ok c'"
  shows "newly_lost c c' (get_gold_config s) =
    Set.filter (\<lambda>(h, d). \<not> has_head (arcs c) d) (right_arc_lost c (get_gold_config s)) -
      {(last (stack c), hd (buffer c))}"
proof -
  let ?g = "get_gold_config s" and ?st = "last (stack c)" and ?b = "hd (buffer c)"
  note st = right_step[OF r legal ok]
  have keep: "\<not> arc_lost c' (h, d)"
    if nl: "\<not> arc_lost c (h, d)" and db: "d \<noteq> ?b" and hb: "\<not> (h = ?b \<and> d \<in> set (stack c))" for h d
  proof (cases "(h, d) \<in> set (arcs c)")
    case True
    then show ?thesis by (simp add: arc_lost_def st(3))
  next
    case False
    have nb: "(h, d) \<notin> set (arcs c')" using False db by (simp add: st(3))
    show ?thesis using nl db hb st(6) unfolding unbuilt_not_lost[OF False] unbuilt_not_lost[OF nb] st(1,3,4)
      by (auto simp: has_head_append)
  qed
  show ?thesis
  proof (intro set_eqI iffI)
    fix a assume a: "a \<in> newly_lost c c' ?g"
    obtain h d where hd: "a = (h, d)" by (cases a)
    have g: "(h, d) \<in> gold_arcs ?g" and nl: "\<not> arc_lost c (h, d)" and l': "arc_lost c' (h, d)"
      using a unfolding hd newly_lost_def by auto
    have nb: "(h, d) \<notin> set (arcs c)" using l' by (auto simp: arc_lost_def st(3))
    have ne: "(h, d) \<noteq> (?st, ?b)" using l' by (auto simp: arc_lost_def st(3))
    have dh: "\<not> has_head (arcs c) d" using not_lost_dep[OF nl nb] .
    have "d = ?b \<or> (h = ?b \<and> d \<in> set (stack c))" using keep[OF nl] l' by blast
    moreover have "h \<in> set (stack c) \<union> set (buffer c)" using nl nb by (simp add: arc_lost_def)
    ultimately show "a \<in> Set.filter (\<lambda>(h, d). \<not> has_head (arcs c) d) (right_arc_lost c ?g) - {(?st, ?b)}"
      using g ne dh unfolding hd by (auto simp: right_arc_lost_def Let_def)
  next
    fix a assume a: "a \<in> Set.filter (\<lambda>(h, d). \<not> has_head (arcs c) d) (right_arc_lost c ?g) - {(?st, ?b)}"
    obtain h d where hd: "a = (h, d)" by (cases a)
    have g: "(h, d) \<in> gold_arcs ?g" and ne: "(h, d) \<noteq> (?st, ?b)" and dh: "\<not> has_head (arcs c) d"
      and e: "(d = ?b \<and> h \<in> set (stack c) \<union> set (buffer c)) \<or> (h = ?b \<and> d \<in> set (stack c))"
      using a unfolding hd by (auto simp: right_arc_lost_def Let_def)
    have nb: "(h, d) \<notin> set (arcs c)" using unheaded_not_built[OF dh] .
    have nb': "(h, d) \<notin> set (arcs c')" using nb ne by (simp add: st(3))
    have "\<not> arc_lost c (h, d)" unfolding unbuilt_not_lost[OF nb] using e st(6) dh by auto
    moreover have "arc_lost c' (h, d)"
    proof (cases "d = ?b")
      case True
      have "has_head (arcs c') d" using True by (simp add: st(3) has_head_append)
      then show ?thesis using lost_headed[OF nb'] by blast
    next
      case False
      then have "h = ?b" "d \<in> set (stack c)" using e by auto
      then show ?thesis using lost_no_buffer[OF nb'] st(4,9) by auto
    qed
    ultimately show "a \<in> newly_lost c c' ?g" using g unfolding hd newly_lost_def by simp
  qed
qed

lemma right_gold_alone:
  assumes r: "reachable s c" and wft: "well_formed_tree s" and nc: "\<not> crossing_any (get_gold_config s)"
    and legal: "RIGHT \<in> set (get_legal_transitions c)"
    and g: "(last (stack c), hd (buffer c)) \<in> gold_arcs (get_gold_config s)"
  shows "right_arc_lost c (get_gold_config s) \<subseteq> {(last (stack c), hd (buffer c))}"
proof
  let ?g = "get_gold_config s" and ?st = "last (stack c)" and ?b = "hd (buffer c)"
  have wf: "wf_config c" using reachable_wf[OF r] .
  have l: "stack c \<noteq> []" "buffer c \<noteq> []" using legal by (simp_all add: legal_iff)
  fix a assume a: "a \<in> right_arc_lost c ?g"
  obtain h d where hd: "a = (h, d)" by (cases a)
  have ga: "(h, d) \<in> gold_arcs ?g"
    and e: "(d = ?b \<and> h \<in> set (stack c) \<union> set (buffer c)) \<or> (h = ?b \<and> d \<in> set (stack c))"
    using a unfolding hd by (auto simp: right_arc_lost_def Let_def)
  have "(h, d) = (?st, ?b)"
  proof (cases "d = ?b")
    case True
    then show ?thesis using gold_unique_head[OF ga] g by simp
  next
    case False
    then have h: "h = ?b" and dS: "d \<in> set (stack c)" using e by auto
    have dst: "d \<noteq> ?st" using gold_antisym[OF wft g] ga h by blast
    have ds: "d < ?st" using stack_below_top[OF wf dS dst] .
    moreover have "0 \<le> d" using ga by (simp add: gold_mem)
    ultimately have "?st \<noteq> ROOT" by auto
    then have "?st < ?b" using stack_below_buffer[OF wf _ _ ] l by simp
    moreover have "(?b, d) \<in> gold_arcs ?g" using ga h by simp
    ultimately have False using no_inner_parent[OF wft nc g, of d] ds by (simp add: min_def max_def)
    then show ?thesis ..
  qed
  then show "a \<in> {(?st, ?b)}" using hd by simp
qed

subsection \<open>SHIFT\<close>

lemma shift_step:
  assumes r: "reachable s c" and legal: "SHIFT \<in> set (get_legal_transitions c)"
    and ok: "apply_transition c SHIFT = Ok c'"
  shows "stack c' = stack c @ [hd (buffer c)]" "buffer c' = tl (buffer c)" "arcs c' = arcs c"
    "set (buffer c') = set (buffer c) - {hd (buffer c)}"
    "hd (buffer c) \<in> set (buffer c)" "set (stack c) \<inter> set (buffer c) = {}"
proof -
  have wf: "wf_config c" using reachable_wf[OF r] .
  have l: "buffer c \<noteq> []" using legal by (simp add: legal_iff)
  have c': "c' = c\<lparr>buffer := tl (buffer c), stack := stack c @ [hd (buffer c)]\<rparr>"
    using ok l by (simp add: apply_transition_Ok_iff del: apply_transition.simps)
  show "stack c' = stack c @ [hd (buffer c)]" "buffer c' = tl (buffer c)" "arcs c' = arcs c"
    by (simp_all add: c')
  show "set (buffer c') = set (buffer c) - {hd (buffer c)}"
    using set_tl_distinct[OF wf_buffer_distinct[OF wf] l] by (simp add: c')
  show "hd (buffer c) \<in> set (buffer c)" using l by simp
  show "set (stack c) \<inter> set (buffer c) = {}" using wf_stack_buffer_disjoint[OF wf] .
qed

lemma shift_newly_lost:
  assumes r: "reachable s c" and wft: "well_formed_tree s"
    and legal: "SHIFT \<in> set (get_legal_transitions c)" and ok: "apply_transition c SHIFT = Ok c'"
  shows "newly_lost c c' (get_gold_config s) =
    Set.filter (\<lambda>(h, d). \<not> has_head (arcs c) d) (shift_lost c (get_gold_config s))"
proof -
  let ?g = "get_gold_config s" and ?b = "hd (buffer c)"
  note st = shift_step[OF r legal ok]
  have keep: "\<not> arc_lost c' (h, d)"
    if nl: "\<not> arc_lost c (h, d)" and hd: "h \<noteq> d"
      and n: "\<not> ((h = ?b \<and> d \<in> set (stack c)) \<or> (d = ?b \<and> h \<in> set (stack c)))" for h d
  proof (cases "(h, d) \<in> set (arcs c)")
    case True
    then show ?thesis by (simp add: arc_lost_def st(3))
  next
    case False
    have nb: "(h, d) \<notin> set (arcs c')" using False by (simp add: st(3))
    show ?thesis using nl hd n st(5) unfolding unbuilt_not_lost[OF False] unbuilt_not_lost[OF nb] st(1,3,4)
      by auto
  qed
  show ?thesis
  proof (intro set_eqI iffI)
    fix a assume a: "a \<in> newly_lost c c' ?g"
    obtain h d where hd: "a = (h, d)" by (cases a)
    have g: "(h, d) \<in> gold_arcs ?g" and nl: "\<not> arc_lost c (h, d)" and l': "arc_lost c' (h, d)"
      using a unfolding hd newly_lost_def by auto
    have nb: "(h, d) \<notin> set (arcs c)" using l' by (auto simp: arc_lost_def st(3))
    have "(h = ?b \<and> d \<in> set (stack c)) \<or> (d = ?b \<and> h \<in> set (stack c))"
      using keep[OF nl gold_no_self[OF wft g]] l' by blast
    then show "a \<in> Set.filter (\<lambda>(h, d). \<not> has_head (arcs c) d) (shift_lost c ?g)"
      using g not_lost_dep[OF nl nb] unfolding hd by (auto simp: shift_lost_def Let_def)
  next
    fix a assume a: "a \<in> Set.filter (\<lambda>(h, d). \<not> has_head (arcs c) d) (shift_lost c ?g)"
    obtain h d where hd: "a = (h, d)" by (cases a)
    have g: "(h, d) \<in> gold_arcs ?g" and dh: "\<not> has_head (arcs c) d"
      and e: "(d = ?b \<and> h \<in> set (stack c)) \<or> (h = ?b \<and> d \<in> set (stack c))"
      using a unfolding hd by (auto simp: shift_lost_def Let_def)
    have nb: "(h, d) \<notin> set (arcs c)" using unheaded_not_built[OF dh] .
    have "\<not> arc_lost c (h, d)" unfolding unbuilt_not_lost[OF nb] using e st(5) dh by auto
    moreover have "arc_lost c' (h, d)"
      using lost_no_buffer[of h d c'] nb e st(4,6) by (auto simp: st(3))
    ultimately show "a \<in> newly_lost c c' ?g" using g unfolding hd newly_lost_def by simp
  qed
qed

subsection \<open>REDUCE\<close>

lemma reduce_step:
  assumes r: "reachable s c" and legal: "REDUCE \<in> set (get_legal_transitions c)"
    and ok: "apply_transition c REDUCE = Ok c'"
  shows "stack c' = butlast (stack c)" "buffer c' = buffer c" "arcs c' = arcs c"
    "set (stack c') = set (stack c) - {last (stack c)}" "has_head (arcs c) (last (stack c))"
    "last (stack c) \<in> set (stack c)" "set (stack c) \<inter> set (buffer c) = {}"
proof -
  have wf: "wf_config c" using reachable_wf[OF r] .
  have l: "stack c \<noteq> []" "has_head (arcs c) (last (stack c))" using legal by (simp_all add: legal_iff)
  have c': "c' = c\<lparr>stack := butlast (stack c)\<rparr>"
    using ok l by (simp add: apply_transition_Ok_iff del: apply_transition.simps)
  show "stack c' = butlast (stack c)" "buffer c' = buffer c" "arcs c' = arcs c" by (simp_all add: c')
  show "set (stack c') = set (stack c) - {last (stack c)}"
    using set_butlast_distinct[OF wf_stack_distinct[OF wf] l(1)] by (simp add: c')
  show "has_head (arcs c) (last (stack c))" "last (stack c) \<in> set (stack c)" using l by simp_all
  show "set (stack c) \<inter> set (buffer c) = {}" using wf_stack_buffer_disjoint[OF wf] .
qed

lemma reduce_newly_lost:
  assumes r: "reachable s c" and legal: "REDUCE \<in> set (get_legal_transitions c)"
    and ok: "apply_transition c REDUCE = Ok c'"
  shows "newly_lost c c' (get_gold_config s) = reduce_lost c (get_gold_config s)"
proof -
  let ?g = "get_gold_config s" and ?st = "last (stack c)"
  note st = reduce_step[OF r legal ok]
  have wf: "wf_config c" using reachable_wf[OF r] .
  have keep: "\<not> arc_lost c' (h, d)" if nl: "\<not> arc_lost c (h, d)" and hs: "h \<noteq> ?st" for h d
  proof (cases "(h, d) \<in> set (arcs c)")
    case True
    then show ?thesis by (simp add: arc_lost_def st(3))
  next
    case False
    have nb: "(h, d) \<notin> set (arcs c')" using False by (simp add: st(3))
    have "d \<noteq> ?st" using not_lost_dep[OF nl False] st(5) by blast
    then show ?thesis using nl hs unfolding unbuilt_not_lost[OF False] unbuilt_not_lost[OF nb] st(2,3,4)
      by auto
  qed
  show ?thesis
  proof (intro set_eqI iffI)
    fix a assume a: "a \<in> newly_lost c c' ?g"
    obtain h d where hd: "a = (h, d)" by (cases a)
    have g: "(h, d) \<in> gold_arcs ?g" and nl: "\<not> arc_lost c (h, d)" and l': "arc_lost c' (h, d)"
      using a unfolding hd newly_lost_def by auto
    have nb: "(h, d) \<notin> set (arcs c)" using l' by (auto simp: arc_lost_def st(3))
    have h: "h = ?st" using keep[OF nl] l' by blast
    then have "d \<in> set (buffer c)" using nl nb st(6,7) by (auto simp: arc_lost_def)
    then show "a \<in> reduce_lost c ?g" using g h unfolding hd by (simp add: reduce_lost_def Let_def)
  next
    fix a assume a: "a \<in> reduce_lost c ?g"
    obtain h d where hd: "a = (h, d)" by (cases a)
    have g: "(h, d) \<in> gold_arcs ?g" and h: "h = ?st" and dB: "d \<in> set (buffer c)"
      using a unfolding hd by (auto simp: reduce_lost_def Let_def)
    have dh: "\<not> has_head (arcs c) d" using wf_buffer_no_head[OF wf dB] .
    have nb: "(h, d) \<notin> set (arcs c)" using unheaded_not_built[OF dh] .
    have "\<not> arc_lost c (h, d)" unfolding unbuilt_not_lost[OF nb] using h dB st(6) dh by auto
    moreover have "arc_lost c' (h, d)"
      by (rule lost_gone) (use nb h st(6,7) in \<open>auto simp: st(2,3,4)\<close>)
    ultimately show "a \<in> newly_lost c c' ?g" using g unfolding hd newly_lost_def by simp
  qed
qed

subsection \<open>Zero cost\<close>

lemma newly_empty_keeps:
  assumes e: "newly_lost c c' g = {}" and g: "a \<in> gold_arcs g" and nl: "\<not> arc_lost c a"
  shows "\<not> arc_lost c' a"
proof
  assume "arc_lost c' a"
  then have "a \<in> newly_lost c c' g" using g nl by (simp add: newly_lost_def)
  then show False using e by simp
qed

lemma zero_cost_newly_empty:
  assumes r: "reachable s c" and wft: "well_formed_tree s" and nc: "\<not> crossing_any (get_gold_config s)"
    and legal: "t \<in> set (get_legal_transitions c)" and ok: "apply_transition c t = Ok c'"
    and zero: "transition_cost t c (get_gold_config s) = Inr 0"
  shows "newly_lost c c' (get_gold_config s) = {}"
proof -
  let ?g = "get_gold_config s" and ?st = "last (stack c)" and ?b = "hd (buffer c)"
  have wf: "wf_config c" and sc: "sentence c = s" using reachable_wf[OF r] reachable_sentence[OF r] by auto
  show ?thesis
  proof (cases t)
    case LEFT
    have l: "buffer c \<noteq> []" "?st \<noteq> ROOT" using legal LEFT by (simp_all add: legal_iff)
    show ?thesis
    proof (cases "(?b, ?st) \<in> gold_arcs ?g")
      case True
      then show ?thesis using left_newly_lost[OF r] left_gold_alone[OF r wft nc] legal ok LEFT by auto
    next
      case False
      have "left_arc_lost c ?g = {}"
        using cost_zero_empty[OF left_arc_cost_counts[OF wf sc wft l False] _ finite_lost(1)] zero LEFT by simp
      then show ?thesis using left_newly_lost[OF r] legal ok LEFT by simp
    qed
  next
    case RIGHT
    have l: "buffer c \<noteq> []" using legal RIGHT by (simp add: legal_iff)
    show ?thesis
    proof (cases "(?st, ?b) \<in> gold_arcs ?g")
      case True
      then show ?thesis using right_newly_lost[OF r] right_gold_alone[OF r wft nc] legal ok RIGHT by auto
    next
      case False
      have "right_arc_lost c ?g = {}"
        using cost_zero_empty[OF right_arc_cost_counts[OF wf sc wft l False] _ finite_lost(2)] zero RIGHT by simp
      then show ?thesis using right_newly_lost[OF r] legal ok RIGHT by simp
    qed
  next
    case SHIFT
    have l: "buffer c \<noteq> []" using legal SHIFT by (simp add: legal_iff)
    have "shift_lost c ?g = {}"
      using cost_zero_empty[OF shift_cost_counts[OF wf sc wft l] _ finite_lost(3)] zero SHIFT by simp
    then show ?thesis using shift_newly_lost[OF r wft] legal ok SHIFT by simp
  next
    case REDUCE
    have "reduce_lost c ?g = {}"
      using cost_zero_empty[OF reduce_cost_counts[OF wf] _ finite_lost(4)] zero REDUCE by simp
    then show ?thesis using reduce_newly_lost[OF r] legal ok REDUCE by simp
  qed
qed

lemma zero_cost_keeps:
  assumes r: "reachable s c" and wft: "well_formed_tree s" and nc: "\<not> crossing_any (get_gold_config s)"
    and legal: "t \<in> set (get_legal_transitions c)" and ok: "apply_transition c t = Ok c'"
    and zero: "transition_cost t c (get_gold_config s) = Inr 0"
    and g: "a \<in> gold_arcs (get_gold_config s)" and nl: "\<not> arc_lost c a"
  shows "\<not> arc_lost c' a"
  using newly_empty_keeps[OF zero_cost_newly_empty[OF r wft nc legal ok zero] g nl] .

subsection \<open>On the oracle's path\<close>

lemma inv_gold_dep_unheaded:
  assumes inv: "oracle_inv s c" and b: "b \<in> set (buffer c)" and k: "k \<in> set (stack c)"
    and g: "(b, k) \<in> gold_arcs (get_gold_config s)"
  shows "\<not> has_head (arcs c) k"
proof
  assume "has_head (arcs c) k"
  then obtain h where hk: "(h, k) \<in> set (arcs c)" by (auto simp: has_head_iff)
  then have "(h, k) \<in> gold_arcs (get_gold_config s)" using inv by (auto simp: oracle_inv_def)
  then have "h = b" using gold_unique_head g by blast
  then show False using inv_no_arc_buffer_to_stack[OF inv k b] hk by simp
qed

lemma filter_minus_all:
  "\<forall>a \<in> A. P a \<Longrightarrow> x \<notin> A \<Longrightarrow> Set.filter P A - {x} = A"
  by auto

lemma card_split_filter:
  assumes f: "finite A"
  shows "card A = card (Set.filter P A) + card (Set.filter (\<lambda>a. \<not> P a) A)"
proof -
  have "A = Set.filter P A \<union> Set.filter (\<lambda>a. \<not> P a) A" by auto
  moreover have "Set.filter P A \<inter> Set.filter (\<lambda>a. \<not> P a) A = {}" by auto
  moreover have "finite (Set.filter P A)" "finite (Set.filter (\<lambda>a. \<not> P a) A)" using f by auto
  ultimately show ?thesis using card_Un_disjoint by metis
qed

subsection \<open>Costs against the arcs lost\<close>

lemma left_cost_loss:
  assumes r: "reachable s c" and wft: "well_formed_tree s" and nc: "\<not> crossing_any (get_gold_config s)"
    and legal: "LEFT \<in> set (get_legal_transitions c)" and ok: "apply_transition c LEFT = Ok c'"
  shows "left_arc_cost c (get_gold_config s) = Inr (int (card (newly_lost c c' (get_gold_config s))))"
proof -
  let ?g = "get_gold_config s" and ?st = "last (stack c)" and ?b = "hd (buffer c)"
  have wf: "wf_config c" and sc: "sentence c = s" using reachable_wf[OF r] reachable_sentence[OF r] by auto
  have l: "stack c \<noteq> []" "buffer c \<noteq> []" "?st \<noteq> ROOT" using legal by (simp_all add: legal_iff)
  show ?thesis
  proof (cases "(?b, ?st) \<in> gold_arcs ?g")
    case True
    have "left_arc_cost c ?g = Inr 0" using True l by (simp add: left_arc_cost_def)
    moreover have "newly_lost c c' ?g = {}"
      using left_newly_lost[OF r legal ok] left_gold_alone[OF r wft nc legal True] by auto
    ultimately show ?thesis by simp
  next
    case False
    have "(?b, ?st) \<notin> left_arc_lost c ?g" using False by (simp add: left_arc_lost_def Let_def)
    then have "newly_lost c c' ?g = left_arc_lost c ?g" using left_newly_lost[OF r legal ok] by simp
    then show ?thesis using left_arc_cost_counts[OF wf sc wft l(2,3) False] by simp
  qed
qed

lemma right_cost_loss:
  assumes r: "reachable s c" and wft: "well_formed_tree s" and nc: "\<not> crossing_any (get_gold_config s)"
    and legal: "RIGHT \<in> set (get_legal_transitions c)" and ok: "apply_transition c RIGHT = Ok c'"
  shows "right_arc_cost c (get_gold_config s) =
    Inr (int (card (newly_lost c c' (get_gold_config s))) + int (card (stale_deps c (get_gold_config s))))"
proof -
  let ?g = "get_gold_config s" and ?st = "last (stack c)" and ?b = "hd (buffer c)"
  let ?P = "\<lambda>(h, d). \<not> has_head (arcs c) d"
  note st = right_step[OF r legal ok]
  have wf: "wf_config c" and sc: "sentence c = s" using reachable_wf[OF r] reachable_sentence[OF r] by auto
  have l: "stack c \<noteq> []" "buffer c \<noteq> []" using legal by (simp_all add: legal_iff)
  show ?thesis
  proof (cases "(?st, ?b) \<in> gold_arcs ?g")
    case True
    have al: "right_arc_lost c ?g \<subseteq> {(?st, ?b)}" using right_gold_alone[OF r wft nc legal True] .
    have "right_arc_cost c ?g = Inr 0" using True l legal by (simp add: right_arc_cost_def legal_iff)
    moreover have "newly_lost c c' ?g = {}" using right_newly_lost[OF r legal ok] al by auto
    moreover have "stale_deps c ?g = {}"
    proof -
      have "stale_deps c ?g \<subseteq> right_arc_lost c ?g" by (auto simp: stale_deps_def right_arc_lost_def Let_def)
      then show ?thesis using al st(5,7) by (auto simp: stale_deps_def)
    qed
    ultimately show ?thesis by simp
  next
    case False
    have "(?st, ?b) \<notin> right_arc_lost c ?g" using False by (simp add: right_arc_lost_def Let_def)
    then have n: "newly_lost c c' ?g = Set.filter ?P (right_arc_lost c ?g)"
      using right_newly_lost[OF r legal ok] by auto
    have "Set.filter (\<lambda>a. \<not> ?P a) (right_arc_lost c ?g) = stale_deps c ?g"
      using st(8) by (auto simp: stale_deps_def right_arc_lost_def Let_def)
    then have "card (right_arc_lost c ?g) = card (newly_lost c c' ?g) + card (stale_deps c ?g)"
      using card_split_filter[OF finite_lost(2)[of c s], where P = "\<lambda>(h, d). \<not> has_head (arcs c) d"] n
      by simp
    then show ?thesis using right_arc_cost_counts[OF wf sc wft l(2) False] by simp
  qed
qed

lemma shift_cost_loss:
  assumes r: "reachable s c" and wft: "well_formed_tree s"
    and legal: "SHIFT \<in> set (get_legal_transitions c)" and ok: "apply_transition c SHIFT = Ok c'"
  shows "shift_cost c (get_gold_config s) =
    Inr (int (card (newly_lost c c' (get_gold_config s))) + int (card (stale_deps c (get_gold_config s))))"
proof -
  let ?g = "get_gold_config s" and ?b = "hd (buffer c)"
  let ?P = "\<lambda>(h, d). \<not> has_head (arcs c) d"
  have wf: "wf_config c" and sc: "sentence c = s" using reachable_wf[OF r] reachable_sentence[OF r] by auto
  have l: "buffer c \<noteq> []" using legal by (simp add: legal_iff)
  have n: "newly_lost c c' ?g = Set.filter ?P (shift_lost c ?g)" using shift_newly_lost[OF r wft legal ok] .
  have "Set.filter (\<lambda>a. \<not> ?P a) (shift_lost c ?g) = stale_deps c ?g"
    using wf_buffer_no_head[OF wf, of ?b] l by (auto simp: stale_deps_def shift_lost_def Let_def)
  then have "card (shift_lost c ?g) = card (newly_lost c c' ?g) + card (stale_deps c ?g)"
    using card_split_filter[OF finite_lost(3)[of c s], where P = "\<lambda>(h, d). \<not> has_head (arcs c) d"] n
    by simp
  then show ?thesis using shift_cost_counts[OF wf sc wft l] by simp
qed

lemma reduce_cost_loss:
  assumes r: "reachable s c" and legal: "REDUCE \<in> set (get_legal_transitions c)"
    and ok: "apply_transition c REDUCE = Ok c'"
  shows "reduce_cost c (get_gold_config s) = Inr (int (card (newly_lost c c' (get_gold_config s))))"
  using reduce_newly_lost[OF r legal ok] reduce_cost_counts[OF reachable_wf[OF r]] by simp

lemma inv_no_stale:
  assumes inv: "oracle_inv s c" and b: "buffer c \<noteq> []"
  shows "stale_deps c (get_gold_config s) = {}"
  using inv_gold_dep_unheaded[OF inv, of "hd (buffer c)"] b by (auto simp: stale_deps_def)

lemma chain_tree: "well_formed_tree chain_sentence"
  by (simp add: tree_eval numeral_eq_Suc atLeast0_lessThan_Suc chain_sentence_def)

lemma chain_no_cross: "\<not> crossing_any (get_gold_config chain_sentence)"
  by (simp add: crossing_any_def spans_cross_def gold_eval chain_sentence_def Let_def)

section \<open>Properties\<close>

text \<open>
  C4: soundness of the dynamic oracle everywhere. From any configuration reachable by legal
  transitions (not only from those on the oracle's path), in a projective well-formed tree,
  every transition in the list \<open>dynamic_oracle\<close> returns keeps every gold arc that
  some run could still build buildable after it is applied: a zero-cost transition never
  gives up a reachable gold arc.
\<close>

theorem dynamic_oracle_sound:
  assumes r: "reachable s c" and wft: "well_formed_tree s" and nc: "\<not> crossing_any (get_gold_config s)"
    and dyn: "dynamic_oracle c (get_gold_config s) = Inr ts" and t: "t \<in> set ts"
    and ok: "apply_transition c t = Ok c'"
    and g: "a \<in> gold_arcs (get_gold_config s)"
    and bld: "\<exists>tr c''. run c tr = Some c'' \<and> a \<in> set (arcs c'')"
  shows "\<exists>tr c''. run c' tr = Some c'' \<and> a \<in> set (arcs c'')"
proof -
  have wf: "wf_config c" and sc: "sentence c = s" using reachable_wf[OF r] reachable_sentence[OF r] by auto
  have lz: "t \<in> set (get_legal_transitions c)" "transition_cost t c (get_gold_config s) = Inr 0"
    using dynamic_oracle_mem[OF wf sc] dyn t by auto
  have nl: "\<not> arc_lost c a" using bld lost_never_built[OF run_frame] by blast
  have "\<not> arc_lost c' a" using zero_cost_keeps[OF r wft nc lz(1) ok lz(2) g nl] .
  moreover have "reachable s c'" using reachable.step[OF r lz(1) ok] .
  ultimately show ?thesis using not_lost_buildable[OF _ wft, of c' "fst a" "snd a"] g by simp
qed

theorem dynamic_oracle_sound_witness:
  "reachable spec_sentence (get_initial_config spec_sentence) \<and> well_formed_tree spec_sentence \<and>
   \<not> crossing_any (get_gold_config spec_sentence) \<and>
   dynamic_oracle (get_initial_config spec_sentence) (get_gold_config spec_sentence) = Inr [SHIFT] \<and>
   apply_transition (get_initial_config spec_sentence) SHIFT =
     Ok \<lparr>arcs = [], stack = [ROOT, 0], buffer = [1, 2], sentence = spec_sentence\<rparr> \<and>
   (1, 0) \<in> gold_arcs (get_gold_config spec_sentence) \<and>
   run (get_initial_config spec_sentence) [SHIFT, LEFT] =
     Some \<lparr>arcs = [(1, 0)], stack = [ROOT], buffer = [1, 2], sentence = spec_sentence\<rparr> \<and>
   (\<exists>tr c''. run \<lparr>arcs = [], stack = [ROOT, 0], buffer = [1, 2], sentence = spec_sentence\<rparr> tr = Some c'' \<and>
      (1, 0) \<in> set (arcs c''))"
proof -
  let ?c0 = "get_initial_config spec_sentence"
  let ?c1 = "\<lparr>arcs = [], stack = [ROOT, 0], buffer = [1, 2], sentence = spec_sentence\<rparr>"
  let ?c2 = "\<lparr>arcs = [(1, 0)], stack = [ROOT], buffer = [1, 2], sentence = spec_sentence\<rparr>"
  have r0: "reachable spec_sentence ?c0" by (rule reachable.init)
  have d: "dynamic_oracle ?c0 (get_gold_config spec_sentence) = Inr [SHIFT]"
    by (simp add: dynamic_oracle_def left_arc_cost_def right_arc_cost_def shift_cost_def reduce_cost_def
        lookup_head_def engine_eval gold_eval)
  have ok: "apply_transition ?c0 SHIFT = Ok ?c1" by (simp add: engine_eval)
  have g: "(1, 0) \<in> gold_arcs (get_gold_config spec_sentence)"
    by (simp add: gold_mem gold_head_def spec_sentence_def tok_def)
  have run: "run ?c0 [SHIFT, LEFT] = Some ?c2" by (simp add: engine_eval)
  have b: "\<exists>tr c''. run ?c0 tr = Some c'' \<and> (1, 0) \<in> set (arcs c'')" using run by fastforce
  show ?thesis
    using dynamic_oracle_sound[OF r0 spec_sentence_tree spec_sentence_no_cross d _ ok g b]
      r0 d ok g run spec_sentence_tree spec_sentence_no_cross by simp
qed

text \<open>
  C8: the cost functions count exactly the arcs the specification's cost counts, on the
  training path. At every configuration the dynamic-oracle driver reaches on a projective
  well-formed tree, every legal transition's cost (\<open>left_arc_cost\<close>,
  \<open>right_arc_cost\<close>, \<open>shift_cost\<close>, \<open>reduce_cost\<close>, early returns included) is the
  number of gold arcs that were still buildable before the transition and are lost after it.
\<close>

theorem cost_counts_newly_lost:
  assumes dr: "dyn_reachable s c" and wft: "well_formed_tree s" and nc: "\<not> crossing_any (get_gold_config s)"
    and legal: "t \<in> set (get_legal_transitions c)" and ok: "apply_transition c t = Ok c'"
  shows "transition_cost t c (get_gold_config s) = Inr (int (card (newly_lost c c' (get_gold_config s))))"
proof -
  have inv: "oracle_inv s c" using dyn_reachable_inv[OF wft nc dr] .
  have r: "reachable s c" using inv by (simp add: oracle_inv_def)
  show ?thesis
  proof (cases t)
    case LEFT
    then show ?thesis using left_cost_loss[OF r wft nc] legal ok by simp
  next
    case RIGHT
    then have "buffer c \<noteq> []" using legal by (simp add: legal_iff)
    then show ?thesis using right_cost_loss[OF r wft nc] inv_no_stale[OF inv] legal ok RIGHT by simp
  next
    case SHIFT
    then have "buffer c \<noteq> []" using legal by (simp add: legal_iff)
    then show ?thesis using shift_cost_loss[OF r wft] inv_no_stale[OF inv] legal ok SHIFT by simp
  next
    case REDUCE
    then show ?thesis using reduce_cost_loss[OF r] legal ok by simp
  qed
qed

theorem cost_counts_newly_lost_witness:
  "dyn_reachable spec_sentence (get_initial_config spec_sentence) \<and> well_formed_tree spec_sentence \<and>
   \<not> crossing_any (get_gold_config spec_sentence) \<and>
   RIGHT \<in> set (get_legal_transitions (get_initial_config spec_sentence)) \<and>
   apply_transition (get_initial_config spec_sentence) RIGHT =
     Ok \<lparr>arcs = [(ROOT, 0)], stack = [ROOT, 0], buffer = [1, 2], sentence = spec_sentence\<rparr> \<and>
   right_arc_cost (get_initial_config spec_sentence) (get_gold_config spec_sentence) = Inr 1 \<and>
   card (newly_lost (get_initial_config spec_sentence)
     \<lparr>arcs = [(ROOT, 0)], stack = [ROOT, 0], buffer = [1, 2], sentence = spec_sentence\<rparr>
     (get_gold_config spec_sentence)) = 1"
proof -
  let ?c0 = "get_initial_config spec_sentence"
  let ?c1 = "\<lparr>arcs = [(ROOT, 0)], stack = [ROOT, 0], buffer = [1, 2], sentence = spec_sentence\<rparr>"
  have d: "dyn_reachable spec_sentence ?c0" by (rule dyn_reachable.init)
  have l: "RIGHT \<in> set (get_legal_transitions ?c0)" by (simp add: engine_eval)
  have ok: "apply_transition ?c0 RIGHT = Ok ?c1" by (simp add: engine_eval)
  have c: "right_arc_cost ?c0 (get_gold_config spec_sentence) = Inr 1"
    by (simp add: right_arc_cost_def lookup_head_def engine_eval gold_eval)
  show ?thesis
    using cost_counts_newly_lost[OF d spec_sentence_tree spec_sentence_no_cross l ok] d l ok c
      spec_sentence_tree spec_sentence_no_cross by simp
qed

text \<open>
  C9: what the cost functions count off the training path. At every configuration
  reachable by legal transitions of a projective well-formed tree, LEFT and REDUCE cost
  exactly the number of gold arcs they make unreachable, while RIGHT and SHIFT cost that
  number plus the gold dependents of the buffer front on the stack that already have a
  head (\<open>stale_deps\<close>): arcs that were lost before and that \<open>right_arc_cost\<close> and
  \<open>shift_cost\<close> count again.
\<close>

theorem cost_counts_overcount:
  assumes r: "reachable s c" and wft: "well_formed_tree s" and nc: "\<not> crossing_any (get_gold_config s)"
    and legal: "t \<in> set (get_legal_transitions c)" and ok: "apply_transition c t = Ok c'"
  shows "transition_cost t c (get_gold_config s) =
    Inr (int (card (newly_lost c c' (get_gold_config s))) +
         (if t = RIGHT \<or> t = SHIFT then int (card (stale_deps c (get_gold_config s))) else 0))"
proof (cases t)
  case LEFT
  then show ?thesis using left_cost_loss[OF r wft nc] legal ok by simp
next
  case RIGHT
  then show ?thesis using right_cost_loss[OF r wft nc] legal ok by simp
next
  case SHIFT
  then show ?thesis using shift_cost_loss[OF r wft] legal ok by simp
next
  case REDUCE
  then show ?thesis using reduce_cost_loss[OF r] legal ok by simp
qed

theorem cost_counts_overcount_witness:
  "reachable chain_sentence
     \<lparr>arcs = [(ROOT, 0)], stack = [ROOT, 0], buffer = [1, 2], sentence = chain_sentence\<rparr> \<and>
   well_formed_tree chain_sentence \<and> \<not> crossing_any (get_gold_config chain_sentence) \<and>
   SHIFT \<in> set (get_legal_transitions
     \<lparr>arcs = [(ROOT, 0)], stack = [ROOT, 0], buffer = [1, 2], sentence = chain_sentence\<rparr>) \<and>
   apply_transition \<lparr>arcs = [(ROOT, 0)], stack = [ROOT, 0], buffer = [1, 2], sentence = chain_sentence\<rparr> SHIFT =
     Ok \<lparr>arcs = [(ROOT, 0)], stack = [ROOT, 0, 1], buffer = [2], sentence = chain_sentence\<rparr> \<and>
   shift_cost \<lparr>arcs = [(ROOT, 0)], stack = [ROOT, 0], buffer = [1, 2], sentence = chain_sentence\<rparr>
     (get_gold_config chain_sentence) = Inr 1 \<and>
   card (stale_deps \<lparr>arcs = [(ROOT, 0)], stack = [ROOT, 0], buffer = [1, 2], sentence = chain_sentence\<rparr>
     (get_gold_config chain_sentence)) = 1 \<and>
   newly_lost \<lparr>arcs = [(ROOT, 0)], stack = [ROOT, 0], buffer = [1, 2], sentence = chain_sentence\<rparr>
     \<lparr>arcs = [(ROOT, 0)], stack = [ROOT, 0, 1], buffer = [2], sentence = chain_sentence\<rparr>
     (get_gold_config chain_sentence) = {}"
proof -
  let ?c = "\<lparr>arcs = [(ROOT, 0)], stack = [ROOT, 0], buffer = [1, 2], sentence = chain_sentence\<rparr>"
  let ?c' = "\<lparr>arcs = [(ROOT, 0)], stack = [ROOT, 0, 1], buffer = [2], sentence = chain_sentence\<rparr>"
  let ?g = "get_gold_config chain_sentence"
  have r: "reachable chain_sentence ?c"
    by (rule reachable.step[OF reachable.init, of RIGHT]) (simp_all add: engine_eval chain_sentence_def)
  have l: "SHIFT \<in> set (get_legal_transitions ?c)" by (simp add: engine_eval)
  have ok: "apply_transition ?c SHIFT = Ok ?c'" by (simp add: engine_eval)
  have g: "gold_arcs ?g = {(1, 0), (2, 1), (ROOT, 2)}" by (auto simp: gold_eval chain_sentence_def)
  have c: "shift_cost ?c ?g = Inr 1"
    by (simp add: shift_cost_def lookup_head_def engine_eval gold_eval chain_sentence_def)
  have st: "stale_deps ?c ?g = {(1, 0)}" by (auto simp: stale_deps_def g has_head_def)
  have "newly_lost ?c ?c' ?g = {}"
  proof -
    have "shift_cost ?c ?g = Inr (int (card (newly_lost ?c ?c' ?g)) + 1)"
      using cost_counts_overcount[OF r chain_tree chain_no_cross l ok] st by simp
    then have "card (newly_lost ?c ?c' ?g) = 0" using c by simp
    moreover have "finite (newly_lost ?c ?c' ?g)" by (simp add: newly_lost_def g)
    ultimately show ?thesis by simp
  qed
  then show ?thesis using r l ok c st chain_tree chain_no_cross by simp
qed

end
