(* ===== verification/Optimality.thy ===== *)
theory Optimality
  imports Soundness
begin

text \<open>
  The dynamic oracle of src/arc_eager.py (\<open>ArcEager.dynamic_oracle\<close> and the four cost
  functions) used for training with error exploration (spec section 4.3): after any
  sequence of legal transitions, the driver follows transitions the oracle returns.
  \<open>dyn_path s c c'\<close> is such a continuation from \<open>c\<close> to \<open>c'\<close>. For a projective
  well-formed tree (\<open>ROOT\<close> arcs included) the oracle returns an empty list exactly at the
  configurations with no legal transition (\<open>zero_cost_exists\<close>: the case analysis on
  the arcs between the buffer front and the stack, closed by non-crossing), and every
  continuation that follows it until no transition is legal holds every gold arc that was
  still buildable where the driver started. On a tree with a crossing \<open>ROOT\<close> arc, which
  \<open>is_not_projective\<close> accepts, the oracle's own path reaches an empty list.
\<close>

section \<open>The exploration driver\<close>

text \<open>Continuations that only take transitions the dynamic oracle returns.\<close>

inductive dyn_path :: "token list \<Rightarrow> config \<Rightarrow> config \<Rightarrow> bool" for s where
  stop: "dyn_path s c c"
| step: "dynamic_oracle c (get_gold_config s) = Inr ts \<Longrightarrow> t \<in> set ts \<Longrightarrow>
         apply_transition c t = Ok c1 \<Longrightarrow> dyn_path s c1 c2 \<Longrightarrow> dyn_path s c c2"

lemmas dyn_eval = dynamic_oracle_def left_arc_cost_def right_arc_cost_def shift_cost_def reduce_cost_def
  lookup_head_def engine_eval gold_eval

section \<open>A zero-cost transition exists wherever a transition is legal\<close>

lemma gold_no_crossing:
  assumes nc: "\<not> crossing_any (get_gold_config s)"
    and a1: "(h1, d1) \<in> gold_arcs (get_gold_config s)" and a2: "(h2, d2) \<in> gold_arcs (get_gold_config s)"
    and o: "l1 < l2" "l2 < r1" "r1 < r2" and e: "{h1, d1} = {l1, r1}" "{h2, d2} = {l2, r2}"
  shows False
proof -
  have g1: "0 \<le> d1" "d1 < int (length s)" "h1 = gold_head s d1" using a1 by (simp_all add: gold_mem)
  have g2: "0 \<le> d2" "d2 < int (length s)" "h2 = gold_head s d2" using a2 by (simp_all add: gold_mem)
  have "spans_cross (h1, d1) (h2, d2)" using spans_cross_intro[OF o e] .
  then show False using cross_contra[OF nc g1(1,2) g2(1,2)] g1(3) g2(3) by simp
qed

lemma gold_link:
  "(k, b) \<in> gold_arcs g \<or> (b, k) \<in> gold_arcs g \<Longrightarrow> \<exists>h d. (h, d) \<in> gold_arcs g \<and> {h, d} = {k, b}"
  by blast

lemma zero_cost_exists:
  assumes r: "reachable s c" and wft: "well_formed_tree s" and nc: "\<not> crossing_any (get_gold_config s)"
    and legal: "get_legal_transitions c \<noteq> []"
  shows "\<exists>t \<in> set (get_legal_transitions c). transition_cost t c (get_gold_config s) = Inr 0"
proof -
  let ?g = "get_gold_config s"
  have wf: "wf_config c" and sc: "sentence c = s" using reachable_wf[OF r] reachable_sentence[OF r] by auto
  have sne: "stack c \<noteq> []" using wf by (simp add: wf_config_def)
  show ?thesis
  proof (cases "buffer c = []")
    case True
    obtain t where t: "t \<in> set (get_legal_transitions c)" using last_in_set[OF legal] by blast
    have "legal_spec c t" using t by (simp add: legal_iff)
    then have "t = REDUCE" using True by (cases t) simp_all
    moreover have "reduce_lost c ?g = {}" using True by (simp add: reduce_lost_def Let_def)
    ultimately show ?thesis using t reduce_cost_counts[OF wf, of s] by (intro bexI[of _ REDUCE]) auto
  next
    case False
    let ?st = "last (stack c)" and ?b = "hd (buffer c)"
    have bB: "?b \<in> set (buffer c)" and stS: "?st \<in> set (stack c)" using False sne by simp_all
    have b0: "0 \<le> ?b" using wf_mem_buffer[OF wf] bB by force
    have bnh: "\<not> has_head (arcs c) ?b" using wf_buffer_no_head[OF wf bB] .
    have stb: "?st \<noteq> ROOT \<Longrightarrow> ?st < ?b" using stack_below_buffer[OF wf stS _ bB] by blast
    have reduce0: "transition_cost REDUCE c ?g = Inr 0" if "reduce_lost c ?g = {}"
      using reduce_cost_counts[OF wf, of s] that by simp
    consider (Z) "shift_lost c ?g = {}" | (R) "(?st, ?b) \<in> gold_arcs ?g" | (L) "(?b, ?st) \<in> gold_arcs ?g"
      | (U) "shift_lost c ?g \<noteq> {}" "(?st, ?b) \<notin> gold_arcs ?g" "(?b, ?st) \<notin> gold_arcs ?g"
      by blast
    then show ?thesis
    proof cases
      case Z
      have "SHIFT \<in> set (get_legal_transitions c)" using False by (simp add: legal_iff)
      then show ?thesis using shift_cost_counts[OF wf sc wft False] Z by force
    next
      case R
      have "RIGHT \<in> set (get_legal_transitions c)" using False sne b0 bnh by (simp add: legal_iff)
      moreover have "right_arc_cost c ?g = Inr 0" using False sne b0 R by (simp add: right_arc_cost_def)
      ultimately show ?thesis by force
    next
      case L
      have nr: "?st \<noteq> ROOT" using L by (auto simp: gold_mem)
      show ?thesis
      proof (cases "has_head (arcs c) ?st")
        case True
        have "reduce_lost c ?g = {}"
        proof (rule ccontr)
          assume "reduce_lost c ?g \<noteq> {}"
          then obtain d where d: "(?st, d) \<in> gold_arcs ?g" "d \<in> set (buffer c)"
            by (auto simp: reduce_lost_def Let_def)
          have "d \<noteq> ?b" using gold_antisym[OF wft L] d(1) by blast
          then have "?b < d" using buffer_ge_hd[OF wf d(2)] by simp
          then show False using no_inner_parent[OF wft nc L d(1)] stb[OF nr] by simp
        qed
        moreover have "REDUCE \<in> set (get_legal_transitions c)" using sne True by (simp add: legal_iff)
        ultimately show ?thesis using reduce0 by force
      next
        case nh: False
        have "LEFT \<in> set (get_legal_transitions c)" using False sne nr nh by (simp add: legal_iff)
        moreover have "left_arc_cost c ?g = Inr 0" using False sne nr L by (simp add: left_arc_cost_def)
        ultimately show ?thesis by force
      qed
    next
      case U
      obtain k where kS: "k \<in> set (stack c)" and kb: "(k, ?b) \<in> gold_arcs ?g \<or> (?b, k) \<in> gold_arcs ?g"
        using U(1) by (auto simp: shift_lost_def Let_def)
      have kst: "k \<noteq> ?st" using kb U(2,3) by blast
      have kl: "k < ?st" using stack_below_top[OF wf kS kst] .
      have "k = ROOT \<or> 0 \<le> k" using wf_mem_stack[OF wf kS] by auto
      then have nr: "?st \<noteq> ROOT" using kl by auto
      have nox: False if x: "x \<in> set (buffer c)" "x \<noteq> ?b"
          and sx: "(?st, x) \<in> gold_arcs ?g \<or> (x, ?st) \<in> gold_arcs ?g" for x
      proof -
        have bx: "?b < x" using buffer_ge_hd[OF wf x(1)] x(2) by simp
        obtain h1 d1 where 1: "(h1, d1) \<in> gold_arcs ?g" "{h1, d1} = {k, ?b}" using gold_link[OF kb] by blast
        obtain h2 d2 where 2: "(h2, d2) \<in> gold_arcs ?g" "{h2, d2} = {?st, x}" using gold_link[OF sx] by blast
        show False using gold_no_crossing[OF nc 1(1) 2(1) kl stb[OF nr] bx 1(2) 2(2)] .
      qed
      show ?thesis
      proof (cases "has_head (arcs c) ?st")
        case True
        have "reduce_lost c ?g = {}"
          using nox U(2) by (fastforce simp: reduce_lost_def Let_def)
        moreover have "REDUCE \<in> set (get_legal_transitions c)" using sne True by (simp add: legal_iff)
        ultimately show ?thesis using reduce0 by force
      next
        case nh: False
        have "left_arc_lost c ?g = {}"
          using nox U(2,3) by (fastforce simp: left_arc_lost_def Let_def)
        moreover have "LEFT \<in> set (get_legal_transitions c)" using False sne nr nh by (simp add: legal_iff)
        ultimately show ?thesis using left_arc_cost_counts[OF wf sc wft False nr U(3)] by force
      qed
    qed
  qed
qed

lemma dynamic_oracle_zero:
  assumes r: "reachable s c"
  obtains ts where "dynamic_oracle c (get_gold_config s) = Inr ts"
    "\<And>t. t \<in> set ts \<longleftrightarrow> t \<in> set (get_legal_transitions c) \<and> transition_cost t c (get_gold_config s) = Inr 0"
  using dynamic_oracle_mem[OF reachable_wf[OF r] reachable_sentence[OF r]] by blast

lemma no_legal_empty_buffer: "get_legal_transitions c = [] \<Longrightarrow> buffer c = []"
  using legal_iff[of SHIFT c] by (cases "buffer c") auto

section \<open>Properties\<close>

text \<open>
  C7: the dynamic oracle is empty only where nothing is legal. At every configuration
  reachable by legal transitions (on or off the oracle's path) of a well-formed tree
  without crossing arcs (\<open>ROOT\<close> arcs included), \<open>dynamic_oracle\<close> returns a list, and
  that list is empty exactly when \<open>get_legal_transitions\<close> is empty.
\<close>

theorem dynamic_oracle_nonempty:
  assumes r: "reachable s c" and wft: "well_formed_tree s" and nc: "\<not> crossing_any (get_gold_config s)"
  shows "\<exists>ts. dynamic_oracle c (get_gold_config s) = Inr ts \<and> (ts = [] \<longleftrightarrow> get_legal_transitions c = [])"
proof -
  obtain ts where ts: "dynamic_oracle c (get_gold_config s) = Inr ts"
      "\<And>t. t \<in> set ts \<longleftrightarrow> t \<in> set (get_legal_transitions c) \<and> transition_cost t c (get_gold_config s) = Inr 0"
    using dynamic_oracle_zero[OF r] by blast
  have "ts = [] \<longleftrightarrow> get_legal_transitions c = []"
  proof
    assume "ts = []"
    then show "get_legal_transitions c = []" using zero_cost_exists[OF r wft nc] ts(2) by auto
  next
    assume "get_legal_transitions c = []"
    then show "ts = []" using ts(2) by (cases ts) auto
  qed
  then show ?thesis using ts(1) by blast
qed

theorem dynamic_oracle_nonempty_witness:
  "reachable spec_sentence (get_initial_config spec_sentence) \<and> well_formed_tree spec_sentence \<and>
   \<not> crossing_any (get_gold_config spec_sentence) \<and>
   get_legal_transitions (get_initial_config spec_sentence) = [RIGHT, SHIFT] \<and>
   (\<exists>ts. dynamic_oracle (get_initial_config spec_sentence) (get_gold_config spec_sentence) = Inr ts \<and>
         ts \<noteq> [])"
proof -
  have r: "reachable spec_sentence (get_initial_config spec_sentence)" by (rule reachable.init)
  have l: "get_legal_transitions (get_initial_config spec_sentence) = [RIGHT, SHIFT]" by (simp add: engine_eval)
  show ?thesis
    using dynamic_oracle_nonempty[OF r spec_sentence_tree spec_sentence_no_cross] r l
      spec_sentence_tree spec_sentence_no_cross by auto
qed

text \<open>
  C6: optimality of the dynamic oracle from anywhere. However a configuration was
  reached (by legal transitions, possibly wrong ones), every continuation that follows
  \<open>dynamic_oracle\<close> until no transition is legal ends holding every gold arc that was not
  lost where it started, i.e. (by \<open>arc_buildable_iff\<close>) every gold arc some run could
  still build: the oracle trains toward the best tree still reachable.
\<close>

theorem dynamic_oracle_optimal_anywhere:
  assumes p: "dyn_path s c c'" and r: "reachable s c"
    and wft: "well_formed_tree s" and nc: "\<not> crossing_any (get_gold_config s)"
    and e: "get_legal_transitions c' = []"
  shows "Set.filter (\<lambda>a. \<not> arc_lost c a) (gold_arcs (get_gold_config s)) \<subseteq> set (arcs c')"
proof
  fix a assume "a \<in> Set.filter (\<lambda>a. \<not> arc_lost c a) (gold_arcs (get_gold_config s))"
  then have g: "a \<in> gold_arcs (get_gold_config s)" and nl: "\<not> arc_lost c a" by auto
  from p r nl e show "a \<in> set (arcs c')"
  proof (induction rule: dyn_path.induct)
    case (stop c)
    then show ?case using no_legal_empty_buffer[of c] by (cases a) (auto simp: arc_lost_def)
  next
    case (step c ts t c1 c2)
    obtain ts' where ts': "dynamic_oracle c (get_gold_config s) = Inr ts'"
        "\<And>t. t \<in> set ts' \<longleftrightarrow> t \<in> set (get_legal_transitions c) \<and> transition_cost t c (get_gold_config s) = Inr 0"
      using dynamic_oracle_zero[OF step.prems(1)] by blast
    have lz: "t \<in> set (get_legal_transitions c)" "transition_cost t c (get_gold_config s) = Inr 0"
      using ts'(2)[of t] step.hyps(1,2) ts'(1) by auto
    have "reachable s c1" using reachable.step[OF step.prems(1) lz(1) step.hyps(3)] .
    moreover have "\<not> arc_lost c1 a"
      using zero_cost_keeps[OF step.prems(1) wft nc lz(1) step.hyps(3) lz(2) g step.prems(2)] .
    ultimately show ?case using step.IH step.prems(3) by blast
  qed
qed

theorem dynamic_oracle_optimal_anywhere_witness:
  "dyn_path spec_sentence
     \<lparr>arcs = [(ROOT, 0)], stack = [ROOT, 0], buffer = [1, 2], sentence = spec_sentence\<rparr>
     \<lparr>arcs = [(ROOT, 0), (ROOT, 1), (1, 2)], stack = [ROOT], buffer = [], sentence = spec_sentence\<rparr> \<and>
   reachable spec_sentence \<lparr>arcs = [(ROOT, 0)], stack = [ROOT, 0], buffer = [1, 2], sentence = spec_sentence\<rparr> \<and>
   well_formed_tree spec_sentence \<and> \<not> crossing_any (get_gold_config spec_sentence) \<and>
   get_legal_transitions
     \<lparr>arcs = [(ROOT, 0), (ROOT, 1), (1, 2)], stack = [ROOT], buffer = [], sentence = spec_sentence\<rparr> = [] \<and>
   Set.filter (\<lambda>a. \<not> arc_lost \<lparr>arcs = [(ROOT, 0)], stack = [ROOT, 0], buffer = [1, 2], sentence = spec_sentence\<rparr> a)
     (gold_arcs (get_gold_config spec_sentence)) \<subseteq> {(ROOT, 0), (ROOT, 1), (1, 2)}"
proof -
  let ?c0 = "\<lparr>arcs = [(ROOT, 0)], stack = [ROOT, 0], buffer = [1, 2], sentence = spec_sentence\<rparr>"
  let ?c1 = "\<lparr>arcs = [(ROOT, 0)], stack = [ROOT], buffer = [1, 2], sentence = spec_sentence\<rparr>"
  let ?c2 = "\<lparr>arcs = [(ROOT, 0), (ROOT, 1)], stack = [ROOT, 1], buffer = [2], sentence = spec_sentence\<rparr>"
  let ?c3 = "\<lparr>arcs = [(ROOT, 0), (ROOT, 1), (1, 2)], stack = [ROOT, 1, 2], buffer = [], sentence = spec_sentence\<rparr>"
  let ?c4 = "\<lparr>arcs = [(ROOT, 0), (ROOT, 1), (1, 2)], stack = [ROOT, 1], buffer = [], sentence = spec_sentence\<rparr>"
  let ?c5 = "\<lparr>arcs = [(ROOT, 0), (ROOT, 1), (1, 2)], stack = [ROOT], buffer = [], sentence = spec_sentence\<rparr>"
  let ?g = "get_gold_config spec_sentence"
  have p4: "dyn_path spec_sentence ?c4 ?c5"
    by (rule dyn_path.step[of _ _ "[REDUCE]" REDUCE, OF _ _ _ dyn_path.stop]) (simp_all add: dyn_eval)
  have p3: "dyn_path spec_sentence ?c3 ?c5"
    by (rule dyn_path.step[of _ _ "[REDUCE]" REDUCE, OF _ _ _ p4]) (simp_all add: dyn_eval)
  have p2: "dyn_path spec_sentence ?c2 ?c5"
    by (rule dyn_path.step[of _ _ "[RIGHT]" RIGHT, OF _ _ _ p3]) (simp_all add: dyn_eval)
  have p1: "dyn_path spec_sentence ?c1 ?c5"
    by (rule dyn_path.step[of _ _ "[RIGHT]" RIGHT, OF _ _ _ p2]) (simp_all add: dyn_eval)
  have p0: "dyn_path spec_sentence ?c0 ?c5"
    by (rule dyn_path.step[of _ _ "[REDUCE]" REDUCE, OF _ _ _ p1]) (simp_all add: dyn_eval)
  have r: "reachable spec_sentence ?c0"
    by (rule reachable.step[OF reachable.init, of RIGHT]) (simp_all add: engine_eval)
  have e: "get_legal_transitions ?c5 = []" by (simp add: engine_eval)
  show ?thesis
    using dynamic_oracle_optimal_anywhere[OF p0 r spec_sentence_tree spec_sentence_no_cross e]
      p0 r spec_sentence_tree spec_sentence_no_cross e by simp
qed

text \<open>
  C32: a crossing \<open>ROOT\<close> arc, which \<open>is_not_projective\<close> accepts, empties the dynamic
  oracle on its own path. For the tree with heads \<open>[2, ROOT, 1]\<close> the oracle returns only
  SHIFT at the initial configuration, and after it returns the empty list although LEFT,
  RIGHT and SHIFT are legal and the configuration is not finished, so the training driver
  cannot continue.
\<close>

theorem root_crossing_empties_dynamic_oracle:
  "well_formed_tree root_cross_sentence \<and>
   \<not> is_not_projective (get_gold_config root_cross_sentence) \<and>
   dynamic_oracle (get_initial_config root_cross_sentence) (get_gold_config root_cross_sentence) = Inr [SHIFT] \<and>
   apply_transition (get_initial_config root_cross_sentence) SHIFT =
     Ok \<lparr>arcs = [], stack = [ROOT, 0], buffer = [1, 2], sentence = root_cross_sentence\<rparr> \<and>
   \<not> is_finished \<lparr>arcs = [], stack = [ROOT, 0], buffer = [1, 2], sentence = root_cross_sentence\<rparr> \<and>
   get_legal_transitions \<lparr>arcs = [], stack = [ROOT, 0], buffer = [1, 2], sentence = root_cross_sentence\<rparr> =
     [LEFT, RIGHT, SHIFT] \<and>
   dynamic_oracle \<lparr>arcs = [], stack = [ROOT, 0], buffer = [1, 2], sentence = root_cross_sentence\<rparr>
     (get_gold_config root_cross_sentence) = Inr [] \<and>
   dyn_parse (\<lambda>c ts. hd ts) (get_gold_config root_cross_sentence) (get_initial_config root_cross_sentence) = None"
proof -
  let ?c0 = "get_initial_config root_cross_sentence" and ?g = "get_gold_config root_cross_sentence"
  let ?c1 = "\<lparr>arcs = [], stack = [ROOT, 0], buffer = [1, 2], sentence = root_cross_sentence\<rparr>"
  have p: "\<not> is_not_projective ?g"
    by (simp add: is_not_projective_def crossing_pattern_def gold_eval root_cross_sentence_def)
  have d0: "dynamic_oracle ?c0 ?g = Inr [SHIFT]" by (simp add: dyn_eval root_cross_sentence_def)
  have a0: "apply_transition ?c0 SHIFT = Ok ?c1" by (simp add: engine_eval root_cross_sentence_def)
  have f0: "\<not> is_finished ?c0" and f1: "\<not> is_finished ?c1"
    by (simp_all add: engine_eval root_cross_sentence_def)
  have l1: "get_legal_transitions ?c1 = [LEFT, RIGHT, SHIFT]" by (simp add: engine_eval)
  have d1: "dynamic_oracle ?c1 ?g = Inr []" by (simp add: dyn_eval root_cross_sentence_def)
  have "dyn_parse (\<lambda>c ts. hd ts) ?g ?c1 = None"
    by (subst dyn_parse.simps) (simp add: f1 d1)
  then have "dyn_parse (\<lambda>c ts. hd ts) ?g ?c0 = None"
    by (subst dyn_parse.simps) (simp add: f0 d0 a0 del: apply_transition.simps)
  then show ?thesis using root_cross_tree p d0 a0 f1 l1 d1 by blast
qed

end
