(* ===== verification/Printing.thy ===== *)
theory Printing
  imports Transitions "HOL-Library.Monad_Syntax"
begin

text \<open>
  \<open>Configuration.__str__\<close> of src/arc_eager.py (lines 17-21), which \<open>__main__\<close> prints
  after every transition: three lines with the Python 2 reprs of the stack, the buffer and
  the arcs (a list of \<open>(head, dependent)\<close> tuples). \<open>config_str\<close> builds that text
  from \<open>int_repr\<close> (decimal, a minus sign for \<open>ROOT = -1\<close>), \<open>tuple_repr\<close> and
  \<open>list_repr\<close> (items joined by \<open>", "\<close> in brackets). \<open>parse_config_str\<close> reads such
  a text back; the round trip shows that the printed text determines the stack, the
  buffer and the arcs of the configuration (the sentence is not printed).
\<close>

section \<open>Python 2 reprs\<close>

definition digit_char :: "nat \<Rightarrow> char" where
  "digit_char n = ''0123456789'' ! n"

fun nat_str :: "nat \<Rightarrow> string" where
  "nat_str n = (if n < 10 then [digit_char n] else nat_str (n div 10) @ [digit_char (n mod 10)])"

declare nat_str.simps [simp del]

definition int_repr :: "int \<Rightarrow> string" where
  "int_repr i = (if i < 0 then CHR ''-'' # nat_str (nat (- i)) else nat_str (nat i))"

fun join :: "string \<Rightarrow> string list \<Rightarrow> string" where
  "join sep [] = []"
| "join sep [x] = x"
| "join sep (x # y # zs) = x @ sep @ join sep (y # zs)"

definition list_repr :: "('a \<Rightarrow> string) \<Rightarrow> 'a list \<Rightarrow> string" where
  "list_repr f xs = CHR ''['' # join '', '' (map f xs) @ '']''"

definition tuple_repr :: "arc \<Rightarrow> string" where
  "tuple_repr a = CHR ''('' # int_repr (fst a) @ '', '' @ int_repr (snd a) @ '')''"

definition config_str :: "config \<Rightarrow> string" where
  "config_str c =
     ''stack: '' @ list_repr int_repr (stack c) @ [CHR 0x0A] @
     ''buffer: '' @ list_repr int_repr (buffer c) @ [CHR 0x0A] @
     ''arcs: '' @ list_repr tuple_repr (arcs c)"

section \<open>Reading it back\<close>

definition is_digit :: "char \<Rightarrow> bool" where
  "is_digit ch \<longleftrightarrow> 48 \<le> (of_char ch :: nat) \<and> (of_char ch :: nat) < 58"

fun digits_val :: "nat \<Rightarrow> string \<Rightarrow> nat \<times> string" where
  "digits_val acc [] = (acc, [])"
| "digits_val acc (ch # cs) =
     (if is_digit ch then digits_val (10 * acc + (of_char ch - 48)) cs else (acc, ch # cs))"

definition parse_nat :: "string \<Rightarrow> (nat \<times> string) option" where
  "parse_nat s = (case s of ch # _ \<Rightarrow> if is_digit ch then Some (digits_val 0 s) else None | [] \<Rightarrow> None)"

definition parse_int :: "string \<Rightarrow> (int \<times> string) option" where
  "parse_int s =
     (case s of
        ch # cs \<Rightarrow>
          if ch = CHR ''-'' then map_option (\<lambda>(n, r). (- int n, r)) (parse_nat cs)
          else map_option (\<lambda>(n, r). (int n, r)) (parse_nat s)
      | [] \<Rightarrow> None)"

fun strip :: "string \<Rightarrow> string \<Rightarrow> string option" where
  "strip [] s = Some s"
| "strip (p # ps) [] = None"
| "strip (p # ps) (ch # cs) = (if p = ch then strip ps cs else None)"

definition parse_tuple :: "string \<Rightarrow> (arc \<times> string) option" where
  "parse_tuple s =
     do { s1 \<leftarrow> strip ''('' s; (h, s2) \<leftarrow> parse_int s1; s3 \<leftarrow> strip '', '' s2;
          (d, s4) \<leftarrow> parse_int s3; s5 \<leftarrow> strip '')'' s4; Some ((h, d), s5) }"

text \<open>The items after the first one, each preceded by \<open>, \<close>, up to the closing bracket.\<close>

fun parse_items :: "nat \<Rightarrow> (string \<Rightarrow> ('a \<times> string) option) \<Rightarrow> string \<Rightarrow> ('a list \<times> string) option" where
  "parse_items 0 p s = None"
| "parse_items (Suc n) p s =
     (case strip '']'' s of
        Some r \<Rightarrow> Some ([], r)
      | None \<Rightarrow> do { s1 \<leftarrow> strip '', '' s; (x, s2) \<leftarrow> p s1; (xs, s3) \<leftarrow> parse_items n p s2;
                      Some (x # xs, s3) })"

definition parse_list :: "(string \<Rightarrow> ('a \<times> string) option) \<Rightarrow> string \<Rightarrow> ('a list \<times> string) option" where
  "parse_list p s =
     do { s1 \<leftarrow> strip ''['' s;
          (case strip '']'' s1 of
             Some r \<Rightarrow> Some ([], r)
           | None \<Rightarrow> do { (x, s2) \<leftarrow> p s1; (xs, s3) \<leftarrow> parse_items (length s2) p s2;
                           Some (x # xs, s3) }) }"

definition parse_config_str :: "string \<Rightarrow> (idx list \<times> idx list \<times> arc list) option" where
  "parse_config_str s =
     do { s1 \<leftarrow> strip ''stack: '' s; (st, s2) \<leftarrow> parse_list parse_int s1;
          s3 \<leftarrow> strip [CHR 0x0A] s2; s4 \<leftarrow> strip ''buffer: '' s3;
          (bu, s5) \<leftarrow> parse_list parse_int s4; s6 \<leftarrow> strip [CHR 0x0A] s5;
          s7 \<leftarrow> strip ''arcs: '' s6; (ar, s8) \<leftarrow> parse_list parse_tuple s7;
          if s8 = [] then Some (st, bu, ar) else None }"

abbreviation digit_fold :: "nat \<Rightarrow> string \<Rightarrow> nat" where
  "digit_fold acc ds \<equiv> foldl (\<lambda>a ch. 10 * a + (of_char ch - 48)) acc ds"

lemma config_str_example: "config_str \<lparr>arcs = [(ROOT, 0)], stack = [ROOT, 0], buffer = [1, 12], sentence = []\<rparr> =
  ''stack: [-1, 0]'' @ [CHR 0x0A] @ ''buffer: [1, 12]'' @ [CHR 0x0A] @ ''arcs: [(-1, 0)]''"
  by (simp add: config_str_def list_repr_def int_repr_def tuple_repr_def nat_str.simps digit_char_def)

lemma digit_char_code: "n < 10 \<Longrightarrow> (of_char (digit_char n) :: nat) = 48 + n"
  by (auto simp: digit_char_def less_Suc_eq numeral_eq_Suc)


section \<open>Round trip\<close>

lemma nat_str_digits: "\<forall>ch \<in> set (nat_str n). is_digit ch"
proof (induction n rule: nat_str.induct)
  case (1 n)
  show ?case
  proof (cases "n < 10")
    case True
    then show ?thesis by (subst nat_str.simps) (simp add: is_digit_def digit_char_code)
  next
    case False
    then show ?thesis using 1 by (subst nat_str.simps) (simp add: is_digit_def digit_char_code)
  qed
qed

lemma nat_str_value: "digit_fold 0 (nat_str n) = n"
proof (induction n rule: nat_str.induct)
  case (1 n)
  show ?case
  proof (cases "n < 10")
    case True
    then show ?thesis by (subst nat_str.simps) (simp add: digit_char_code)
  next
    case False
    then have "digit_fold 0 (nat_str n) = 10 * (n div 10) + n mod 10"
      using 1 by (subst nat_str.simps) (simp add: digit_char_code)
    then show ?thesis by simp
  qed
qed

lemma nat_str_ne: "nat_str n \<noteq> []"
  by (subst nat_str.simps) simp

lemma digits_val_append:
  "\<forall>ch \<in> set ds. is_digit ch \<Longrightarrow> (rest = [] \<or> \<not> is_digit (hd rest)) \<Longrightarrow>
   digits_val acc (ds @ rest) = (digit_fold acc ds, rest)"
proof (induction ds arbitrary: acc)
  case Nil
  then show ?case by (cases rest) auto
next
  case (Cons ch ds)
  then show ?case by simp
qed

lemma parse_nat_str:
  "rest = [] \<or> \<not> is_digit (hd rest) \<Longrightarrow> parse_nat (nat_str n @ rest) = Some (n, rest)"
  using nat_str_digits[of n] nat_str_ne[of n] digits_val_append[of "nat_str n" rest 0] nat_str_value[of n]
  by (cases "nat_str n") (auto simp: parse_nat_def)

lemma minus_not_digit: "\<not> is_digit CHR ''-''"
  by (simp add: is_digit_def)

lemma parse_int_repr:
  "rest = [] \<or> \<not> is_digit (hd rest) \<Longrightarrow> parse_int (int_repr i @ rest) = Some (i, rest)"
proof (cases "i < 0")
  case True
  assume r: "rest = [] \<or> \<not> is_digit (hd rest)"
  then show ?thesis using True parse_nat_str[OF r, of "nat (- i)"] by (simp add: parse_int_def int_repr_def)
next
  case False
  assume r: "rest = [] \<or> \<not> is_digit (hd rest)"
  obtain ch cs where n: "nat_str (nat i) = ch # cs" using nat_str_ne by (cases "nat_str (nat i)") auto
  have "is_digit ch" using nat_str_digits[of "nat i"] n by simp
  then have "ch \<noteq> CHR ''-''" using minus_not_digit by blast
  then show ?thesis using False parse_nat_str[OF r, of "nat i"] n by (simp add: parse_int_def int_repr_def)
qed

lemma strip_append: "strip p (p @ s) = Some s"
  by (induction p) auto

lemma int_repr_ne: "int_repr i \<noteq> [] \<and> hd (int_repr i) \<noteq> CHR '']''"
proof -
  obtain ch cs where n: "nat_str (nat \<bar>i\<bar>) = ch # cs" using nat_str_ne by (cases "nat_str (nat \<bar>i\<bar>)") auto
  have "is_digit ch" using nat_str_digits[of "nat \<bar>i\<bar>"] n by simp
  then have "ch \<noteq> CHR '']''" by (auto simp: is_digit_def)
  then show ?thesis using n by (auto simp: int_repr_def)
qed

lemma parse_tuple_repr: "parse_tuple (tuple_repr a @ rest) = Some (a, rest)"
proof -
  obtain h d where a: "a = (h, d)" by (cases a)
  have r1: "parse_int (int_repr h @ '', '' @ int_repr d @ '')'' @ rest) = Some (h, '', '' @ int_repr d @ '')'' @ rest)"
    using parse_int_repr[of "'', '' @ int_repr d @ '')'' @ rest" h] by (simp add: is_digit_def)
  have r2: "parse_int (int_repr d @ '')'' @ rest) = Some (d, '')'' @ rest)"
    using parse_int_repr[of "'')'' @ rest" d] by (simp add: is_digit_def)
  show ?thesis unfolding a tuple_repr_def parse_tuple_def
    using r1 r2 strip_append[of "'', ''"] strip_append[of "'')''"] by simp
qed

lemma join_cons: "join sep (a # as) = a @ concat (map (\<lambda>y. sep @ y) as)"
  by (induction as arbitrary: a) auto

lemma items_length: "2 * length xs \<le> length (concat (map (\<lambda>y. '', '' @ f y) xs))"
  by (induction xs) auto

lemma parse_items_repr:
  assumes p: "\<forall>x r. r \<noteq> [] \<and> (hd r = CHR '','' \<or> hd r = CHR '']'') \<longrightarrow> p (f x @ r) = Some (x, r)"
  shows "length xs < n \<Longrightarrow>
    parse_items n p (concat (map (\<lambda>y. '', '' @ f y) xs) @ CHR '']'' # rest) = Some (xs, rest)"
proof (induction xs arbitrary: n)
  case Nil
  then obtain m where "n = Suc m" by (cases n) auto
  then show ?case by simp
next
  case (Cons x xs)
  then obtain m where n: "n = Suc m" and m: "length xs < m" by (cases n) auto
  let ?r = "concat (map (\<lambda>y. '', '' @ f y) xs) @ CHR '']'' # rest"
  have "?r \<noteq> [] \<and> (hd ?r = CHR '','' \<or> hd ?r = CHR '']'')" by (cases xs) auto
  then have "p (f x @ ?r) = Some (x, ?r)" using p by blast
  then show ?case using Cons.IH[OF m] n by simp
qed

lemma parse_list_repr:
  assumes p: "\<forall>x r. r \<noteq> [] \<and> (hd r = CHR '','' \<or> hd r = CHR '']'') \<longrightarrow> p (f x @ r) = Some (x, r)"
    and ne: "\<forall>x. f x \<noteq> [] \<and> hd (f x) \<noteq> CHR '']''"
  shows "parse_list p (list_repr f xs @ rest) = Some (xs, rest)"
proof (cases xs)
  case Nil
  then show ?thesis by (simp add: parse_list_def list_repr_def)
next
  case (Cons x ys)
  let ?r = "concat (map (\<lambda>y. '', '' @ f y) ys) @ CHR '']'' # rest"
  have l: "list_repr f xs @ rest = CHR ''['' # f x @ ?r" by (simp add: list_repr_def Cons join_cons comp_def)
  have r: "?r \<noteq> [] \<and> (hd ?r = CHR '','' \<or> hd ?r = CHR '']'')" by (cases ys) auto
  have px: "p (f x @ ?r) = Some (x, ?r)" using p r by blast
  have sx: "strip '']'' (f x @ ?r) = None" using ne[rule_format, of x] by (cases "f x") auto
  have "length ys < length ?r" using items_length[of ys f] by simp
  then have "parse_items (length ?r) p ?r = Some (ys, rest)" using parse_items_repr[OF p] by blast
  then show ?thesis unfolding l using px sx by (simp add: parse_list_def Cons)
qed

lemma parse_int_items:
  "\<forall>x r. r \<noteq> [] \<and> (hd r = CHR '','' \<or> hd r = CHR '']'') \<longrightarrow> parse_int (int_repr x @ r) = Some (x, r)"
  using parse_int_repr by (auto simp: is_digit_def)

lemma parse_tuple_items:
  "\<forall>x r. r \<noteq> [] \<and> (hd r = CHR '','' \<or> hd r = CHR '']'') \<longrightarrow> parse_tuple (tuple_repr x @ r) = Some (x, r)"
  using parse_tuple_repr by blast

lemma tuple_repr_ne: "\<forall>x. tuple_repr x \<noteq> [] \<and> hd (tuple_repr x) \<noteq> CHR '']''"
  by (simp add: tuple_repr_def)

section \<open>Properties\<close>

text \<open>
  C35: printing a configuration loses nothing of its state but the sentence. Reading back
  what \<open>Configuration.__str__\<close> prints gives the stack, the buffer and the arcs,
  for every configuration.
\<close>

theorem config_str_roundtrip:
  "parse_config_str (config_str c) = Some (stack c, buffer c, arcs c)"
proof -
  have i: "parse_list parse_int (list_repr int_repr xs @ rest) = Some (xs, rest)" for xs rest
    using parse_list_repr[OF parse_int_items] int_repr_ne by blast
  have t: "parse_list parse_tuple (list_repr tuple_repr xs @ rest) = Some (xs, rest)" for xs rest
    using parse_list_repr[OF parse_tuple_items tuple_repr_ne] .
  have t0: "parse_list parse_tuple (list_repr tuple_repr xs) = Some (xs, [])" for xs
    using t[of xs "[]"] by simp
  show ?thesis
    unfolding config_str_def parse_config_str_def
    by (simp add: i t0)
qed

end
