(* ===== verification/Spec2Isabelle.thy ===== *)
theory Spec2Isabelle
  imports Script Optimality Printing
begin

text \<open>
  Verification development for the arc-eager dependency-parsing transition system of the
  repository: src/arc_eager.py (classes \<open>Configuration\<close>, \<open>GoldConfiguration\<close>,
  \<open>ArcEager\<close>) and its \<open>__main__\<close> block. src/transparser.py only imports modules
  absent from the repository and is not modelled.

  \<^bold>\<open>The program.\<close> A sentence (list of token tuples) yields an initial configuration
  (stack \<open>[ROOT]\<close>, buffer \<open>[0..n-1]\<close>, no arcs) and, when annotated, a gold
  configuration (dicts \<open>head_of\<close>, \<open>deps_of\<close>, set \<open>arcs\<close>). A driver asks for the
  legal transitions, picks one (the static oracle, the dynamic oracle or a classifier),
  applies it with \<open>take_transition\<close> (which dispatches through the class dict
  \<open>transition_funcs\<close> filled by \<open>ArcEager.__init__\<close>), and stops at \<open>is_finished\<close>.
  \<open>is_not_projective\<close> filters gold trees before the oracles are used.

  \<^bold>\<open>Theories and what they model.\<close>
  \<^item> Prelude: the Python exceptions as \<open>error\<close>; \<open>error + 'a\<close> (with \<open>ebind\<close>) for
    functions that only read; \<open>'a outcome\<close> for methods that mutate their argument in
    place, where \<open>Raise e s\<close> keeps the state \<open>s\<close> the object was left in; the
    sentinel \<open>ROOT = -1\<close> (the source compares with \<open>is\<close>, which on the small int
    \<open>-1\<close> is equality).
  \<^item> Gold: the token tuple as the record \<open>token\<close>; \<open>GoldConfiguration\<close> as
    \<open>gold_config\<close> (\<open>head_of\<close> an association list read by \<open>lookup_head\<close>, which
    raises \<open>KeyError\<close>; \<open>deps_of\<close> a \<open>defaultdict(list)\<close> read by \<open>deps_get\<close>;
    \<open>gold_arcs\<close> a set); \<open>get_gold_config\<close> as \<open>gold_loop\<close>/\<open>gold_add\<close>.
  \<^item> Transitions: \<open>Configuration\<close> as the record \<open>config\<close> (stack top at the end of
    the list, as in Python); \<open>LEFT..REDUCE\<close> as \<open>transition\<close> with \<open>trans_code\<close>;
    \<open>get_initial_config\<close>, \<open>is_finished\<close>, \<open>get_legal_transitions\<close> (the flag list
    updated in the source's order), \<open>left_arc\<close>, \<open>right_arc\<close>, \<open>shift\<close>,
    \<open>reduce\<close> with their \<open>IndexError\<close> paths, the registry (\<open>arc_eager\<close>,
    \<open>ArcEager_class\<close>, \<open>ArcEager_init\<close>) and \<open>take_transition\<close>. The external
    driver of the specification is \<open>reachable\<close> (any choice of legal transitions) and
    \<open>run\<close> (a given choice).
  \<^item> Projectivity: \<open>is_not_projective\<close> as two loops (\<open>proj_outer\<close>,
    \<open>proj_inner\<close>) over the four tests \<open>crossing_pattern\<close>; the specification-side
    notions \<open>spans_cross\<close>, \<open>crossing_non_root\<close> and \<open>crossing_any\<close>.
  \<^item> Oracle: \<open>static_oracle\<close>, the cost functions \<open>left_arc_cost\<close>,
    \<open>right_arc_cost\<close>, \<open>shift_cost\<close> (with its loop \<open>shift_cost_loop\<close>),
    \<open>reduce_cost\<close>, and \<open>dynamic_oracle\<close> (its four guarded cost checks as
    \<open>dyn_loop\<close> over \<open>transition_cost\<close>). A \<open>defaultdict\<close> read is \<open>deps_get\<close>,
    without the insertion of \<open>[]\<close> for a missing key that Python performs; that
    insertion is \<open>deps_touch\<close> in Oracle_Agreement, proved to change no oracle result.
  \<^item> Gold_Tree: gold trees (\<open>parent\<close>, \<open>rooted\<close>, \<open>reaches_root\<close>,
    \<open>well_formed_tree\<close>), their acyclicity and the projectivity lemma
    \<open>between_descends\<close>.
  \<^item> Static_Oracle: the decision rule of spec section 4.2 (\<open>oracle_choice\<close>),
    the oracle invariant \<open>oracle_inv\<close> and the oracle-driven parse \<open>oracle_parse\<close>.
  \<^item> Oracle_Agreement: \<open>oracle_reachable\<close>, the configurations the static-oracle
    driver visits, and \<open>deps_touch\<close>, the \<open>defaultdict\<close> insertion on a read.
  \<^item> Costs: the sets of gold arcs the docstrings of the four cost functions name
    (\<open>left_arc_lost\<close>, \<open>right_arc_lost\<close>, \<open>shift_lost\<close>, \<open>reduce_lost\<close>).
  \<^item> Dynamic_Oracle: the training driver that applies any transition the dynamic oracle
    returns, as a relation (\<open>dyn_reachable\<close>) and as a terminating function over a
    chooser (\<open>dyn_parse\<close>).
  \<^item> Script: the \<open>__main__\<close> block (\<open>main\<close>, its loop \<open>main_loop\<close>), with the Python
    values it indexes with (\<open>pyval\<close>, \<open>py_index\<close>: negative indices count from the
    end, out of range is \<open>IndexError\<close>, a non-integer index is \<open>TypeError\<close>),
    \<open>TRANSITION_NAMES\<close>, and \<open>take_transition\<close> applied to such a value; the corpus
    reader \<open>util\<close> is absent, so \<open>main\<close> takes the corpus as its argument.
  \<^item> Oracle_Trace: \<open>oracle_trace\<close>, the static-oracle driver recording its transitions,
    whose replay through \<open>run\<close> reaches the same end as \<open>oracle_parse\<close>.
  \<^item> Runs: what any continuation of a configuration can still do (\<open>frame\<close>) and
    build (\<open>arc_lost\<close>); the token lifecycle of spec section 3 and malformed heads.
  \<^item> Exploration: the specification's notion of a zero-cost transition, against which
    \<open>dynamic_oracle\<close> is proved exact.
  \<^item> Buildable: explicit runs that build any gold arc \<open>arc_lost\<close> does not declare
    lost, so that \<open>arc_lost\<close> is exactly "permanently unreachable".
  \<^item> Soundness: \<open>newly_lost\<close>, the gold arcs one step makes unreachable (the
    specification's cost), computed per transition (\<open>left_newly_lost\<close> ..
    \<open>reduce_newly_lost\<close>) at every reachable configuration, on or off the oracle's path.
  \<^item> Printing: \<open>Configuration.__str__\<close> as \<open>config_str\<close>, over the Python 2 reprs of
    ints, tuples and lists (\<open>int_repr\<close>, \<open>tuple_repr\<close>, \<open>list_repr\<close>), and a reader
    \<open>parse_config_str\<close> for that text.
  \<^item> Optimality: the training driver after error exploration, \<open>dyn_path\<close> (from any
    reachable configuration, take only transitions \<open>dynamic_oracle\<close> returns), and
    \<open>zero_cost_exists\<close>: a zero-cost legal transition exists wherever one is legal.

  \<^bold>\<open>What is proved.\<close> Engine: \<open>get_legal_transitions\<close> equals the legality table
  of the specification; every reachable configuration satisfies \<open>wf_config\<close> (buffer a
  suffix of the sentence, stack \<open>ROOT\<close> below increasing indices, at most one head per
  token, every consumed token on the stack or attached), hence the single-head property;
  a finished configuration holds a complete head assignment; a finished run has exactly
  \<open>n\<close> SHIFT/RIGHT steps and \<open>2 n\<close> steps; every run of legal transitions is bounded by
  \<open>2 |buffer| + |stack|\<close>; legal transitions never raise; \<open>take_transition\<close> applies
  illegal transitions, leaves a partly updated configuration when LEFT meets an empty
  buffer, and raises \<open>KeyError\<close> before the registry is filled; a reachable
  configuration is stuck exactly when its buffer is empty and its top has no head.
  Gold and projectivity: what \<open>get_gold_config\<close> builds; \<open>is_not_projective\<close> is
  exactly "two non-\<open>ROOT\<close> arcs cross".
  Oracles: \<open>static_oracle\<close> computes the specification's rule without raising at every
  reachable configuration; for a well-formed tree with no crossing arcs (\<open>ROOT\<close> arcs
  included) the oracle-driven parse terminates, only ever takes legal transitions and
  builds exactly the gold arcs (the main theorem, by the invariant \<open>oracle_inv\<close>,
  preserved rule by rule, and the projectivity lemma \<open>between_descends\<close>);
  \<open>dynamic_oracle\<close> never raises at reachable configurations and returns legal
  transitions only; at every configuration the static-oracle driver visits on such a
  tree, the static oracle's transition is among the zero-cost transitions the dynamic
  oracle returns (so that list is not empty there, by \<open>oracle_choice_zero_cost\<close>:
  each cost function is \<open>0\<close> at the rule's choice); the default-dictionary insertions
  change neither oracle. Costs: at every reachable configuration of a well-formed tree
  each cost function returns the number of gold arcs its docstring names (outside the
  early return of LEFT and RIGHT when their own arc is gold). Dynamic oracle: every
  returned transition keeps every gold arc reachable (\<open>oracle_inv\<close> is preserved by
  every zero-cost legal transition), so the training driver never gets stuck, builds
  gold arcs only, and terminates with exactly the gold arcs whatever it chooses among the
  returned transitions; and the dynamic oracle is exact: on that path a legal transition
  is returned exactly when some continuation after it still finishes with the gold tree
  (a positive cost always exhibits a gold arc no continuation can build); off that path
  it is not: after one wrong transition it can reject a legal transition that loses no
  further gold arc, because SHIFT and RIGHT count gold dependents that already have a
  head (a concrete configuration of the chain \<open>0 \<leftarrow> 1 \<leftarrow> 2 \<leftarrow> ROOT\<close>).
  Runs: the type of a configuration (\<open>indices_ok\<close>: every stored integer is a token
  index or \<open>ROOT\<close>, preserved by every legal transition); the token lifecycle (a token
  is in one place at a time, \<open>ROOT\<close> stays at the bottom, a removed token never comes
  back; contrary to the docstring of \<open>get_initial_config\<close>, no \<open>ROOT\<close> is ever in
  the buffer); a gold head that is neither \<open>ROOT\<close> nor a token index gives an arc that no run
  builds. Buildable: from any reachable configuration of a well-formed tree, a gold arc
  can be built by some continuation exactly when it is not \<open>arc_lost\<close>. Soundness:
  for a projective tree every transition \<open>dynamic_oracle\<close> returns, at any reachable
  configuration, keeps every still-buildable gold arc buildable (soundness everywhere;
  exactness holds on the oracle's path only, see Exploration); on the dynamic oracle's
  path each cost function returns exactly the number of gold arcs its transition makes
  unreachable, the early \<open>return 0\<close> of LEFT and RIGHT included (off the path SHIFT
  and RIGHT also count dependents that already have a head). Optimality: for a tree
  without crossing arcs the dynamic oracle's list is empty exactly where no transition is
  legal; every continuation that follows it until no transition is legal holds every gold arc that was still buildable
  where the driver started (the oracle is optimal from anywhere); on the tree with heads
  \<open>[2, ROOT, 1]\<close>, accepted by \<open>is_not_projective\<close>, the oracle's own path reaches
  an empty list at a non-finished configuration.
  Printing: reading back the printed text of any configuration gives its stack, buffer
  and arcs.
  Script: \<open>main\<close> is characterised on every corpus; it raises \<open>TypeError\<close> on every
  non-empty projective sentence. Also a tree that passes
  \<open>is_not_projective\<close> on which the static oracle names an illegal REDUCE, because the
  check skips \<open>ROOT\<close> arcs.

  \<^bold>\<open>Bounds and fuel.\<close> No fuel is used: \<open>oracle_parse\<close>, \<open>oracle_trace\<close>,
  \<open>dyn_parse\<close> and \<open>main_loop\<close> are \<open>function\<close>s whose termination measure \<open>2 |buffer| + |stack|\<close> decreases at every transition that
  returns; \<open>reaches_root\<close> walks at most \<open>n\<close> heads, enough because a walk from a
  token that reaches \<open>ROOT\<close> without repeating visits at most the \<open>n\<close> tokens.

  \<^bold>\<open>Not modelled.\<close> The \<open>print\<close> statements of \<open>__main__\<close> (output only, no
  effect on the state; the text they print for a configuration is \<open>config_str\<close>); src/transparser.py (it imports
  \<open>arc_standard\<close>, \<open>parser\<close>, \<open>feature_extractor\<close> and \<open>train\<close>, none of which is in the
  repository, and has no code of its own); the corpus reader, feature extractor and
  classifier named by the specification (not in the repository).
\<close>

end
